(* ===== verification/Prelude.thy ===== *)
theory Prelude
  imports Main "HOL-Library.Word" "HOL-Library.List_Lexorder" "HOL-Library.Char_ord"
    "HOL-Library.Sublist" "HOL-Library.Monad_Syntax"
begin

text \<open>
  Shared vocabulary of the development: the result type of fallible functions and its
  combinators, the ordered maps and sets that stand for Rust's \<open>BTreeMap\<close> and
  \<open>BTreeSet\<close>, \<open>usize\<close> arithmetic, and the facts about byte-lexicographic order
  that the storage keys rest on. Everything here is about the language and its standard
  library; the program starts with the theory \<open>Errors\<close>.
\<close>

named_theorems res_simps "unfolding the combinators of fallible functions"
named_theorems btree_simps "lookup and membership in ordered maps and sets"

section \<open>Results\<close>

text \<open>
  A Rust \<open>Result<T, E>\<close> is \<open>'e + 'a\<close>. \<open>and_then r f\<close> is \<open>f(r?)\<close>: an error
  returns early, a value goes on.
\<close>

definition and_then :: "'e + 'a \<Rightarrow> ('a \<Rightarrow> 'e + 'b) \<Rightarrow> 'e + 'b" where
  "and_then r f = (case r of Inl e \<Rightarrow> Inl e | Inr a \<Rightarrow> f a)"

definition ensure :: "bool \<Rightarrow> 'e \<Rightarrow> 'e + unit" where
  "ensure b e = (if b then Inr () else Inl e)"

definition map_err :: "('e \<Rightarrow> 'f) \<Rightarrow> 'e + 'a \<Rightarrow> 'f + 'a" where
  "map_err f r = (case r of Inl e \<Rightarrow> Inl (f e) | Inr a \<Rightarrow> Inr a)"

text \<open>\<open>Iterator::try_for_each\<close> and \<open>collect::<Result<Vec<_>, _>>\<close>: the first error wins.\<close>

primrec try_for_each :: "('a \<Rightarrow> 'e + unit) \<Rightarrow> 'a list \<Rightarrow> 'e + unit" where
  "try_for_each f [] = Inr ()"
| "try_for_each f (x # xs) = and_then (f x) (\<lambda>_. try_for_each f xs)"

primrec map_res :: "('a \<Rightarrow> 'e + 'b) \<Rightarrow> 'a list \<Rightarrow> 'e + 'b list" where
  "map_res f [] = Inr []"
| "map_res f (x # xs) = and_then (f x) (\<lambda>y. and_then (map_res f xs) (\<lambda>ys. Inr (y # ys)))"

text \<open>A \<open>for\<close> loop whose body may return early with an error.\<close>

primrec fold_res :: "('a \<Rightarrow> 's \<Rightarrow> 'e + 's) \<Rightarrow> 'a list \<Rightarrow> 's \<Rightarrow> 'e + 's" where
  "fold_res f [] s = Inr s"
| "fold_res f (x # xs) s = and_then (f x s) (fold_res f xs)"

text \<open>\<open>Option<Result<_>>::transpose\<close> after a map.\<close>

definition map_opt_res :: "('a \<Rightarrow> 'e + 'b) \<Rightarrow> 'a option \<Rightarrow> 'e + 'b option" where
  "map_opt_res f x = (case x of None \<Rightarrow> Inr None | Some a \<Rightarrow> and_then (f a) (\<lambda>b. Inr (Some b)))"

lemma and_then_simps [simp, res_simps]:
  "and_then (Inl e) f = Inl e" "and_then (Inr a) f = f a"
  by (simp_all add: and_then_def)

lemma and_then_Inr_iff [res_simps]:
  "and_then r f = Inr b \<longleftrightarrow> (\<exists>a. r = Inr a \<and> f a = Inr b)"
  by (cases r) simp_all

lemma and_then_Inl_iff:
  "and_then r f = Inl e \<longleftrightarrow> r = Inl e \<or> (\<exists>a. r = Inr a \<and> f a = Inl e)"
  by (cases r) simp_all

lemma ensure_simps [simp, res_simps]:
  "ensure True e = Inr ()" "ensure False e = Inl e"
  "ensure b e = Inr u \<longleftrightarrow> b" "ensure b e = Inl e' \<longleftrightarrow> \<not> b \<and> e' = e"
  by (auto simp: ensure_def)

lemma map_err_simps [simp, res_simps]:
  "map_err f (Inl e) = Inl (f e)" "map_err f (Inr a) = Inr a"
  "map_err f r = Inr a \<longleftrightarrow> r = Inr a"
  by (auto simp: map_err_def split: sum.splits)

lemma map_opt_res_simps [simp, res_simps]:
  "map_opt_res f None = Inr None"
  "map_opt_res f (Some a) = and_then (f a) (\<lambda>b. Inr (Some b))"
  by (simp_all add: map_opt_res_def)

lemma try_for_each_Inr_iff [res_simps]:
  "try_for_each f xs = Inr u \<longleftrightarrow> (\<forall>x \<in> set xs. f x = Inr ())"
  by (induction xs) (auto simp: res_simps)

lemma try_for_each_Inl:
  "try_for_each f xs = Inl e \<Longrightarrow> \<exists>x \<in> set xs. f x = Inl e"
  by (induction xs) (auto simp: and_then_Inl_iff)

lemma map_res_Inr_length: "map_res f xs = Inr ys \<Longrightarrow> length ys = length xs"
  by (induction xs arbitrary: ys) (auto simp: res_simps)

lemma map_res_all_Inr:
  "(\<And>x. x \<in> set xs \<Longrightarrow> f x = Inr (g x)) \<Longrightarrow> map_res f xs = Inr (map g xs)"
  by (induction xs) auto

section \<open>usize\<close>

text \<open>
  A \<open>usize\<close> (64 bits on the targets the workspace builds for) is a \<open>nat\<close> at most
  \<open>usize_max\<close>; the operations that saturate, check or overflow are written out.
\<close>

definition usize_max :: nat where
  "usize_max = 2 ^ 64 - 1"

definition usize_saturating_mul :: "nat \<Rightarrow> nat \<Rightarrow> nat" where
  "usize_saturating_mul a b = min usize_max (a * b)"

definition usize_checked_add :: "nat \<Rightarrow> nat \<Rightarrow> nat option" where
  "usize_checked_add a b = (if a + b \<le> usize_max then Some (a + b) else None)"

text \<open>Evaluation compares as integers.\<close>

lemma usize_checked_add_code [code]:
  "usize_checked_add a b = (if int a + int b \<le> 18446744073709551615 then Some (a + b) else None)"
  by (simp add: usize_checked_add_def usize_max_def)

section \<open>Ordered maps: \<open>BTreeMap\<close>\<close>

text \<open>
  A \<open>BTreeMap\<close> is its list of entries in strictly ascending key order. The order is
  part of the type, so iteration order is never a hypothesis, and two maps with the same
  lookups are equal.
\<close>

fun al_insert :: "'k::linorder \<Rightarrow> 'v \<Rightarrow> ('k \<times> 'v) list \<Rightarrow> ('k \<times> 'v) list" where
  "al_insert k v [] = [(k, v)]"
| "al_insert k v ((k', v') # xs) =
     (if k < k' then (k, v) # (k', v') # xs
      else if k = k' then (k, v) # xs
      else (k', v') # al_insert k v xs)"

definition al_remove :: "'k \<Rightarrow> ('k \<times> 'v) list \<Rightarrow> ('k \<times> 'v) list" where
  "al_remove k xs = filter (\<lambda>(k', _). k' \<noteq> k) xs"

lemma al_insert_keys: "set (map fst (al_insert k v xs)) = insert k (set (map fst xs))"
  by (induction k v xs rule: al_insert.induct) auto

lemma al_insert_sorted:
  "sorted_wrt (<) (map fst xs) \<Longrightarrow> sorted_wrt (<) (map fst (al_insert k v xs))"
proof (induction k v xs rule: al_insert.induct)
  case (2 k v k' v' xs)
  then show ?case using al_insert_keys [of k v xs] by (auto simp del: set_map)
qed simp

lemma map_of_al_insert: "map_of (al_insert k v xs) = (map_of xs)(k \<mapsto> v)"
  by (induction k v xs rule: al_insert.induct) auto

lemma al_remove_sorted:
  "sorted_wrt (<) (map fst xs) \<Longrightarrow> sorted_wrt (<) (map fst (al_remove k xs))"
  by (induction xs) (auto simp: al_remove_def)

lemma map_of_al_remove: "map_of (al_remove k xs) = (map_of xs)(k := None)"
  by (induction xs) (auto simp: al_remove_def fun_eq_iff)

lemma entries_of_keys:
  "distinct (map fst xs) \<Longrightarrow> xs = map (\<lambda>k. (k, the (map_of xs k))) (map fst xs)"
  by (rule sym) (auto intro!: map_idI simp: comp_def)

lemma sorted_map_of_inject:
  assumes "sorted_wrt (<) (map fst xs)" "sorted_wrt (<) (map fst ys)"
    and "map_of xs = map_of (ys :: ('k::linorder \<times> 'v) list)"
  shows "xs = ys"
proof -
  have d: "distinct (map fst xs)" "distinct (map fst ys)"
    using assms(1,2) strict_sorted_iff by blast+
  have "set (map fst xs) = set (map fst ys)"
    using arg_cong [OF assms(3), of dom] by (simp add: dom_map_of_conv_image_fst)
  then have "map fst xs = map fst ys"
    using assms(1,2) strict_sorted_equal by blast
  then show ?thesis
    using entries_of_keys [OF d(1)] entries_of_keys [OF d(2)] assms(3) by metis
qed

typedef (overloaded) ('k::linorder, 'v) btree =
    "{xs :: ('k \<times> 'v) list. sorted_wrt (<) (map fst xs)}"
  morphisms bt_entries Btree
  by (rule exI [of _ "[]"]) simp

setup_lifting type_definition_btree

lift_definition bt_empty :: "('k::linorder, 'v) btree" is "[]"
  by simp

lift_definition bt_insert :: "'k::linorder \<Rightarrow> 'v \<Rightarrow> ('k, 'v) btree \<Rightarrow> ('k, 'v) btree"
  is al_insert
  by (rule al_insert_sorted)

lift_definition bt_remove :: "'k::linorder \<Rightarrow> ('k, 'v) btree \<Rightarrow> ('k, 'v) btree"
  is al_remove
  by (rule al_remove_sorted)

lift_definition bt_get :: "('k::linorder, 'v) btree \<Rightarrow> 'k \<Rightarrow> 'v option" is map_of .

definition bt_keys :: "('k::linorder, 'v) btree \<Rightarrow> 'k list" where
  "bt_keys m = map fst (bt_entries m)"

definition bt_values :: "('k::linorder, 'v) btree \<Rightarrow> 'v list" where
  "bt_values m = map snd (bt_entries m)"

definition bt_len :: "('k::linorder, 'v) btree \<Rightarrow> nat" where
  "bt_len m = length (bt_entries m)"

definition bt_is_empty :: "('k::linorder, 'v) btree \<Rightarrow> bool" where
  "bt_is_empty m \<longleftrightarrow> bt_entries m = []"

definition bt_contains :: "('k::linorder, 'v) btree \<Rightarrow> 'k \<Rightarrow> bool" where
  "bt_contains m k \<longleftrightarrow> bt_get m k \<noteq> None"

text \<open>\<open>if let Some(v) = m.get_mut(k) { *v = f(v) }\<close>.\<close>

definition bt_update :: "'k::linorder \<Rightarrow> ('v \<Rightarrow> 'v) \<Rightarrow> ('k, 'v) btree \<Rightarrow> ('k, 'v) btree" where
  "bt_update k f m = (case bt_get m k of None \<Rightarrow> m | Some v \<Rightarrow> bt_insert k (f v) m)"

text \<open>\<open>let v = m.entry(k).or_insert(d); *v = f(v)\<close>.\<close>

definition bt_upsert :: "'k::linorder \<Rightarrow> 'v \<Rightarrow> ('v \<Rightarrow> 'v) \<Rightarrow> ('k, 'v) btree \<Rightarrow> ('k, 'v) btree" where
  "bt_upsert k d f m = bt_insert k (f (case bt_get m k of None \<Rightarrow> d | Some v \<Rightarrow> v)) m"

instantiation btree :: (linorder, equal) equal
begin

definition equal_btree :: "('a, 'b) btree \<Rightarrow> ('a, 'b) btree \<Rightarrow> bool" where
  "equal_btree m n \<longleftrightarrow> bt_entries m = bt_entries n"

instance
  by standard (simp add: equal_btree_def bt_entries_inject)

end

subsection \<open>Lookup laws\<close>

lemma bt_entries_sorted: "sorted_wrt (<) (map fst (bt_entries m))"
  using bt_entries [of m] by simp

lemma bt_keys_sorted: "sorted_wrt (<) (bt_keys m)"
  by (simp add: bt_keys_def bt_entries_sorted)

lemma bt_keys_distinct [simp]: "distinct (bt_keys m)"
  using bt_keys_sorted [of m] strict_sorted_iff by blast

lemma bt_keys_weakly_sorted: "sorted (bt_keys m)"
  using bt_keys_sorted [of m] strict_sorted_iff by blast

lemma bt_get_empty [simp, btree_simps]: "bt_get bt_empty k = None"
  by transfer simp

lemma bt_get_insert [btree_simps]: "bt_get (bt_insert k v m) k' = (if k' = k then Some v else bt_get m k')"
  by transfer (simp add: map_of_al_insert)

lemma bt_get_remove [btree_simps]: "bt_get (bt_remove k m) k' = (if k' = k then None else bt_get m k')"
  by transfer (simp add: map_of_al_remove)

lemma bt_get_update [btree_simps]:
  "bt_get (bt_update k f m) k' = (if k' = k then map_option f (bt_get m k) else bt_get m k')"
  by (auto simp: bt_update_def btree_simps split: option.splits)

lemma bt_get_upsert [btree_simps]:
  "bt_get (bt_upsert k d f m) k' =
     (if k' = k then Some (f (case bt_get m k of None \<Rightarrow> d | Some v \<Rightarrow> v)) else bt_get m k')"
  by (simp add: bt_upsert_def btree_simps)

lemma bt_eqI: "(\<And>k. bt_get m k = bt_get n k) \<Longrightarrow> m = n"
  by (transfer) (auto intro: sorted_map_of_inject)

lemma bt_entries_iff: "(k, v) \<in> set (bt_entries m) \<longleftrightarrow> bt_get m k = Some v"
proof -
  have "distinct (map fst (bt_entries m))"
    using bt_keys_distinct [of m] by (simp add: bt_keys_def)
  then show ?thesis by (simp add: bt_get.rep_eq)
qed

lemma set_bt_keys: "set (bt_keys m) = {k. bt_get m k \<noteq> None}"
proof -
  have "set (map fst (bt_entries m)) = {k. map_of (bt_entries m) k \<noteq> None}"
    by (force simp: map_of_eq_None_iff)
  then show ?thesis by (simp add: bt_keys_def bt_get.rep_eq)
qed

lemma bt_keys_iff [btree_simps]: "k \<in> set (bt_keys m) \<longleftrightarrow> (\<exists>v. bt_get m k = Some v)"
  by (simp add: set_bt_keys)

lemma finite_bt_dom [simp]: "finite {k. bt_get m k \<noteq> None}"
  using set_bt_keys [of m, symmetric] by simp

lemma finite_bt_dom_Some [simp]: "finite {k. \<exists>v. bt_get m k = Some v}"
  using finite_bt_dom [of m] by simp

lemma bt_values_iff: "v \<in> set (bt_values m) \<longleftrightarrow> (\<exists>k. bt_get m k = Some v)"
  by (auto simp: bt_values_def bt_entries_iff [symmetric] intro: image_eqI [of _ snd "(k, v)" for k])

lemma bt_contains_iff [simp, btree_simps]: "bt_contains m k \<longleftrightarrow> (\<exists>v. bt_get m k = Some v)"
  by (simp add: bt_contains_def)

lemma bt_len_keys: "bt_len m = length (bt_keys m)"
  by (simp add: bt_len_def bt_keys_def)

lemma bt_len_card: "bt_len m = card {k. bt_get m k \<noteq> None}"
  by (metis bt_keys_distinct bt_len_keys distinct_card set_bt_keys)

lemma bt_is_empty_iff [btree_simps]: "bt_is_empty m \<longleftrightarrow> (\<forall>k. bt_get m k = None)"
  using set_bt_keys [of m] by (auto simp: bt_is_empty_def bt_keys_def)

lemma bt_is_empty_eq: "bt_is_empty m \<longleftrightarrow> m = bt_empty"
  by (metis bt_eqI bt_get_empty bt_is_empty_iff)

lemma bt_keys_cong: "(\<And>k. bt_get m k = None \<longleftrightarrow> bt_get n k = None) \<Longrightarrow> bt_keys m = bt_keys n"
  by (rule strict_sorted_equal [OF bt_keys_sorted bt_keys_sorted]) (auto simp: set_bt_keys)

lemma bt_entries_empty [simp]: "bt_entries bt_empty = []"
  by transfer simp

lemma bt_keys_empty [simp]: "bt_keys bt_empty = []"
  by (simp add: bt_keys_def)

lemma bt_remove_absent: "bt_get m k = None \<Longrightarrow> bt_remove k m = m"
  by (rule bt_eqI) (simp add: btree_simps)

lemma bt_insert_same: "bt_get m k = Some v \<Longrightarrow> bt_insert k v m = m"
  by (rule bt_eqI) (simp add: btree_simps)

lemma bt_insert_remove: "bt_insert k v (bt_remove k m) = bt_insert k v m"
  by (rule bt_eqI) (simp add: btree_simps)

lemma bt_remove_insert: "bt_remove k (bt_insert k v m) = bt_remove k m"
  by (rule bt_eqI) (simp add: btree_simps)

text \<open>Sums over the values, one key at a time.\<close>

lemma bt_sum_keys:
  fixes f :: "'v \<Rightarrow> 'a::comm_monoid_add"
  shows "sum_list (map f (bt_values m)) = (\<Sum>k \<in> {k. bt_get m k \<noteq> None}. f (the (bt_get m k)))"
proof -
  have "map f (bt_values m) = map (\<lambda>k. f (the (bt_get m k))) (bt_keys m)"
    by (auto simp: bt_values_def bt_keys_def bt_entries_iff)
  then show ?thesis by (simp add: sum_list_distinct_conv_sum_set set_bt_keys)
qed

lemma bt_sum_remove:
  fixes f :: "'v \<Rightarrow> 'a::comm_monoid_add"
  assumes "bt_get m k = Some v"
  shows "sum_list (map f (bt_values m)) = f v + sum_list (map f (bt_values (bt_remove k m)))"
proof -
  have "{k'. bt_get (bt_remove k m) k' \<noteq> None} = {k'. bt_get m k' \<noteq> None} - {k}"
    by (auto simp: btree_simps)
  then have "(\<Sum>k' \<in> {k'. bt_get (bt_remove k m) k' \<noteq> None}. f (the (bt_get (bt_remove k m) k'))) =
      (\<Sum>k' \<in> {k'. bt_get m k' \<noteq> None} - {k}. f (the (bt_get m k')))"
    by (intro sum.cong) (auto simp: btree_simps)
  moreover have "(\<Sum>k' \<in> {k'. bt_get m k' \<noteq> None}. f (the (bt_get m k'))) =
      f (the (bt_get m k)) + (\<Sum>k' \<in> {k'. bt_get m k' \<noteq> None} - {k}. f (the (bt_get m k')))"
    by (rule sum.remove) (use assms in simp_all)
  ultimately show ?thesis using assms by (simp add: bt_sum_keys)
qed

lemma bt_sum_insert:
  fixes f :: "'v \<Rightarrow> 'a::comm_monoid_add"
  shows "sum_list (map f (bt_values (bt_insert k v m))) = f v + sum_list (map f (bt_values (bt_remove k m)))"
  using bt_sum_remove [of "bt_insert k v m" k v f] by (simp add: btree_simps bt_remove_insert)

lemma bt_len_eq:
  "(\<And>k v. bt_get m k = Some v \<Longrightarrow> bt_get n k = Some v) \<Longrightarrow> bt_len m = bt_len n \<Longrightarrow> m = n"
proof (rule bt_eqI)
  fix k
  assume sub: "\<And>k v. bt_get m k = Some v \<Longrightarrow> bt_get n k = Some v" and len: "bt_len m = bt_len n"
  have "{k. bt_get m k \<noteq> None} \<subseteq> {k. bt_get n k \<noteq> None}" using sub by auto
  then have "{k. bt_get m k \<noteq> None} = {k. bt_get n k \<noteq> None}"
    using len by (intro card_subset_eq) (simp_all only: finite_bt_dom bt_len_card)
  then have "bt_get m k \<noteq> None \<longleftrightarrow> bt_get n k \<noteq> None" by blast
  then show "bt_get m k = bt_get n k" using sub by (cases "bt_get m k") auto
qed

section \<open>Ordered sets: \<open>BTreeSet\<close>\<close>

text \<open>A \<open>BTreeSet\<close> is a \<open>BTreeMap\<close> to the unit, as in the standard library.\<close>

type_synonym 'k bset = "('k, unit) btree"

abbreviation bs_empty :: "'k::linorder bset" where
  "bs_empty \<equiv> bt_empty"

definition bs_insert :: "'k::linorder \<Rightarrow> 'k bset \<Rightarrow> 'k bset" where
  "bs_insert k s = bt_insert k () s"

definition bs_remove :: "'k::linorder \<Rightarrow> 'k bset \<Rightarrow> 'k bset" where
  "bs_remove k s = bt_remove k s"

definition bs_mem :: "'k::linorder \<Rightarrow> 'k bset \<Rightarrow> bool" where
  "bs_mem k s \<longleftrightarrow> bt_get s k = Some ()"

definition bs_list :: "'k::linorder bset \<Rightarrow> 'k list" where
  "bs_list s = bt_keys s"

definition bs_of_list :: "'k::linorder list \<Rightarrow> 'k bset" where
  "bs_of_list xs = fold bs_insert xs bs_empty"

lemma bs_mem_empty [simp, btree_simps]: "\<not> bs_mem k bs_empty"
  by (simp add: bs_mem_def)

lemma bs_mem_insert [simp, btree_simps]: "bs_mem k (bs_insert k' s) \<longleftrightarrow> k = k' \<or> bs_mem k s"
  by (simp add: bs_mem_def bs_insert_def btree_simps)

lemma bs_mem_remove [simp, btree_simps]: "bs_mem k (bs_remove k' s) \<longleftrightarrow> k \<noteq> k' \<and> bs_mem k s"
  by (simp add: bs_mem_def bs_remove_def btree_simps)

lemma bs_list_set [simp]: "set (bs_list s) = {k. bs_mem k s}"
  by (auto simp: bs_list_def set_bt_keys bs_mem_def)

lemma bs_list_distinct [simp]: "distinct (bs_list s)"
  by (simp add: bs_list_def)

lemma bs_list_sorted: "sorted_wrt (<) (bs_list s)"
  by (simp add: bs_list_def bt_keys_sorted)

lemma bs_eqI: "(\<And>k. bs_mem k s \<longleftrightarrow> bs_mem k t) \<Longrightarrow> s = t"
  by (rule bt_eqI) (metis bs_mem_def not_Some_eq old.unit.exhaust)

lemma bs_list_inject: "bs_list s = bs_list t \<Longrightarrow> s = t"
  by (rule bs_eqI) (metis bs_list_set mem_Collect_eq)

lemma bs_mem_of_list [simp, btree_simps]: "bs_mem k (bs_of_list xs) \<longleftrightarrow> k \<in> set xs"
proof -
  have "bs_mem k (fold bs_insert xs s) \<longleftrightarrow> k \<in> set xs \<or> bs_mem k s" for s
    by (induction xs arbitrary: s) auto
  then show ?thesis by (simp add: bs_of_list_def)
qed

lemma bs_len_card: "bt_len s = card {k. bs_mem k s}"
  by (metis bs_list_def bs_list_distinct bs_list_set bt_len_keys distinct_card)

lemma bs_list_empty [simp]: "bs_list bs_empty = []"
  by (simp add: bs_list_def)

lemma finite_bs [simp]: "finite {k. bs_mem k s}"
  by (metis List.finite_set bs_list_set)

section \<open>Byte-lexicographic order and prefixes\<close>

text \<open>
  \<open>String\<close> keys compare bytewise. The keys that extend a prefix are an interval that
  starts at the prefix, which is what a range scan from the prefix relies on.
\<close>

lemma le_append: "(p :: 'a::linorder list) \<le> p @ s"
  by (induction p) auto

lemma prefix_le: "prefix (p :: 'a::linorder list) k \<Longrightarrow> p \<le> k"
  by (auto simp: prefix_def le_append)

lemma append_less_iff: "(p @ s :: 'a::linorder list) < p @ t \<longleftrightarrow> s < t"
  by (induction p) auto

lemma between_prefix:
  "(p :: 'a::linorder list) \<le> k \<Longrightarrow> k \<le> p @ s \<Longrightarrow> prefix p k"
proof (induction p arbitrary: k)
  case (Cons a p)
  show ?case
  proof (cases k)
    case Nil
    with Cons.prems show ?thesis by simp
  next
    case (Cons b k')
    with Cons.prems have "a = b" by auto
    with Cons Cons.prems Cons.IH show ?thesis by simp
  qed
qed simp

end
