(* ===== verification/Identity.thy ===== *)
theory Identity
  imports Prelude
begin

text \<open>
  The identifiers of \<open>crates/heurema/src/lifecycle/identity.rs\<close>: the grammars of owner
  namespaces, index names and operation keys, index versions (\<open>NonZeroU64\<close>) and operation
  digests (32 bytes, written as 64 lowercase hex digits). The newtypes whose only
  constructors validate are typedefs of the values those constructors accept.

  A Rust \<open>str\<close> is the list of its UTF-8 bytes, one \<open>char\<close> per byte. The text of a refusal
  is kept as the data it is formatted from (\<open>id_reason\<close>).
\<close>

unbundle bit_operations_syntax

section \<open>Grammars\<close>

datatype identifier_kind =
    IkOwnerNamespace | IkIndexName | IkOperationKey | IkOperationDigest
  | IkIndexVersion | IkMemberIdentity

record grammar =
  g_kind :: identifier_kind
  g_max_len :: nat
  g_uppercase :: bool
  g_punctuation :: string

definition is_ascii :: "char \<Rightarrow> bool" where
  "is_ascii c \<longleftrightarrow> (of_char c :: nat) < 128"

definition is_ascii_digit :: "char \<Rightarrow> bool" where
  "is_ascii_digit c \<longleftrightarrow> CHR ''0'' \<le> c \<and> c \<le> CHR ''9''"

definition is_ascii_lowercase :: "char \<Rightarrow> bool" where
  "is_ascii_lowercase c \<longleftrightarrow> CHR ''a'' \<le> c \<and> c \<le> CHR ''z''"

definition is_ascii_uppercase :: "char \<Rightarrow> bool" where
  "is_ascii_uppercase c \<longleftrightarrow> CHR ''A'' \<le> c \<and> c \<le> CHR ''Z''"

text \<open>Bytes \<open>10xxxxxx\<close> continue a UTF-8 encoded character.\<close>

definition utf8_continues :: "char \<Rightarrow> bool" where
  "utf8_continues c \<longleftrightarrow> 128 \<le> (of_char c :: nat) \<and> (of_char c :: nat) < 192"

definition utf8_head :: "string \<Rightarrow> string" where
  "utf8_head s = (case s of [] \<Rightarrow> [] | c # cs \<Rightarrow> c # takeWhile utf8_continues cs)"

text \<open>\<open>value.chars().take(n)\<close>, on the bytes.\<close>

fun utf8_take :: "nat \<Rightarrow> string \<Rightarrow> string" where
  "utf8_take n [] = []"
| "utf8_take n (c # cs) =
     (if utf8_continues c then c # utf8_take n cs
      else (case n of 0 \<Rightarrow> [] | Suc m \<Rightarrow> c # utf8_take m cs))"

definition REPORTED_VALUE_CHARS :: nat where
  "REPORTED_VALUE_CHARS = 64"

definition reported :: "string \<Rightarrow> string" where
  "reported value = utf8_take REPORTED_VALUE_CHARS value"

text \<open>Decimal text of a number, as \<open>Display\<close> writes it.\<close>

definition digit_char :: "nat \<Rightarrow> char" where
  "digit_char d = char_of (48 + d)"

fun show_nat :: "nat \<Rightarrow> string" where
  "show_nat n = (if n < 10 then [digit_char n] else show_nat (n div 10) @ [digit_char (n mod 10)])"

declare show_nat.simps [simp del]

datatype id_reason =
    IsEmpty string
  | TooLong nat nat
  | BadCharacter string nat string
  | NotHexLength nat nat
  | NotLowercaseHex string nat
  | VersionsStartAtOne
  | CounterExhausted
  | MemberReason string

definition pattern :: "grammar \<Rightarrow> string" where
  "pattern g =
     (let lead = (if g_uppercase g then ''A-Za-z0-9'' else ''a-z0-9'')
      in ''['' @ lead @ '']['' @ lead @ g_punctuation g @ '']{0,'' @
         show_nat (g_max_len g - 1) @ ''}'')"

definition leads :: "grammar \<Rightarrow> char \<Rightarrow> bool" where
  "leads g c \<longleftrightarrow>
     is_ascii_digit c \<or> is_ascii_lowercase c \<or> (g_uppercase g \<and> is_ascii_uppercase c)"

definition follows :: "grammar \<Rightarrow> char \<Rightarrow> bool" where
  "follows g c \<longleftrightarrow> leads g c \<or> (is_ascii c \<and> c \<in> set (g_punctuation g))"

text \<open>The loop of \<open>Grammar::check\<close> over \<open>value.char_indices()\<close>, from byte \<open>offset\<close>.\<close>

fun grammar_scan :: "grammar \<Rightarrow> nat \<Rightarrow> string \<Rightarrow> id_reason option" where
  "grammar_scan g offset [] = None"
| "grammar_scan g offset (c # cs) =
     (if (if offset = 0 then leads g c else follows g c)
      then grammar_scan g (Suc offset) cs
      else Some (BadCharacter (utf8_head (c # cs)) offset (pattern g)))"

definition grammar_reason :: "grammar \<Rightarrow> string \<Rightarrow> id_reason option" where
  "grammar_reason g value =
     (if value = [] then Some (IsEmpty (pattern g))
      else if length value > g_max_len g then Some (TooLong (length value) (g_max_len g))
      else grammar_scan g 0 value)"

definition OWNER_NAMESPACE :: grammar where
  "OWNER_NAMESPACE = \<lparr>g_kind = IkOwnerNamespace, g_max_len = 64, g_uppercase = False,
     g_punctuation = ''._-''\<rparr>"

definition INDEX_NAME :: grammar where
  "INDEX_NAME = \<lparr>g_kind = IkIndexName, g_max_len = 128, g_uppercase = False,
     g_punctuation = ''._-''\<rparr>"

definition OPERATION_KEY :: grammar where
  "OPERATION_KEY = \<lparr>g_kind = IkOperationKey, g_max_len = 128, g_uppercase = True,
     g_punctuation = ''._:-''\<rparr>"

text \<open>What a grammar accepts, without the loop.\<close>

lemma grammar_scan_pos:
  "0 < offset \<Longrightarrow> grammar_scan g offset cs = None \<longleftrightarrow> (\<forall>c \<in> set cs. follows g c)"
  by (induction cs arbitrary: offset) auto

lemma grammar_accepts_iff:
  "grammar_reason g s = None \<longleftrightarrow>
     (\<exists>c cs. s = c # cs \<and> leads g c \<and> (\<forall>d \<in> set cs. follows g d) \<and> length s \<le> g_max_len g)"
  by (cases s) (auto simp: grammar_reason_def grammar_scan_pos)

lemma leads_follows: "leads g c \<Longrightarrow> follows g c"
  by (simp add: follows_def)

lemma grammar_chars: "grammar_reason g s = None \<Longrightarrow> c \<in> set s \<Longrightarrow> follows g c"
  by (auto simp: grammar_accepts_iff leads_follows)

section \<open>Validated string identifiers\<close>

typedef owner_namespace = "{s. grammar_reason OWNER_NAMESPACE s = None}"
  morphisms ns_str Owner_namespace
  by (rule exI [of _ "''a''"]) code_simp

typedef index_name = "{s. grammar_reason INDEX_NAME s = None}"
  morphisms name_str Index_name
  by (rule exI [of _ "''a''"]) code_simp

typedef operation_key = "{s. grammar_reason OPERATION_KEY s = None}"
  morphisms key_str Operation_key
  by (rule exI [of _ "''a''"]) code_simp

setup_lifting type_definition_owner_namespace
setup_lifting type_definition_index_name
setup_lifting type_definition_operation_key

lift_definition (code_dt) owner_namespace_parse :: "string \<Rightarrow> id_reason + owner_namespace" is
  "\<lambda>s. case grammar_reason OWNER_NAMESPACE s of Some r \<Rightarrow> Inl r | None \<Rightarrow> Inr s"
  by (auto split: option.split)

lift_definition (code_dt) index_name_parse :: "string \<Rightarrow> id_reason + index_name" is
  "\<lambda>s. case grammar_reason INDEX_NAME s of Some r \<Rightarrow> Inl r | None \<Rightarrow> Inr s"
  by (auto split: option.split)

lift_definition (code_dt) operation_key_parse :: "string \<Rightarrow> id_reason + operation_key" is
  "\<lambda>s. case grammar_reason OPERATION_KEY s of Some r \<Rightarrow> Inl r | None \<Rightarrow> Inr s"
  by (auto split: option.split)

text \<open>Parsing and \<open>as_str\<close> are inverse on what the grammar accepts.\<close>

lemma owner_namespace_parse_Inr [simp]: "owner_namespace_parse s = Inr n \<longleftrightarrow> ns_str n = s"
  by transfer (auto split: option.splits)

lemma owner_namespace_parse_Inl [simp]:
  "owner_namespace_parse s = Inl r \<longleftrightarrow> grammar_reason OWNER_NAMESPACE s = Some r"
  by transfer (auto split: option.splits)

lemma index_name_parse_Inr [simp]: "index_name_parse s = Inr n \<longleftrightarrow> name_str n = s"
  by transfer (auto split: option.splits)

lemma index_name_parse_Inl [simp]:
  "index_name_parse s = Inl r \<longleftrightarrow> grammar_reason INDEX_NAME s = Some r"
  by transfer (auto split: option.splits)

lemma operation_key_parse_Inr [simp]: "operation_key_parse s = Inr k \<longleftrightarrow> key_str k = s"
  by transfer (auto split: option.splits)

lemma operation_key_parse_Inl [simp]:
  "operation_key_parse s = Inl r \<longleftrightarrow> grammar_reason OPERATION_KEY s = Some r"
  by transfer (auto split: option.splits)

lemma ns_str_accepted: "grammar_reason OWNER_NAMESPACE (ns_str n) = None"
  using ns_str [of n] by simp

lemma name_str_accepted: "grammar_reason INDEX_NAME (name_str n) = None"
  using name_str [of n] by simp

lemma key_str_accepted: "grammar_reason OPERATION_KEY (key_str k) = None"
  using key_str [of k] by simp

text \<open>No identifier contains the storage separator.\<close>

lemma no_separator:
  assumes "grammar_reason g s = None" "CHR ''/'' \<notin> set (g_punctuation g)"
  shows "CHR ''/'' \<notin> set s"
proof
  assume "CHR ''/'' \<in> set s"
  with assms(1) have "follows g CHR ''/''" by (rule grammar_chars)
  moreover have "\<not> leads g CHR ''/''" by (simp add: leads_def) code_simp
  ultimately show False using assms(2) by (simp add: follows_def)
qed

lemma ns_str_no_separator [simp]: "CHR ''/'' \<notin> set (ns_str n)"
  by (rule no_separator [OF ns_str_accepted]) (simp add: OWNER_NAMESPACE_def)

lemma name_str_no_separator [simp]: "CHR ''/'' \<notin> set (name_str n)"
  by (rule no_separator [OF name_str_accepted]) (simp add: INDEX_NAME_def)

lemma key_str_no_separator [simp]: "CHR ''/'' \<notin> set (key_str k)"
  by (rule no_separator [OF key_str_accepted]) (simp add: OPERATION_KEY_def)

text \<open>The derived orders compare the strings.\<close>

instantiation owner_namespace :: "{linorder, equal}"
begin

definition less_eq_owner_namespace :: "owner_namespace \<Rightarrow> owner_namespace \<Rightarrow> bool" where
  "less_eq_owner_namespace a b \<longleftrightarrow> ns_str a \<le> ns_str b"

definition less_owner_namespace :: "owner_namespace \<Rightarrow> owner_namespace \<Rightarrow> bool" where
  "less_owner_namespace a b \<longleftrightarrow> ns_str a < ns_str b"

definition equal_owner_namespace :: "owner_namespace \<Rightarrow> owner_namespace \<Rightarrow> bool" where
  "equal_owner_namespace a b \<longleftrightarrow> ns_str a = ns_str b"

instance
  by standard (auto simp: less_eq_owner_namespace_def less_owner_namespace_def
    equal_owner_namespace_def ns_str_inject [symmetric])

end

instantiation index_name :: "{linorder, equal}"
begin

definition less_eq_index_name :: "index_name \<Rightarrow> index_name \<Rightarrow> bool" where
  "less_eq_index_name a b \<longleftrightarrow> name_str a \<le> name_str b"

definition less_index_name :: "index_name \<Rightarrow> index_name \<Rightarrow> bool" where
  "less_index_name a b \<longleftrightarrow> name_str a < name_str b"

definition equal_index_name :: "index_name \<Rightarrow> index_name \<Rightarrow> bool" where
  "equal_index_name a b \<longleftrightarrow> name_str a = name_str b"

instance
  by standard (auto simp: less_eq_index_name_def less_index_name_def
    equal_index_name_def name_str_inject [symmetric])

end

instantiation operation_key :: "{linorder, equal}"
begin

definition less_eq_operation_key :: "operation_key \<Rightarrow> operation_key \<Rightarrow> bool" where
  "less_eq_operation_key a b \<longleftrightarrow> key_str a \<le> key_str b"

definition less_operation_key :: "operation_key \<Rightarrow> operation_key \<Rightarrow> bool" where
  "less_operation_key a b \<longleftrightarrow> key_str a < key_str b"

definition equal_operation_key :: "operation_key \<Rightarrow> operation_key \<Rightarrow> bool" where
  "equal_operation_key a b \<longleftrightarrow> key_str a = key_str b"

instance
  by standard (auto simp: less_eq_operation_key_def less_operation_key_def
    equal_operation_key_def key_str_inject [symmetric])

end

section \<open>Index identity\<close>

datatype index_identity = Index_identity (namespace: owner_namespace) (iname: index_name)

definition identity_display :: "index_identity \<Rightarrow> string" where
  "identity_display i = ns_str (namespace i) @ ''/'' @ name_str (iname i)"

instantiation index_identity :: linorder
begin

definition less_eq_index_identity :: "index_identity \<Rightarrow> index_identity \<Rightarrow> bool" where
  "less_eq_index_identity a b \<longleftrightarrow>
     namespace a < namespace b \<or> (namespace a = namespace b \<and> iname a \<le> iname b)"

definition less_index_identity :: "index_identity \<Rightarrow> index_identity \<Rightarrow> bool" where
  "less_index_identity a b \<longleftrightarrow>
     namespace a < namespace b \<or> (namespace a = namespace b \<and> iname a < iname b)"

instance
  by standard (auto simp: less_eq_index_identity_def less_index_identity_def
    intro: index_identity.expand)

end

section \<open>Index versions\<close>

text \<open>
  \<open>NonZeroU64\<close>: the numbers from 1 to \<open>2 ^ 64 - 1\<close>. The argument of \<open>version_parse\<close>
  stands for a \<open>u64\<close>, so it is below \<open>2 ^ 64\<close>.
\<close>

definition nonzero_u64 :: "nat \<Rightarrow> bool" where
  "nonzero_u64 n \<longleftrightarrow> 0 < n \<and> n < 2 ^ 64"

typedef index_version = "{n. nonzero_u64 n}"
  morphisms version_get Index_version
  by (rule exI [of _ 1]) (simp add: nonzero_u64_def)

setup_lifting type_definition_index_version

lift_definition version_first :: index_version is 1
  by (simp add: nonzero_u64_def)

lift_definition (code_dt) version_parse :: "nat \<Rightarrow> id_reason + index_version" is
  "\<lambda>n. if nonzero_u64 n then Inr n else Inl VersionsStartAtOne"
  by auto

text \<open>\<open>NonZeroU64::checked_add(1)\<close>.\<close>

lift_definition (code_dt) version_next :: "index_version \<Rightarrow> index_version option" is
  "\<lambda>n. if nonzero_u64 (Suc n) then Some (Suc n) else None"
  by auto

instantiation index_version :: "{linorder, equal}"
begin

lift_definition less_eq_index_version :: "index_version \<Rightarrow> index_version \<Rightarrow> bool" is "(\<le>)" .

lift_definition less_index_version :: "index_version \<Rightarrow> index_version \<Rightarrow> bool" is "(<)" .

lift_definition equal_index_version :: "index_version \<Rightarrow> index_version \<Rightarrow> bool" is "(=)" .

instance
  by standard (transfer; auto)+

end

lemma version_get_pos [simp]: "0 < version_get v"
  by transfer (simp add: nonzero_u64_def)

lemma version_get_bound: "version_get v < 2 ^ 64"
  by transfer (simp add: nonzero_u64_def)

lemma version_get_eq [simp]: "version_get v = version_get w \<longleftrightarrow> v = w"
  by (rule version_get_inject)

lemma version_less_iff: "v < w \<longleftrightarrow> version_get v < version_get w"
  by transfer simp

lemma version_le_iff: "v \<le> w \<longleftrightarrow> version_get v \<le> version_get w"
  by transfer simp

lemma version_get_first [simp]: "version_get version_first = 1"
  by transfer simp

lemma version_next_Some: "version_next v = Some w \<longleftrightarrow> version_get w = Suc (version_get v)"
  by transfer (auto simp: nonzero_u64_def)

lemma version_next_None: "version_next v = None \<longleftrightarrow> version_get v = 2 ^ 64 - 1"
  by transfer (auto simp: nonzero_u64_def)

lemma version_next_less: "version_next v = Some w \<Longrightarrow> v < w"
  by (simp add: version_next_Some version_less_iff)

lemma version_parse_Inr [simp]: "version_parse n = Inr v \<longleftrightarrow> version_get v = n"
  by transfer auto

lemma version_first_le [simp]: "version_first \<le> v"
  using version_get_pos [of v] by (simp add: version_le_iff del: version_get_pos)

section \<open>Operation digests\<close>

type_synonym byte = "8 word"

typedef operation_digest = "{bs :: byte list. length bs = 32}"
  morphisms digest_bytes Operation_digest
  by (rule exI [of _ "replicate 32 0"]) simp

setup_lifting type_definition_operation_digest

instantiation operation_digest :: equal
begin

definition equal_operation_digest :: "operation_digest \<Rightarrow> operation_digest \<Rightarrow> bool" where
  "equal_operation_digest d e \<longleftrightarrow> digest_bytes d = digest_bytes e"

instance
  by standard (simp add: equal_operation_digest_def digest_bytes_inject)

end

definition hex_digit :: "nat \<Rightarrow> char" where
  "hex_digit d = (if d < 10 then char_of (48 + d) else char_of (87 + d))"

definition lowercase_hex_nibble :: "char \<Rightarrow> byte option" where
  "lowercase_hex_nibble c =
     (if CHR ''0'' \<le> c \<and> c \<le> CHR ''9'' then Some (of_char c - 48)
      else if CHR ''a'' \<le> c \<and> c \<le> CHR ''f'' then Some (of_char c - 97 + 10)
      else None)"

definition byte_hex :: "byte \<Rightarrow> string" where
  "byte_hex b = [hex_digit (unat b div 16), hex_digit (unat b mod 16)]"

lift_definition digest_display :: "operation_digest \<Rightarrow> string" is
  "\<lambda>bs. concat (map byte_hex bs)" .

text \<open>The loop that fills the nibbles, refusing the first character that is not a lowercase hex digit.\<close>

fun hex_nibbles :: "nat \<Rightarrow> string \<Rightarrow> id_reason + byte list" where
  "hex_nibbles offset [] = Inr []"
| "hex_nibbles offset (c # cs) =
     (case lowercase_hex_nibble c of
        None \<Rightarrow> Inl (NotLowercaseHex (utf8_head (c # cs)) offset)
      | Some n \<Rightarrow> and_then (hex_nibbles (Suc offset) cs) (\<lambda>ns. Inr (n # ns)))"

text \<open>\<open>as_chunks::<2>()\<close> and \<open>(high << 4) | low\<close>.\<close>

fun nibble_pairs :: "byte list \<Rightarrow> byte list" where
  "nibble_pairs (h # l # ns) = (push_bit 4 h OR l) # nibble_pairs ns"
| "nibble_pairs _ = []"

definition HEX_LEN :: nat where
  "HEX_LEN = 64"

definition digest_bytes_of :: "string \<Rightarrow> id_reason + byte list" where
  "digest_bytes_of value =
     (if length value \<noteq> HEX_LEN then Inl (NotHexLength (length value) HEX_LEN)
      else and_then (hex_nibbles 0 value) (\<lambda>ns. Inr (nibble_pairs ns)))"

lemma hex_nibbles_length: "hex_nibbles off s = Inr ns \<Longrightarrow> length ns = length s"
  by (induction s arbitrary: off ns) (auto simp: res_simps split: option.splits)

lemma nibble_pairs_length: "length (nibble_pairs ns) = length ns div 2"
  by (induction ns rule: nibble_pairs.induct) auto

lift_definition (code_dt) digest_parse :: "string \<Rightarrow> id_reason + operation_digest" is
  digest_bytes_of
  by (auto simp: digest_bytes_of_def and_then_def HEX_LEN_def nibble_pairs_length
    split: sum.split dest: hex_nibbles_length)

text \<open>A nibble's digit reads back, and two nibbles make the byte.\<close>

lemma hex_nibble_digit:
  assumes "n < 16"
  shows "lowercase_hex_nibble (hex_digit n) = Some (of_nat n)"
proof -
  have "\<forall>n \<in> set [0..<16]. lowercase_hex_nibble (hex_digit n) = Some (of_nat n)"
    by code_simp
  then show ?thesis using assms by simp
qed

lemma nibble_digit_hex: "lowercase_hex_nibble c = Some n \<Longrightarrow> unat n < 16 \<and> hex_digit (unat n) = c"
proof -
  have "\<forall>c \<in> set Enum.enum. case lowercase_hex_nibble c of
      None \<Rightarrow> True | Some n \<Rightarrow> unat n < 16 \<and> hex_digit (unat n) = c"
    by code_simp
  then show "lowercase_hex_nibble c = Some n \<Longrightarrow> unat n < 16 \<and> hex_digit (unat n) = c"
    by (auto simp: enum_UNIV dest!: spec [of _ c])
qed

lemma byte_less: "unat (b :: byte) < 256"
proof -
  have "unat b < 2 ^ LENGTH(8)" by (rule unsigned_less)
  then show ?thesis by simp
qed

lemma byte_nibbles_less: "unat (b :: byte) div 16 < 16" "unat b mod 16 < 16"
  using byte_less [of b] by simp_all

lemma byte_of_nibbles: "push_bit 4 (of_nat (unat b div 16)) OR of_nat (unat b mod 16) = (b :: byte)"
proof -
  have "\<forall>n \<in> set [0..<256]. push_bit 4 (of_nat (n div 16)) OR of_nat (n mod 16) = (of_nat n :: byte)"
    by code_simp
  moreover have "unat b \<in> set [0..<256]" using byte_less [of b] by simp
  ultimately have "push_bit 4 (of_nat (unat b div 16)) OR of_nat (unat b mod 16) = (of_nat (unat b) :: byte)"
    by blast
  then show ?thesis by simp
qed

lemma nibbles_byte:
  assumes "unat h < 16" "unat l < 16"
  shows "unat (push_bit 4 h OR l :: byte) = 16 * unat h + unat l"
proof -
  have all: "\<forall>h \<in> set [0..<16]. \<forall>l \<in> set [0..<16].
      unat (push_bit 4 (of_nat h) OR of_nat l :: byte) = 16 * h + l"
    by code_simp
  have mem: "unat h \<in> set [0..<16]" "unat l \<in> set [0..<16]" using assms by simp_all
  show ?thesis using bspec [OF bspec [OF all mem(1)] mem(2)] by simp
qed

lemma byte_hex_Cons: "concat (map byte_hex (b # bs)) =
    hex_digit (unat b div 16) # hex_digit (unat b mod 16) # concat (map byte_hex bs)"
  by (simp add: byte_hex_def)

lemma byte_hex_roundtrip:
  "hex_nibbles off (concat (map byte_hex bs)) = Inr ns \<Longrightarrow> nibble_pairs ns = bs"
proof (induction bs arbitrary: off ns)
  case (Cons b bs)
  note lt = byte_nibbles_less [of b]
  from Cons.prems obtain ms where
    ns: "ns = of_nat (unat b div 16) # of_nat (unat b mod 16) # ms"
    and ms: "hex_nibbles (Suc (Suc off)) (concat (map byte_hex bs)) = Inr ms"
    unfolding byte_hex_Cons
    by (auto simp: hex_nibble_digit [OF lt(1)] hex_nibble_digit [OF lt(2)] res_simps)
  show ?case using Cons.IH [OF ms] by (simp add: ns byte_of_nibbles)
qed simp

lemma hex_nibbles_byte_hex: "\<exists>ns. hex_nibbles off (concat (map byte_hex bs)) = Inr ns"
proof (induction bs arbitrary: off)
  case (Cons b bs)
  show ?case using byte_nibbles_less [of b] Cons.IH [of "Suc (Suc off)"]
    by (auto simp: byte_hex_def hex_nibble_digit)
qed simp

lemma byte_hex_length: "length (concat (map byte_hex bs)) = 2 * length bs"
  by (induction bs) (simp_all add: byte_hex_def)

lemma hex_nibbles_display:
  "hex_nibbles off s = Inr ns \<Longrightarrow> even (length s) \<Longrightarrow> concat (map byte_hex (nibble_pairs ns)) = s"
proof (induction ns arbitrary: off s rule: nibble_pairs.induct)
  case (1 h l ns)
  from "1.prems"(1) obtain c d cs where s: "s = c # d # cs"
    and h: "lowercase_hex_nibble c = Some h" and l: "lowercase_hex_nibble d = Some l"
    and ns: "hex_nibbles (Suc (Suc off)) cs = Inr ns"
    by (cases s; cases "tl s") (auto simp: res_simps split: option.splits)
  have lt: "unat h < 16" "unat l < 16" and hd: "hex_digit (unat h) = c" "hex_digit (unat l) = d"
    using nibble_digit_hex h l by blast+
  have "unat (push_bit 4 h OR l) = 16 * unat h + unat l"
    using lt by (rule nibbles_byte)
  then have "byte_hex (push_bit 4 h OR l) = [c, d]"
    using lt hd by (simp add: byte_hex_def)
  with "1.IH" [OF ns] "1.prems"(2) show ?case by (simp add: s)
qed (auto dest!: hex_nibbles_length)

text \<open>Display and parse are inverse: one text per digest, and one digest per accepted text.\<close>

lemma digest_parse_display: "digest_parse (digest_display d) = Inr d"
proof (transfer)
  fix bs :: "byte list"
  assume "length bs = 32"
  moreover obtain ns where ns: "hex_nibbles 0 (concat (map byte_hex bs)) = Inr ns"
    using hex_nibbles_byte_hex by blast
  ultimately show "digest_bytes_of (concat (map byte_hex bs)) = Inr bs"
    using byte_hex_roundtrip [OF ns] by (simp add: digest_bytes_of_def HEX_LEN_def byte_hex_length)
qed

lemma digest_display_parse: "digest_parse s = Inr d \<Longrightarrow> digest_display d = s"
  by transfer (auto simp: digest_bytes_of_def HEX_LEN_def res_simps hex_nibbles_display split: if_splits)

record operation_identity =
  op_key :: operation_key
  op_digest :: operation_digest

section \<open>Properties\<close>

text \<open>
  A digest's text is exactly its canonical form: parsing accepts a text if and only if it
  is the lowercase hex text of the digest it returns.
\<close>

theorem digest_text_canonical: "digest_parse s = Inr d \<longleftrightarrow> s = digest_display d"
  using digest_parse_display digest_display_parse by blast

end
