(* ===== verification/Errors.thy ===== *)
theory Errors
  imports Identity
begin

text \<open>
  \<open>HeuremaError\<close> and its categories (\<open>crates/heurema/src/error.rs\<close>), with the small
  enumerations its variants carry (\<open>SnapshotFamily\<close>, \<open>IndexStateKind\<close>,
  \<open>LifecycleTransition\<close>), and the \<open>TryFrom\<close> constructors of the identifiers, whose
  refusals are errors. Source locations are not modelled, and a boxed error source is the
  data its text is formatted from.
\<close>

section \<open>Enumerations the errors carry\<close>

datatype snapshot_family = FamVector | FamFts

datatype index_state_kind = KAbsent | KActive | KDestroyed

datatype lifecycle_transition =
    TrCreate | TrInsert | TrRemove | TrRebuild | TrPublish | TrRecover | TrDestroy

section \<open>Errors\<close>

text \<open>Why a decoded record was refused (\<open>InconsistentRecord\<close>).\<close>

datatype corrupt_reason =
    EngineOtherConfiguration
  | EngineMembersDiffer
  | PredecessorNotBefore
  | EntryNamesLaterVersion
  | HeadNamesIndex index_identity index_identity
  | PayloadIs index_version index_identity index_version index_identity
  | RecordIs operation_key index_identity operation_key index_identity
  | PayloadMissing index_identity index_version
  | ConfigurationsDiffer index_identity index_version
  | RankedUnknownMember index_version index_identity

datatype adapter = AtmisAdapter | ThesaurosAdapter

record operation_conflict_detail =
  oc_index :: index_identity
  oc_key :: operation_key
  oc_recorded :: operation_digest
  oc_requested :: operation_digest

text \<open>Why a stored key was refused; the reason can be the refusal of an identifier in it, an error again.\<close>

datatype 'e key_reason =
    KeyShape string
  | KeyNotUtf8
  | KeyNotDecimal string
  | KeyOverflow string
  | KeyRefused 'e

datatype 'e persistence_source =
    SerdeError string
  | FjallError string
  | LifecycleStatePoisoned
  | CommitLockPoisoned
  | QuarantineSequenceExhausted adapter
  | OversizedValue string nat nat
  | UnpairedQuarantineEntry nat string
  | MalformedKey string "'e key_reason"
  | UndecodableRecord string string
  | InconsistentRecord corrupt_reason

datatype heurema_error =
    DimensionMismatch nat nat
  | InvalidVector string
  | DistanceNotRepresentable "64 word"
  | InvalidHnswConfig string
  | SnapshotFormat snapshot_family snapshot_family
  | UnsupportedSnapshotVersion nat nat
  | CorruptSnapshot "heurema_error persistence_source"
  | InvalidKConstant "32 word"
  | IndexNotFound string
  | Persistence "heurema_error persistence_source"
  | NotYetImplemented string
  | InvalidIdentifier identifier_kind string id_reason
  | FamilyMismatch snapshot_family snapshot_family
  | DuplicateMember string
  | EmptyBatch lifecycle_transition
  | TransitionNotPermitted index_identity lifecycle_transition index_state_kind
  | RecordMismatch index_identity index_identity
  | UnencodableOperation string
  | StagedStateExists index_identity index_version
  | HeadChanged index_identity
  | OperationConflict operation_conflict_detail
  | StagedStateMissing index_identity index_version
  | OperationRecorded index_identity operation_key
  | WriterHeld
  | VersionStored index_identity index_version

datatype error_category =
    CatRefused | CatNotFound | CatUnsupported | CatCorrupt | CatStorage | CatConflict
  | CatRecoveryRequired

fun category :: "heurema_error \<Rightarrow> error_category" where
  "category (DimensionMismatch _ _) = CatRefused"
| "category (InvalidVector _) = CatRefused"
| "category (DistanceNotRepresentable _) = CatRefused"
| "category (InvalidHnswConfig _) = CatRefused"
| "category (InvalidKConstant _) = CatRefused"
| "category (InvalidIdentifier _ _ _) = CatRefused"
| "category (FamilyMismatch _ _) = CatRefused"
| "category (DuplicateMember _) = CatRefused"
| "category (EmptyBatch _) = CatRefused"
| "category (TransitionNotPermitted _ _ _) = CatRefused"
| "category (RecordMismatch _ _) = CatRefused"
| "category (UnencodableOperation _) = CatRefused"
| "category WriterHeld = CatRefused"
| "category (IndexNotFound _) = CatNotFound"
| "category (NotYetImplemented _) = CatUnsupported"
| "category (UnsupportedSnapshotVersion _ _) = CatUnsupported"
| "category (SnapshotFormat _ _) = CatCorrupt"
| "category (CorruptSnapshot _) = CatCorrupt"
| "category (VersionStored _ _) = CatCorrupt"
| "category (Persistence _) = CatStorage"
| "category (HeadChanged _) = CatConflict"
| "category (OperationConflict _) = CatConflict"
| "category (StagedStateMissing _ _) = CatConflict"
| "category (OperationRecorded _ _) = CatConflict"
| "category (StagedStateExists _ _) = CatRecoveryRequired"

text \<open>
  How a call can fail: with an error value, or by a panic (an index out of bounds, an
  arithmetic overflow under debug assertions). A panic is not a \<open>HeuremaError\<close>.
\<close>

datatype failure = Err heurema_error | Panic

type_synonym 'a res = "failure + 'a"

abbreviation fail :: "heurema_error \<Rightarrow> 'a res" where
  "fail e \<equiv> Inl (Err e)"

text \<open>A panic-or-value computation (\<open>option\<close>) as a result.\<close>

definition or_panic :: "'a option \<Rightarrow> 'a res" where
  "or_panic x = (case x of None \<Rightarrow> Inl Panic | Some a \<Rightarrow> Inr a)"

lemma or_panic_simps [simp, res_simps]:
  "or_panic None = Inl Panic" "or_panic (Some a) = Inr a"
  "or_panic x = Inr a \<longleftrightarrow> x = Some a"
  by (auto simp: or_panic_def split: option.splits)

section \<open>Identifier constructors\<close>

definition refusal :: "identifier_kind \<Rightarrow> string \<Rightarrow> id_reason \<Rightarrow> heurema_error" where
  "refusal kind value reason = InvalidIdentifier kind (reported value) reason"

definition grammar_check :: "grammar \<Rightarrow> string \<Rightarrow> heurema_error + unit" where
  "grammar_check g value =
     (case grammar_reason g value of
        Some r \<Rightarrow> Inl (refusal (g_kind g) value r)
      | None \<Rightarrow> Inr ())"

definition owner_namespace_try_from :: "string \<Rightarrow> heurema_error + owner_namespace" where
  "owner_namespace_try_from s = map_err (refusal IkOwnerNamespace s) (owner_namespace_parse s)"

definition index_name_try_from :: "string \<Rightarrow> heurema_error + index_name" where
  "index_name_try_from s = map_err (refusal IkIndexName s) (index_name_parse s)"

definition operation_key_try_from :: "string \<Rightarrow> heurema_error + operation_key" where
  "operation_key_try_from s = map_err (refusal IkOperationKey s) (operation_key_parse s)"

definition version_try_from :: "nat \<Rightarrow> heurema_error + index_version" where
  "version_try_from n = map_err (refusal IkIndexVersion ''0'') (version_parse n)"

definition version_successor :: "index_version \<Rightarrow> heurema_error + index_version" where
  "version_successor v =
     (case version_next v of
        Some next \<Rightarrow> Inr next
      | None \<Rightarrow> Inl (refusal IkIndexVersion (show_nat (version_get v)) CounterExhausted))"

definition digest_try_from :: "string \<Rightarrow> heurema_error + operation_digest" where
  "digest_try_from s = map_err (refusal IkOperationDigest s) (digest_parse s)"

lemma owner_namespace_try_from_Inr [simp]: "owner_namespace_try_from s = Inr n \<longleftrightarrow> ns_str n = s"
  by (simp add: owner_namespace_try_from_def)

lemma index_name_try_from_Inr [simp]: "index_name_try_from s = Inr n \<longleftrightarrow> name_str n = s"
  by (simp add: index_name_try_from_def)

lemma operation_key_try_from_Inr [simp]: "operation_key_try_from s = Inr k \<longleftrightarrow> key_str k = s"
  by (simp add: operation_key_try_from_def)

lemma version_try_from_Inr [simp]: "version_try_from n = Inr v \<longleftrightarrow> version_get v = n"
  by (simp add: version_try_from_def)

lemma version_successor_Inr: "version_successor v = Inr w \<longleftrightarrow> version_get w = Suc (version_get v)"
proof (cases "version_next v")
  case None
  then show ?thesis
    by (metis Inl_Inr_False option.distinct(1) option.simps(4) version_next_Some version_successor_def)
next
  case (Some u)
  then have "version_get u = Suc (version_get v)" by (simp add: version_next_Some)
  with Some show ?thesis by (simp add: version_successor_def) (metis version_get_eq)
qed

end
