(* ===== verification/Storage_Key.thy ===== *)
theory Storage_Key
  imports Errors
begin

text \<open>
  The key grammar shared by the adapters (\<open>crates/heurema/src/lifecycle/backend.rs\<close>,
  module \<open>storage_key\<close>): rendering, parsing, and the facts adapters rely on. Every key
  that parses is the key its parts render to, an index's keys are exactly those that extend
  its prefix, and version and quarantine keys sort in numeric order.
\<close>

section \<open>Text helpers of the standard library\<close>

text \<open>\<open>str::split\<close> on one separator.\<close>

fun split_on :: "char \<Rightarrow> string \<Rightarrow> string list" where
  "split_on sep [] = [[]]"
| "split_on sep (c # cs) =
     (if c = sep then [] # split_on sep cs
      else (case split_on sep cs of [] \<Rightarrow> [[c]] | p # ps \<Rightarrow> (c # p) # ps))"

text \<open>\<open>std::str::from_utf8\<close>: the well-formed byte sequences.\<close>

definition byte_in :: "char \<Rightarrow> nat \<Rightarrow> nat \<Rightarrow> bool" where
  "byte_in c lo hi \<longleftrightarrow> lo \<le> (of_char c :: nat) \<and> (of_char c :: nat) \<le> hi"

fun utf8_valid :: "string \<Rightarrow> bool" where
  "utf8_valid [] = True"
| "utf8_valid (a # s) =
     (if byte_in a 0 127 then utf8_valid s
      else case s of
        [] \<Rightarrow> False
      | b # s2 \<Rightarrow>
          if byte_in a 194 223 then utf8_continues b \<and> utf8_valid s2
          else case s2 of
            [] \<Rightarrow> False
          | c # s3 \<Rightarrow>
              if byte_in a 224 239
              then (if a = char_of (224 :: nat) then byte_in b 160 191
                    else if a = char_of (237 :: nat) then byte_in b 128 159
                    else utf8_continues b)
                   \<and> utf8_continues c \<and> utf8_valid s3
              else case s3 of
                [] \<Rightarrow> False
              | d # s4 \<Rightarrow>
                  byte_in a 240 244
                  \<and> (if a = char_of (240 :: nat) then byte_in b 144 191
                     else if a = char_of (244 :: nat) then byte_in b 128 143
                     else utf8_continues b)
                  \<and> utf8_continues c \<and> utf8_continues d \<and> utf8_valid s4)"

text \<open>The number a string of ASCII digits writes.\<close>

definition digit_value :: "char \<Rightarrow> nat" where
  "digit_value c = of_char c - 48"

definition dec_value :: "string \<Rightarrow> nat" where
  "dec_value s = foldl (\<lambda>n c. 10 * n + digit_value c) 0 s"

section \<open>Keys\<close>

definition DECIMAL_WIDTH :: nat where
  "DECIMAL_WIDTH = 20"

definition SEPARATOR :: char where
  "SEPARATOR = CHR ''/''"

datatype quarantine_part = Marker | Payload

fun part_str :: "quarantine_part \<Rightarrow> string" where
  "part_str Marker = ''marker''"
| "part_str Payload = ''payload''"

text \<open>The format \<open>{n:020}\<close>: left-padded with zeros.\<close>

definition pad_decimal :: "nat \<Rightarrow> string" where
  "pad_decimal n = (let s = show_nat n in replicate (DECIMAL_WIDTH - length s) (CHR ''0'') @ s)"

definition head_key :: "index_identity \<Rightarrow> string" where
  "head_key i = ns_str (namespace i) @ [SEPARATOR] @ name_str (iname i)"

definition index_prefix :: "index_identity \<Rightarrow> string" where
  "index_prefix i = head_key i @ [SEPARATOR]"

definition version_key :: "index_identity \<Rightarrow> index_version \<Rightarrow> string" where
  "version_key i v = index_prefix i @ pad_decimal (version_get v)"

definition staging_key :: "index_identity \<Rightarrow> index_version \<Rightarrow> string" where
  "staging_key i v = version_key i v"

definition operation_storage_key :: "index_identity \<Rightarrow> operation_key \<Rightarrow> string" where
  "operation_storage_key i k = index_prefix i @ key_str k"

definition quarantine_key :: "nat \<Rightarrow> index_identity \<Rightarrow> index_version \<Rightarrow> quarantine_part \<Rightarrow> string" where
  "quarantine_key sequence i v part =
     pad_decimal sequence @ [SEPARATOR] @ version_key i v @ [SEPARATOR] @ part_str part"

section \<open>Parsing\<close>

definition malformed :: "string \<Rightarrow> heurema_error key_reason \<Rightarrow> heurema_error" where
  "malformed key reason = CorruptSnapshot (MalformedKey key reason)"

definition split_key :: "string \<Rightarrow> heurema_error + string list" where
  "split_key key = (if utf8_valid key then Inr (split_on SEPARATOR key)
                    else Inl (malformed key KeyNotUtf8))"

definition checked :: "string \<Rightarrow> heurema_error + 'a \<Rightarrow> heurema_error + 'a" where
  "checked key parsed =
     (case parsed of
        Inr value \<Rightarrow> Inr value
      | Inl refused \<Rightarrow> Inl (malformed key (KeyRefused refused)))"

definition key_identity :: "string \<Rightarrow> string \<Rightarrow> string \<Rightarrow> heurema_error + index_identity" where
  "key_identity key ns name =
     and_then (checked key (owner_namespace_try_from ns)) (\<lambda>n.
     and_then (checked key (index_name_try_from name)) (\<lambda>m.
     Inr (Index_identity n m)))"

definition key_decimal :: "string \<Rightarrow> string \<Rightarrow> heurema_error + nat" where
  "key_decimal key digits =
     (if length digits \<noteq> DECIMAL_WIDTH \<or> \<not> list_all is_ascii_digit digits
      then Inl (malformed key (KeyNotDecimal digits))
      else if dec_value digits < 2 ^ 64 then Inr (dec_value digits)
      else Inl (malformed key (KeyOverflow digits)))"

definition key_version :: "string \<Rightarrow> string \<Rightarrow> heurema_error + index_version" where
  "key_version key digits =
     and_then (key_decimal key digits) (\<lambda>n. checked key (version_try_from n))"

definition parse_head :: "string \<Rightarrow> heurema_error + index_identity" where
  "parse_head key =
     and_then (split_key key) (\<lambda>parts.
     case parts of
       [ns, name] \<Rightarrow> key_identity key ns name
     | _ \<Rightarrow> Inl (malformed key (KeyShape ''expected namespace/name'')))"

definition parse_version :: "string \<Rightarrow> heurema_error + (index_identity \<times> index_version)" where
  "parse_version key =
     and_then (split_key key) (\<lambda>parts.
     case parts of
       [ns, name, version] \<Rightarrow>
         and_then (key_identity key ns name) (\<lambda>i.
         and_then (key_version key version) (\<lambda>v. Inr (i, v)))
     | _ \<Rightarrow> Inl (malformed key (KeyShape ''expected namespace/name/version'')))"

definition parse_staging :: "string \<Rightarrow> heurema_error + (index_identity \<times> index_version)" where
  "parse_staging key = parse_version key"

definition parse_operation :: "string \<Rightarrow> heurema_error + (index_identity \<times> operation_key)" where
  "parse_operation key =
     and_then (split_key key) (\<lambda>parts.
     case parts of
       [ns, name, operation] \<Rightarrow>
         and_then (key_identity key ns name) (\<lambda>i.
         and_then (checked key (operation_key_try_from operation)) (\<lambda>k. Inr (i, k)))
     | _ \<Rightarrow> Inl (malformed key (KeyShape ''expected namespace/name/operation-key'')))"

definition parse_quarantine ::
    "string \<Rightarrow> heurema_error + (nat \<times> index_identity \<times> index_version \<times> quarantine_part)" where
  "parse_quarantine key =
     and_then (split_key key) (\<lambda>parts.
     case parts of
       [sequence, ns, name, version, part] \<Rightarrow>
         and_then (if part = part_str Marker then Inr Marker
                   else if part = part_str Payload then Inr Payload
                   else Inl (malformed key (KeyShape ''part is neither marker nor payload''))) (\<lambda>p.
         and_then (key_decimal key sequence) (\<lambda>n.
         and_then (key_identity key ns name) (\<lambda>i.
         and_then (key_version key version) (\<lambda>v. Inr (n, i, v, p)))))
     | _ \<Rightarrow> Inl (malformed key (KeyShape ''expected sequence/namespace/name/version/part'')))"

section \<open>Splitting\<close>

lemma split_on_ne [simp]: "split_on sep s \<noteq> []"
  by (induction s) (auto split: list.split)

lemma split_on_one [simp]: "sep \<notin> set a \<Longrightarrow> split_on sep a = [a]"
  by (induction a) auto

lemma split_on_append [simp]:
  "sep \<notin> set a \<Longrightarrow> split_on sep (a @ sep # b) = a # split_on sep b"
  by (induction a) auto

lemma split_on_Cons_sep [simp]: "split_on sep (sep # b) = [] # split_on sep b"
  by simp

text \<open>Joining the parts gives the text back, so the parts determine the key.\<close>

fun join_on :: "char \<Rightarrow> string list \<Rightarrow> string" where
  "join_on sep [] = []"
| "join_on sep [p] = p"
| "join_on sep (p # q # ps) = p @ sep # join_on sep (q # ps)"

lemma join_split: "join_on sep (split_on sep s) = s"
proof (induction s)
  case (Cons c s)
  obtain p ps where "split_on sep s = p # ps" by (meson list.exhaust split_on_ne)
  with Cons show ?case by (cases ps) auto
qed simp

section \<open>Decimals\<close>

lemma digit_char_value [simp]: "d < 10 \<Longrightarrow> digit_value (digit_char d) = d"
  by (simp add: digit_value_def digit_char_def)

lemma digit_char_digit [simp]: "d < 10 \<Longrightarrow> is_ascii_digit (digit_char d)"
  by (simp add: digit_char_def is_ascii_digit_def less_eq_char_def)

lemma ascii_digit_iff: "is_ascii_digit c \<longleftrightarrow> 48 \<le> (of_char c :: nat) \<and> (of_char c :: nat) \<le> 57"
  by (simp add: is_ascii_digit_def less_eq_char_def)

lemma digit_value_less [simp]: "is_ascii_digit c \<Longrightarrow> digit_value c < 10"
  by (auto simp: ascii_digit_iff digit_value_def)

lemma digit_less_iff:
  "is_ascii_digit c \<Longrightarrow> is_ascii_digit d \<Longrightarrow> c < d \<longleftrightarrow> digit_value c < digit_value d"
  by (auto simp: ascii_digit_iff digit_value_def less_char_def)

lemma digit_value_inject:
  "is_ascii_digit c \<Longrightarrow> is_ascii_digit d \<Longrightarrow> digit_value c = digit_value d \<Longrightarrow> c = d"
  by (metis digit_less_iff less_irrefl linorder_neqE)

lemma dec_value_snoc: "dec_value (s @ [c]) = 10 * dec_value s + digit_value c"
  by (simp add: dec_value_def)

lemma dec_value_Cons: "dec_value (c # s) = digit_value c * 10 ^ length s + dec_value s"
proof (induction s rule: rev_induct)
  case Nil
  then show ?case by (simp add: dec_value_def)
next
  case (snoc d s)
  then show ?case using dec_value_snoc [of "c # s" d] by (simp add: dec_value_snoc)
qed

lemma dec_value_bound: "list_all is_ascii_digit s \<Longrightarrow> dec_value s < 10 ^ length s"
proof (induction s)
  case Nil
  then show ?case by (simp add: dec_value_def)
next
  case (Cons c s)
  then have c: "digit_value c \<le> 9" and s: "dec_value s < 10 ^ length s"
    using digit_value_less [of c] by (simp_all, linarith)
  have "dec_value (c # s) < digit_value c * 10 ^ length s + 10 ^ length s"
    using s by (simp add: dec_value_Cons)
  also have "\<dots> = (digit_value c + 1) * 10 ^ length s" by simp
  also have "\<dots> \<le> 10 * 10 ^ length s" using c by (intro mult_right_mono) auto
  finally show ?case by simp
qed

lemma dec_value_less_iff:
  assumes "length s = length t" "list_all is_ascii_digit s" "list_all is_ascii_digit t"
  shows "s < t \<longleftrightarrow> dec_value s < dec_value t"
  using assms
proof (induction s t rule: list_induct2)
  case (Cons c s d t)
  then have dc: "is_ascii_digit c" "is_ascii_digit d" by simp_all
  have b: "dec_value s < 10 ^ length t" "dec_value t < 10 ^ length t"
    using Cons dec_value_bound [of s] dec_value_bound [of t] by simp_all
  have step: "dec_value (c # s) < dec_value (d # t)" if "digit_value c < digit_value d"
      "length s = length t" "dec_value s < 10 ^ length t" for c d s t
  proof -
    have "dec_value (c # s) < (digit_value c + 1) * 10 ^ length t"
      using that by (simp add: dec_value_Cons)
    also have "\<dots> \<le> digit_value d * 10 ^ length t" using that by (intro mult_right_mono) auto
    finally show ?thesis by (simp add: dec_value_Cons)
  qed
  consider "digit_value c < digit_value d" | "digit_value d < digit_value c" | "c = d"
    using dc digit_value_inject linorder_neqE_nat by blast
  then show ?case
  proof cases
    case 1
    then show ?thesis using step [OF 1] Cons.hyps b dc by (simp add: digit_less_iff)
  next
    case 2
    then have "dec_value (d # t) < dec_value (c # s)"
      using step [OF 2, of t s] Cons.hyps b by simp
    with 2 show ?thesis using dc by (auto simp: digit_less_iff)
  next
    case 3
    then show ?thesis using Cons by (simp add: dec_value_Cons)
  qed
qed simp

lemma dec_value_inject:
  assumes "length s = length t" "list_all is_ascii_digit s" "list_all is_ascii_digit t"
    and "dec_value s = dec_value t"
  shows "s = t"
  using assms dec_value_less_iff less_irrefl linorder_neqE by metis

lemma show_nat_digits: "list_all is_ascii_digit (show_nat n)"
  by (induction n rule: show_nat.induct) (subst show_nat.simps, simp)

lemma dec_value_show_nat: "dec_value (show_nat n) = n"
proof (induction n rule: show_nat.induct)
  case (1 n)
  show ?case
  proof (cases "n < 10")
    case True
    then show ?thesis by (subst show_nat.simps) (simp add: dec_value_def)
  next
    case False
    with 1 show ?thesis by (subst show_nat.simps) (simp add: dec_value_snoc)
  qed
qed

lemma show_nat_length: "n < 10 ^ k \<Longrightarrow> 0 < k \<Longrightarrow> length (show_nat n) \<le> k"
proof (induction n arbitrary: k rule: show_nat.induct)
  case (1 n)
  show ?case
  proof (cases "n < 10")
    case True
    with 1 show ?thesis by (subst show_nat.simps) simp
  next
    case False
    with 1 obtain m where k: "k = Suc m" "0 < m"
      by (metis gr0_conv_Suc power_one_right not_gr0 One_nat_def)
    with 1 False have "length (show_nat (n div 10)) \<le> m" by (auto simp: less_mult_imp_div_less)
    with False k show ?thesis by (subst show_nat.simps) simp
  qed
qed

lemma u64_less: "n < 2 ^ 64 \<Longrightarrow> n < (10 :: nat) ^ 20"
  by simp

lemma dec_value_zeros: "dec_value (replicate k (CHR ''0'') @ s) = dec_value s"
  by (induction k) (simp_all add: dec_value_Cons digit_value_def)

lemma pad_decimal_length: "n < 2 ^ 64 \<Longrightarrow> length (pad_decimal n) = DECIMAL_WIDTH"
  using show_nat_length [of n 20] u64_less [of n] by (simp add: pad_decimal_def DECIMAL_WIDTH_def Let_def)

lemma pad_decimal_digits: "list_all is_ascii_digit (pad_decimal n)"
  using show_nat_digits [of n] by (auto simp: pad_decimal_def Let_def list_all_iff is_ascii_digit_def)

lemma pad_decimal_value: "dec_value (pad_decimal n) = n"
  by (simp add: pad_decimal_def Let_def dec_value_zeros dec_value_show_nat)

lemma pad_decimal_less_iff:
  "m < 2 ^ 64 \<Longrightarrow> n < 2 ^ 64 \<Longrightarrow> pad_decimal m < pad_decimal n \<longleftrightarrow> m < n"
  using dec_value_less_iff [of "pad_decimal m" "pad_decimal n"]
  by (simp add: pad_decimal_length pad_decimal_digits pad_decimal_value)

lemma pad_decimal_no_separator [simp]: "CHR ''/'' \<notin> set (pad_decimal n)"
proof
  assume "CHR ''/'' \<in> set (pad_decimal n)"
  then have "is_ascii_digit (CHR ''/'')" using pad_decimal_digits [of n] by (simp add: list_all_iff)
  then show False by (simp add: ascii_digit_iff)
qed

lemma pad_decimal_canonical:
  "length s = DECIMAL_WIDTH \<Longrightarrow> list_all is_ascii_digit s \<Longrightarrow> dec_value s < 2 ^ 64 \<Longrightarrow>
     pad_decimal (dec_value s) = s"
  by (rule dec_value_inject) (simp_all add: pad_decimal_length pad_decimal_digits pad_decimal_value)

section \<open>Keys render and parse back\<close>

lemma ascii_utf8_valid: "(\<And>c. c \<in> set s \<Longrightarrow> byte_in c 0 127) \<Longrightarrow> utf8_valid s"
  by (induction s) auto

lemma follows_ascii: "follows g c \<Longrightarrow> byte_in c 0 127"
  by (auto simp: follows_def leads_def byte_in_def is_ascii_def is_ascii_digit_def
    is_ascii_lowercase_def is_ascii_uppercase_def less_eq_char_def)

lemma id_ascii [simp]:
  "c \<in> set (ns_str n) \<Longrightarrow> byte_in c 0 127"
  "c \<in> set (name_str m) \<Longrightarrow> byte_in c 0 127"
  "c \<in> set (key_str k) \<Longrightarrow> byte_in c 0 127"
  by (blast intro: follows_ascii grammar_chars ns_str_accepted name_str_accepted key_str_accepted)+

lemma pad_ascii [simp]: "c \<in> set (pad_decimal n) \<Longrightarrow> byte_in c 0 127"
  using pad_decimal_digits [of n] by (auto simp: list_all_iff ascii_digit_iff byte_in_def)

lemma separator_ascii [simp]: "byte_in SEPARATOR 0 127"
  by (simp add: byte_in_def SEPARATOR_def)

lemma part_ascii [simp]: "c \<in> set (part_str p) \<Longrightarrow> byte_in c 0 127"
  by (cases p) (auto simp: byte_in_def)

lemma part_no_separator [simp]: "CHR ''/'' \<notin> set (part_str p)"
  by (cases p) auto

lemmas key_defs = head_key_def index_prefix_def version_key_def staging_key_def
  operation_storage_key_def quarantine_key_def SEPARATOR_def

lemma split_head: "split_key (head_key i) = Inr [ns_str (namespace i), name_str (iname i)]"
proof -
  have "utf8_valid (head_key i)"
    by (rule ascii_utf8_valid) (auto simp: head_key_def)
  then show ?thesis by (simp add: split_key_def key_defs)
qed

lemma split_version:
  "split_key (version_key i v) = Inr [ns_str (namespace i), name_str (iname i), pad_decimal (version_get v)]"
proof -
  have "utf8_valid (version_key i v)"
    by (rule ascii_utf8_valid) (auto simp: head_key_def index_prefix_def version_key_def)
  then show ?thesis by (simp add: split_key_def key_defs)
qed

lemma split_operation:
  "split_key (operation_storage_key i k) = Inr [ns_str (namespace i), name_str (iname i), key_str k]"
proof -
  have "utf8_valid (operation_storage_key i k)"
    by (rule ascii_utf8_valid) (auto simp: head_key_def index_prefix_def operation_storage_key_def)
  then show ?thesis by (simp add: split_key_def key_defs)
qed

lemma split_quarantine:
  "split_key (quarantine_key n i v p) =
     Inr [pad_decimal n, ns_str (namespace i), name_str (iname i), pad_decimal (version_get v), part_str p]"
proof -
  have "utf8_valid (quarantine_key n i v p)"
    by (rule ascii_utf8_valid) (auto simp: head_key_def index_prefix_def version_key_def quarantine_key_def)
  then show ?thesis by (simp add: split_key_def key_defs)
qed

lemma checked_Inr [simp]: "checked key r = Inr x \<longleftrightarrow> r = Inr x"
  by (auto simp: checked_def split: sum.splits heurema_error.splits)

lemma key_identity_Inr:
  "key_identity key ns name = Inr i \<longleftrightarrow> ns_str (namespace i) = ns \<and> name_str (iname i) = name"
  by (cases i) (auto simp: key_identity_def res_simps)

lemma key_decimal_Inr:
  "key_decimal key ds = Inr n \<longleftrightarrow> n < 2 ^ 64 \<and> ds = pad_decimal n"
  by (auto simp: key_decimal_def pad_decimal_length pad_decimal_digits pad_decimal_value
    pad_decimal_canonical)

lemma key_version_Inr:
  "key_version key ds = Inr v \<longleftrightarrow> ds = pad_decimal (version_get v)"
  using version_get_bound [of v] by (auto simp: key_version_def res_simps key_decimal_Inr)

lemma split_key_join: "split_key key = Inr parts \<Longrightarrow> key = join_on SEPARATOR parts"
  by (auto simp: split_key_def join_split split: if_splits)

text \<open>Each parser accepts exactly the keys its renderer writes.\<close>

lemma parse_head_iff: "parse_head key = Inr i \<longleftrightarrow> key = head_key i"
proof
  assume "parse_head key = Inr i"
  then have "split_key key = Inr [ns_str (namespace i), name_str (iname i)]"
    by (auto simp: parse_head_def and_then_def key_identity_Inr key_version_Inr key_decimal_Inr
      split: sum.splits list.splits if_splits)
  then show "key = head_key i" using split_key_join by (fastforce simp: key_defs)
next
  assume "key = head_key i"
  then show "parse_head key = Inr i" by (simp add: parse_head_def split_head key_identity_Inr)
qed

lemma parse_version_iff: "parse_version key = Inr (i, v) \<longleftrightarrow> key = version_key i v"
proof
  assume "parse_version key = Inr (i, v)"
  then have "split_key key = Inr [ns_str (namespace i), name_str (iname i), pad_decimal (version_get v)]"
    by (auto simp: parse_version_def and_then_def key_identity_Inr key_version_Inr key_decimal_Inr
      split: sum.splits list.splits if_splits)
  then show "key = version_key i v" using split_key_join by (fastforce simp: key_defs)
next
  assume "key = version_key i v"
  then show "parse_version key = Inr (i, v)"
    by (simp add: parse_version_def split_version key_identity_Inr key_version_Inr res_simps)
qed

lemma parse_operation_iff: "parse_operation key = Inr (i, k) \<longleftrightarrow> key = operation_storage_key i k"
proof
  assume "parse_operation key = Inr (i, k)"
  then have "split_key key = Inr [ns_str (namespace i), name_str (iname i), key_str k]"
    by (auto simp: parse_operation_def and_then_def key_identity_Inr key_version_Inr key_decimal_Inr
      split: sum.splits list.splits if_splits)
  then show "key = operation_storage_key i k" using split_key_join by (fastforce simp: key_defs)
next
  assume "key = operation_storage_key i k"
  then show "parse_operation key = Inr (i, k)"
    by (simp add: parse_operation_def split_operation key_identity_Inr res_simps)
qed

lemma parse_quarantine_iff:
  "parse_quarantine key = Inr (n, i, v, p) \<longleftrightarrow> n < 2 ^ 64 \<and> key = quarantine_key n i v p"
proof
  assume "parse_quarantine key = Inr (n, i, v, p)"
  then have "split_key key = Inr [pad_decimal n, ns_str (namespace i), name_str (iname i), pad_decimal (version_get v), part_str p]" and "n < 2 ^ 64"
    by (auto simp: parse_quarantine_def and_then_def key_identity_Inr key_version_Inr key_decimal_Inr
      split: sum.splits list.splits if_splits)
  then show "n < 2 ^ 64 \<and> key = quarantine_key n i v p" using split_key_join by (fastforce simp: key_defs)
next
  assume "n < 2 ^ 64 \<and> key = quarantine_key n i v p"
  then show "parse_quarantine key = Inr (n, i, v, p)"
    by (cases p) (simp_all add: parse_quarantine_def split_quarantine key_identity_Inr key_version_Inr
      key_decimal_Inr res_simps)
qed

text \<open>Hence rendering is injective.\<close>

lemma head_key_inject [simp]: "head_key i = head_key j \<longleftrightarrow> i = j"
  by (metis parse_head_iff sum.inject(2))

lemma version_key_inject [simp]: "version_key i v = version_key j w \<longleftrightarrow> i = j \<and> v = w"
  by (metis parse_version_iff prod.inject sum.inject(2))

lemma operation_storage_key_inject [simp]:
  "operation_storage_key i k = operation_storage_key j l \<longleftrightarrow> i = j \<and> k = l"
  by (metis parse_operation_iff prod.inject sum.inject(2))

section \<open>Prefixes and order\<close>

lemma prefix_separator:
  "c \<notin> set a \<Longrightarrow> c \<notin> set a' \<Longrightarrow> prefix (a @ c # b) (a' @ c # b') \<longleftrightarrow> a = a' \<and> prefix b b'"
proof (induction a arbitrary: a')
  case Nil
  then show ?case by (cases a') auto
next
  case (Cons x a)
  then show ?case by (cases a') auto
qed

lemma index_prefix_prefix:
  "CHR ''/'' \<notin> set s \<Longrightarrow> prefix (index_prefix i) (index_prefix j @ s) \<longleftrightarrow> i = j"
  by (cases i; cases j) (auto simp: index_prefix_def head_key_def SEPARATOR_def prefix_separator
    ns_str_inject name_str_inject)

lemma version_key_prefix [simp]: "prefix (index_prefix i) (version_key j v) \<longleftrightarrow> i = j"
  by (simp add: version_key_def index_prefix_prefix)

lemma operation_key_prefix [simp]: "prefix (index_prefix i) (operation_storage_key j k) \<longleftrightarrow> i = j"
  by (simp add: operation_storage_key_def index_prefix_prefix)

lemma version_key_less_iff: "version_key i v < version_key i w \<longleftrightarrow> v < w"
  using version_get_bound [of v] version_get_bound [of w]
  by (simp add: version_key_def append_less_iff pad_decimal_less_iff version_less_iff)

lemma operation_key_less_iff: "operation_storage_key i k < operation_storage_key i l \<longleftrightarrow> k < l"
  by (simp add: operation_storage_key_def append_less_iff less_operation_key_def)

lemma less_same_length_append:
  "length (a :: 'a::linorder list) = length b \<Longrightarrow> a < b \<Longrightarrow> a @ s < b @ t"
  by (induction a b rule: list_induct2) auto

text \<open>Quarantine keys sort by sequence, and a marker sorts before its payload.\<close>

lemma quarantine_key_less:
  assumes "m < 2 ^ 64" "n < 2 ^ 64" "m < n"
  shows "quarantine_key m i v p < quarantine_key n j w q"
  unfolding quarantine_key_def
  using assms by (intro less_same_length_append) (simp_all add: pad_decimal_length pad_decimal_less_iff)

lemma quarantine_marker_less: "quarantine_key n i v Marker < quarantine_key n i v Payload"
  by (simp add: quarantine_key_def append_less_iff less_char_def)

section \<open>Properties\<close>

text \<open>
  C37: each storage-key parser accepts exactly the text its renderer writes for the value it
  returns, so a stored key has one reading and no other spelling of it is accepted (a version
  without its padding, extra separators, bytes outside the grammars).
\<close>

theorem storage_keys_canonical:
  "(parse_head key = Inr i \<longleftrightarrow> key = head_key i) \<and>
   (parse_version key = Inr (i, v) \<longleftrightarrow> key = version_key i v) \<and>
   (parse_staging key = Inr (i, v) \<longleftrightarrow> key = staging_key i v) \<and>
   (parse_operation key = Inr (i, k) \<longleftrightarrow> key = operation_storage_key i k) \<and>
   (parse_quarantine key = Inr (n, i, v, part) \<longleftrightarrow> n < 2 ^ 64 \<and> key = quarantine_key n i v part)"
  by (simp add: parse_head_iff parse_version_iff parse_operation_iff parse_quarantine_iff
      parse_staging_def staging_key_def)

text \<open>
  Keys of one index sort, byte by byte, as the versions and operation keys in them do, and
  a scan by an index's prefix meets the keys of that index only.
\<close>

theorem storage_keys_ordered:
  "(version_key i v < version_key i w \<longleftrightarrow> v < w) \<and>
   (operation_storage_key i k < operation_storage_key i l \<longleftrightarrow> k < l) \<and>
   (prefix (index_prefix i) (version_key j v) \<longleftrightarrow> i = j) \<and>
   (prefix (index_prefix i) (operation_storage_key j k) \<longleftrightarrow> i = j)"
  by (simp add: version_key_less_iff operation_key_less_iff)

end
