(* ===== verification/Vocabulary.thy ===== *)
theory Vocabulary
  imports Errors
begin

text \<open>
  The vocabulary of the lifecycle: engine configurations (\<open>hnsw.rs\<close>, \<open>fts.rs\<close>),
  members (\<open>lifecycle/member.rs\<close>), operations and the permission table
  (\<open>lifecycle/operation.rs\<close>), and the named index record (\<open>lifecycle/record.rs\<close>).
  The consumer's member identity, provenance and retention types are the type variables
  \<open>'m\<close>, \<open>'p\<close> and \<open>'r\<close>; an \<open>f32\<close> is its bit pattern.
\<close>

type_synonym f32 = "32 word"
type_synonym f64 = "64 word"

section \<open>Configurations\<close>

datatype vector_distance = L2 | Cosine | InnerProduct

record hnsw_config =
  dimensions :: nat
  distance_mode :: vector_distance
  ef_construction :: nat
  m_neighbours :: nat

definition DEFAULT_EF_CONSTRUCTION :: nat where
  "DEFAULT_EF_CONSTRUCTION = 50"

definition DEFAULT_M_NEIGHBOURS :: nat where
  "DEFAULT_M_NEIGHBOURS = 16"

definition hnsw_config_new :: "nat \<Rightarrow> hnsw_config" where
  "hnsw_config_new dims = \<lparr>dimensions = dims, distance_mode = L2,
     ef_construction = DEFAULT_EF_CONSTRUCTION, m_neighbours = DEFAULT_M_NEIGHBOURS\<rparr>"

record tokenizer_config =
  tk_name :: string
  tk_args :: "string list"

record fts_config =
  tokenizer :: tokenizer_config
  filters :: "tokenizer_config list"

definition fts_config_simple :: fts_config where
  "fts_config_simple = \<lparr>tokenizer = \<lparr>tk_name = ''Simple'', tk_args = []\<rparr>, filters = []\<rparr>"

datatype index_config = CfgVector hnsw_config | CfgFts fts_config

fun config_family :: "index_config \<Rightarrow> snapshot_family" where
  "config_family (CfgVector _) = FamVector"
| "config_family (CfgFts _) = FamFts"

section \<open>Members\<close>

datatype member_content = CVector "f32 list" | CDocument string

fun content_family :: "member_content \<Rightarrow> snapshot_family" where
  "content_family (CVector _) = FamVector"
| "content_family (CDocument _) = FamFts"

record ('m, 'p) index_member =
  im_id :: 'm
  im_provenance :: 'p
  im_content :: member_content

section \<open>Operations\<close>

datatype ('m, 'p, 'r) index_change =
    Create index_config
  | Insert "('m, 'p) index_member list"
  | Remove "'m list"
  | Rebuild index_config "('m, 'p) index_member list"
  | Destroy 'r

fun transition :: "('m, 'p, 'r) index_change \<Rightarrow> lifecycle_transition" where
  "transition (Create _) = TrCreate"
| "transition (Insert _) = TrInsert"
| "transition (Remove _) = TrRemove"
| "transition (Rebuild _ _) = TrRebuild"
| "transition (Destroy _) = TrDestroy"

record ('m, 'p, 'r) lifecycle_operation =
  lo_index :: index_identity
  lo_key :: operation_key
  lo_change :: "('m, 'p, 'r) index_change"

fun is_permitted_from :: "lifecycle_transition \<Rightarrow> index_state_kind \<Rightarrow> bool" where
  "is_permitted_from TrCreate KAbsent = True"
| "is_permitted_from TrInsert KActive = True"
| "is_permitted_from TrRemove KActive = True"
| "is_permitted_from TrRebuild KActive = True"
| "is_permitted_from TrDestroy KActive = True"
| "is_permitted_from TrPublish KAbsent = True"
| "is_permitted_from TrPublish KActive = True"
| "is_permitted_from TrRecover _ = True"
| "is_permitted_from TrCreate KActive = False"
| "is_permitted_from TrCreate KDestroyed = False"
| "is_permitted_from TrInsert KAbsent = False"
| "is_permitted_from TrInsert KDestroyed = False"
| "is_permitted_from TrRemove KAbsent = False"
| "is_permitted_from TrRemove KDestroyed = False"
| "is_permitted_from TrRebuild KAbsent = False"
| "is_permitted_from TrRebuild KDestroyed = False"
| "is_permitted_from TrDestroy KAbsent = False"
| "is_permitted_from TrDestroy KDestroyed = False"
| "is_permitted_from TrPublish KDestroyed = False"

section \<open>The named index record\<close>

datatype 'r index_state =
    Active index_version
  | Destroyed index_version 'r operation_key

fun state_kind :: "'r index_state \<Rightarrow> index_state_kind" where
  "state_kind (Active _) = KActive"
| "state_kind (Destroyed _ _ _) = KDestroyed"

text \<open>The version a state names: the current one, or the last before the destroy.\<close>

fun state_version :: "'r index_state \<Rightarrow> index_version" where
  "state_version (Active v) = v"
| "state_version (Destroyed v _ _) = v"

record 'r index_record =
  ir_identity :: index_identity
  ir_config :: index_config
  ir_state :: "'r index_state"

text \<open>No caller can request Publish or Recover, and what a caller can request needs Absent or Active.\<close>

lemma requested_transitions: "transition c \<notin> {TrPublish, TrRecover}"
  by (cases c) auto

lemma requested_not_from_destroyed: "\<not> is_permitted_from (transition c) KDestroyed"
  by (cases c) auto

lemma permitted_absent_iff: "is_permitted_from (transition c) KAbsent \<longleftrightarrow> (\<exists>config. c = Create config)"
  by (cases c) auto

lemma permitted_active_iff: "is_permitted_from (transition c) KActive \<longleftrightarrow> (\<nexists>config. c = Create config)"
  by (cases c) auto

end
