(* ===== verification/Backend.thy ===== *)
theory Backend
  imports Storage_Key Vocabulary
begin

text \<open>
  The storage contract of the lifecycle (\<open>crates/heurema/src/lifecycle/backend.rs\<close>): the
  write descriptors, the trait \<open>LifecycleBackend\<close> as a record of its methods over an
  adapter state \<open>'s\<close> and opaque values \<open>'b\<close> (the encoded byte strings), an abstract store
  with the structural checks the trait documents, and the locale that states the contract
  between the two. A refused write wrote nothing; a write that fails with
  \<open>Persistence\<close> took effect wholly or not at all.
\<close>

section \<open>Write descriptors and entries\<close>

record 'b stage_write =
  sw_index :: index_identity
  sw_version :: index_version
  sw_key :: operation_key
  sw_expected_head :: "'b option"
  sw_marker :: 'b
  sw_payload :: 'b
  sw_head_len :: nat
  sw_operation_len :: nat

record 'b publish_write =
  pw_index :: index_identity
  pw_version :: index_version
  pw_key :: operation_key
  pw_expected_head :: "'b option"
  pw_marker :: 'b
  pw_head :: 'b
  pw_operation :: 'b

record 'b destroy_write =
  dw_index :: index_identity
  dw_key :: operation_key
  dw_expected_head :: 'b
  dw_head :: 'b
  dw_operation :: 'b
  dw_versions :: "index_version list"

record 'b quarantine_write =
  qw_index :: index_identity
  qw_version :: index_version
  qw_marker :: 'b

record 'b staged_entry =
  se_index :: index_identity
  se_version :: index_version
  se_marker :: 'b

record 'b quarantined_entry =
  qe_sequence :: nat
  qe_index :: index_identity
  qe_version :: index_version
  qe_marker :: 'b
  qe_payload :: "'b option"

definition FIRST_SEQUENCE :: nat where
  "FIRST_SEQUENCE = 1"

section \<open>The trait\<close>

text \<open>
  A write takes the adapter's state to a result and the state after it. \<open>writer()\<close> is
  modelled apart, in the theory \<open>Writer\<close>.
\<close>

record ('s, 'b) lifecycle_backend =
  b_read_head :: "'s \<Rightarrow> index_identity \<Rightarrow> heurema_error + 'b option"
  b_read_version :: "'s \<Rightarrow> index_identity \<Rightarrow> index_version \<Rightarrow> heurema_error + 'b option"
  b_read_operation :: "'s \<Rightarrow> index_identity \<Rightarrow> operation_key \<Rightarrow> heurema_error + 'b option"
  b_read_staging :: "'s \<Rightarrow> index_identity \<Rightarrow> heurema_error + (index_version \<times> 'b) option"
  b_stage :: "'b stage_write \<Rightarrow> 's \<Rightarrow> (heurema_error + unit) \<times> 's"
  b_publish :: "'b publish_write \<Rightarrow> 's \<Rightarrow> (heurema_error + unit) \<times> 's"
  b_destroy :: "'b destroy_write \<Rightarrow> 's \<Rightarrow> (heurema_error + unit) \<times> 's"
  b_list_heads :: "'s \<Rightarrow> heurema_error + (index_identity \<times> 'b) list"
  b_list_staged :: "'s \<Rightarrow> heurema_error + 'b staged_entry list"
  b_list_operations :: "'s \<Rightarrow> index_identity \<Rightarrow> heurema_error + (operation_key \<times> 'b) list"
  b_quarantine :: "'b quarantine_write \<Rightarrow> 's \<Rightarrow> (heurema_error + unit) \<times> 's"
  b_list_quarantined :: "'s \<Rightarrow> heurema_error + 'b quarantined_entry list"

text \<open>A backend behind a reference, a \<open>Box\<close> or an \<open>Arc\<close>: every method is passed on.\<close>

definition forwarded :: "('s, 'b) lifecycle_backend \<Rightarrow> ('s, 'b) lifecycle_backend" where
  "forwarded B = \<lparr>b_read_head = (\<lambda>s i. b_read_head B s i), b_read_version = (\<lambda>s i v. b_read_version B s i v),
     b_read_operation = (\<lambda>s i k. b_read_operation B s i k), b_read_staging = (\<lambda>s i. b_read_staging B s i),
     b_stage = (\<lambda>w s. b_stage B w s), b_publish = (\<lambda>w s. b_publish B w s), b_destroy = (\<lambda>w s. b_destroy B w s),
     b_list_heads = (\<lambda>s. b_list_heads B s), b_list_staged = (\<lambda>s. b_list_staged B s),
     b_list_operations = (\<lambda>s i. b_list_operations B s i), b_quarantine = (\<lambda>w s. b_quarantine B w s),
     b_list_quarantined = (\<lambda>s. b_list_quarantined B s)\<rparr>"

lemma forwarded_same [simp]: "forwarded B = B"
  by (simp add: forwarded_def)

section \<open>The abstract store\<close>

record 'b store =
  st_heads :: "index_identity \<Rightarrow> 'b option"
  st_versions :: "index_identity \<Rightarrow> index_version \<Rightarrow> 'b option"
  st_staging :: "index_identity \<Rightarrow> index_version \<Rightarrow> 'b option"
  st_operations :: "index_identity \<Rightarrow> operation_key \<Rightarrow> 'b option"
  st_quarantine :: "'b quarantined_entry list"

definition empty_store :: "'b store" where
  "empty_store = \<lparr>st_heads = (\<lambda>_. None), st_versions = (\<lambda>_ _. None), st_staging = (\<lambda>_ _. None),
     st_operations = (\<lambda>_ _. None), st_quarantine = []\<rparr>"

definition set2 :: "'i \<Rightarrow> 'k \<Rightarrow> 'v option \<Rightarrow> ('i \<Rightarrow> 'k \<Rightarrow> 'v option) \<Rightarrow> ('i \<Rightarrow> 'k \<Rightarrow> 'v option)" where
  "set2 i k x f = f(i := (f i)(k := x))"

lemma set2_apply [simp]: "set2 i k x f j l = (if j = i \<and> l = k then x else f j l)"
  by (simp add: set2_def)

text \<open>The staged version a check reports: the lowest.\<close>

definition lowest_staged :: "'b store \<Rightarrow> index_identity \<Rightarrow> index_version \<Rightarrow> bool" where
  "lowest_staged st i v \<longleftrightarrow> st_staging st i v \<noteq> None \<and> (\<forall>w. st_staging st i w \<noteq> None \<longrightarrow> v \<le> w)"

definition nothing_staged :: "'b store \<Rightarrow> index_identity \<Rightarrow> bool" where
  "nothing_staged st i \<longleftrightarrow> (\<forall>v. st_staging st i v = None)"

text \<open>
  The contract of each write: \<open>spec_* w st r st'\<close> relates the store before, the result and
  the store after, with the checks in the documented order.
\<close>

inductive spec_stage :: "'b stage_write \<Rightarrow> 'b store \<Rightarrow> heurema_error + unit \<Rightarrow> 'b store \<Rightarrow> bool"
  for w st where
  stage_head: "st_heads st (sw_index w) \<noteq> sw_expected_head w \<Longrightarrow>
    spec_stage w st (Inl (HeadChanged (sw_index w))) st"
| stage_staged: "st_heads st (sw_index w) = sw_expected_head w \<Longrightarrow> lowest_staged st (sw_index w) v \<Longrightarrow>
    spec_stage w st (Inl (StagedStateExists (sw_index w) v)) st"
| stage_stored: "st_heads st (sw_index w) = sw_expected_head w \<Longrightarrow> nothing_staged st (sw_index w) \<Longrightarrow>
    st_versions st (sw_index w) (sw_version w) \<noteq> None \<Longrightarrow>
    spec_stage w st (Inl (VersionStored (sw_index w) (sw_version w))) st"
| stage_recorded: "st_heads st (sw_index w) = sw_expected_head w \<Longrightarrow> nothing_staged st (sw_index w) \<Longrightarrow>
    st_versions st (sw_index w) (sw_version w) = None \<Longrightarrow>
    st_operations st (sw_index w) (sw_key w) \<noteq> None \<Longrightarrow>
    spec_stage w st (Inl (OperationRecorded (sw_index w) (sw_key w))) st"
| stage_ok: "st_heads st (sw_index w) = sw_expected_head w \<Longrightarrow> nothing_staged st (sw_index w) \<Longrightarrow>
    st_versions st (sw_index w) (sw_version w) = None \<Longrightarrow>
    st_operations st (sw_index w) (sw_key w) = None \<Longrightarrow>
    spec_stage w st (Inr ())
      (st\<lparr>st_versions := set2 (sw_index w) (sw_version w) (Some (sw_payload w)) (st_versions st),
          st_staging := set2 (sw_index w) (sw_version w) (Some (sw_marker w)) (st_staging st)\<rparr>)"

inductive spec_publish :: "'b publish_write \<Rightarrow> 'b store \<Rightarrow> heurema_error + unit \<Rightarrow> 'b store \<Rightarrow> bool"
  for w st where
  publish_head: "st_heads st (pw_index w) \<noteq> pw_expected_head w \<Longrightarrow>
    spec_publish w st (Inl (HeadChanged (pw_index w))) st"
| publish_missing: "st_heads st (pw_index w) = pw_expected_head w \<Longrightarrow>
    st_staging st (pw_index w) (pw_version w) \<noteq> Some (pw_marker w) \<or>
      st_versions st (pw_index w) (pw_version w) = None \<Longrightarrow>
    spec_publish w st (Inl (StagedStateMissing (pw_index w) (pw_version w))) st"
| publish_recorded: "st_heads st (pw_index w) = pw_expected_head w \<Longrightarrow>
    st_staging st (pw_index w) (pw_version w) = Some (pw_marker w) \<Longrightarrow>
    st_versions st (pw_index w) (pw_version w) \<noteq> None \<Longrightarrow>
    st_operations st (pw_index w) (pw_key w) \<noteq> None \<Longrightarrow>
    spec_publish w st (Inl (OperationRecorded (pw_index w) (pw_key w))) st"
| publish_ok: "st_heads st (pw_index w) = pw_expected_head w \<Longrightarrow>
    st_staging st (pw_index w) (pw_version w) = Some (pw_marker w) \<Longrightarrow>
    st_versions st (pw_index w) (pw_version w) \<noteq> None \<Longrightarrow>
    st_operations st (pw_index w) (pw_key w) = None \<Longrightarrow>
    spec_publish w st (Inr ())
      (st\<lparr>st_heads := (st_heads st)(pw_index w := Some (pw_head w)),
          st_operations := set2 (pw_index w) (pw_key w) (Some (pw_operation w)) (st_operations st),
          st_staging := set2 (pw_index w) (pw_version w) None (st_staging st)\<rparr>)"

inductive spec_destroy :: "'b destroy_write \<Rightarrow> 'b store \<Rightarrow> heurema_error + unit \<Rightarrow> 'b store \<Rightarrow> bool"
  for w st where
  destroy_head: "st_heads st (dw_index w) \<noteq> Some (dw_expected_head w) \<Longrightarrow>
    spec_destroy w st (Inl (HeadChanged (dw_index w))) st"
| destroy_staged: "st_heads st (dw_index w) = Some (dw_expected_head w) \<Longrightarrow>
    lowest_staged st (dw_index w) v \<Longrightarrow>
    spec_destroy w st (Inl (StagedStateExists (dw_index w) v)) st"
| destroy_recorded: "st_heads st (dw_index w) = Some (dw_expected_head w) \<Longrightarrow>
    nothing_staged st (dw_index w) \<Longrightarrow> st_operations st (dw_index w) (dw_key w) \<noteq> None \<Longrightarrow>
    spec_destroy w st (Inl (OperationRecorded (dw_index w) (dw_key w))) st"
| destroy_ok: "st_heads st (dw_index w) = Some (dw_expected_head w) \<Longrightarrow>
    nothing_staged st (dw_index w) \<Longrightarrow> st_operations st (dw_index w) (dw_key w) = None \<Longrightarrow>
    spec_destroy w st (Inr ())
      (st\<lparr>st_heads := (st_heads st)(dw_index w := Some (dw_head w)),
          st_operations := set2 (dw_index w) (dw_key w) (Some (dw_operation w)) (st_operations st),
          st_versions := (st_versions st)(dw_index w := (\<lambda>v. if v \<in> set (dw_versions w) then None
                                                     else st_versions st (dw_index w) v))\<rparr>)"

inductive spec_quarantine :: "'b quarantine_write \<Rightarrow> 'b store \<Rightarrow> heurema_error + unit \<Rightarrow> 'b store \<Rightarrow> bool"
  for w st where
  quarantine_missing: "st_staging st (qw_index w) (qw_version w) \<noteq> Some (qw_marker w) \<Longrightarrow>
    spec_quarantine w st (Inl (StagedStateMissing (qw_index w) (qw_version w))) st"
| quarantine_ok: "st_staging st (qw_index w) (qw_version w) = Some (qw_marker w) \<Longrightarrow>
    (\<forall>e \<in> set (st_quarantine st). qe_sequence e < n) \<Longrightarrow>
    spec_quarantine w st (Inr ())
      (st\<lparr>st_versions := set2 (qw_index w) (qw_version w) None (st_versions st),
          st_staging := set2 (qw_index w) (qw_version w) None (st_staging st),
          st_quarantine := st_quarantine st @
            [\<lparr>qe_sequence = n, qe_index = qw_index w, qe_version = qw_version w,
              qe_marker = qw_marker w, qe_payload = st_versions st (qw_index w) (qw_version w)\<rparr>]\<rparr>)"

inductive_cases spec_stage_okE: "spec_stage w st (Inr u) st'"
inductive_cases spec_stage_errE: "spec_stage w st (Inl e) st'"
inductive_cases spec_publish_okE: "spec_publish w st (Inr u) st'"
inductive_cases spec_publish_errE: "spec_publish w st (Inl e) st'"
inductive_cases spec_destroy_okE: "spec_destroy w st (Inr u) st'"
inductive_cases spec_destroy_errE: "spec_destroy w st (Inl e) st'"
inductive_cases spec_quarantine_okE: "spec_quarantine w st (Inr u) st'"
inductive_cases spec_quarantine_errE: "spec_quarantine w st (Inl e) st'"

text \<open>A refused write wrote nothing.\<close>

lemma spec_refused:
  "spec_stage w st (Inl e) st' \<Longrightarrow> st' = st"
  "spec_publish w' st (Inl e) st' \<Longrightarrow> st' = st"
  "spec_destroy w'' st (Inl e) st' \<Longrightarrow> st' = st"
  "spec_quarantine w''' st (Inl e) st' \<Longrightarrow> st' = st"
  by (auto elim: spec_stage_errE spec_publish_errE spec_destroy_errE spec_quarantine_errE)

text \<open>Any of the four writes, so that a history of an adapter is a list of calls.\<close>

datatype 'b write_call =
    StageCall "'b stage_write" | PublishCall "'b publish_write"
  | DestroyCall "'b destroy_write" | QuarantineCall "'b quarantine_write"

fun b_write :: "('s, 'b) lifecycle_backend \<Rightarrow> 'b write_call \<Rightarrow> 's \<Rightarrow> (heurema_error + unit) \<times> 's" where
  "b_write B (StageCall w) = b_stage B w"
| "b_write B (PublishCall w) = b_publish B w"
| "b_write B (DestroyCall w) = b_destroy B w"
| "b_write B (QuarantineCall w) = b_quarantine B w"

definition b_run :: "('s, 'b) lifecycle_backend \<Rightarrow> 'b write_call list \<Rightarrow> 's \<Rightarrow> 's" where
  "b_run B calls s = fold (\<lambda>c s. snd (b_write B c s)) calls s"

fun spec_write :: "'b write_call \<Rightarrow> 'b store \<Rightarrow> heurema_error + unit \<Rightarrow> 'b store \<Rightarrow> bool" where
  "spec_write (StageCall w) = spec_stage w"
| "spec_write (PublishCall w) = spec_publish w"
| "spec_write (DestroyCall w) = spec_destroy w"
| "spec_write (QuarantineCall w) = spec_quarantine w"

lemma spec_write_refused: "spec_write c st (Inl e) st' \<Longrightarrow> st' = st"
  by (cases c) (auto dest: spec_refused)

text \<open>
  What every history keeps: a staged marker has its payload beside it, an index has at most
  one staged version, and quarantine entries carry ascending sequence numbers.
\<close>

definition store_inv :: "'b store \<Rightarrow> bool" where
  "store_inv st \<longleftrightarrow>
     (\<forall>i v. st_staging st i v \<noteq> None \<longrightarrow> st_versions st i v \<noteq> None) \<and>
     (\<forall>i v w. st_staging st i v \<noteq> None \<longrightarrow> st_staging st i w \<noteq> None \<longrightarrow> v = w) \<and>
     sorted_wrt (<) (map qe_sequence (st_quarantine st))"

lemma store_inv_empty [simp]: "store_inv empty_store"
  by (simp add: store_inv_def empty_store_def)

lemma store_inv_write: "store_inv st \<Longrightarrow> spec_write c st (Inr u) st' \<Longrightarrow> store_inv st'"
  by (cases c;
      auto simp: store_inv_def nothing_staged_def sorted_wrt_append split: if_splits
        elim!: spec_stage_okE spec_publish_okE spec_destroy_okE spec_quarantine_okE; metis)

text \<open>
  What no later write undoes: an index with a head keeps one, an operation record is never
  changed or dropped, a stored payload is never overwritten while it stays stored, and
  quarantine entries stay where they are.
\<close>

definition store_grows :: "'b store \<Rightarrow> 'b store \<Rightarrow> bool" where
  "store_grows st st' \<longleftrightarrow>
     (\<forall>i. st_heads st i \<noteq> None \<longrightarrow> st_heads st' i \<noteq> None) \<and>
     (\<forall>i k x. st_operations st i k = Some x \<longrightarrow> st_operations st' i k = Some x) \<and>
     prefix (st_quarantine st) (st_quarantine st')"

lemma store_grows_refl [simp]: "store_grows st st"
  by (simp add: store_grows_def)

lemma store_grows_trans: "store_grows a b \<Longrightarrow> store_grows b c \<Longrightarrow> store_grows a c"
  unfolding store_grows_def using prefix_order.trans by blast

lemma store_grows_write: "spec_write c st (Inr u) st' \<Longrightarrow> store_grows st st'"
  by (cases c)
    (auto simp: store_grows_def elim!: spec_stage_okE spec_publish_okE spec_destroy_okE spec_quarantine_okE)

text \<open>A write replaces no payload: a version that is stored before and after holds the same bytes.\<close>

lemma payload_kept_write:
  "spec_write c st (Inr u) st' \<Longrightarrow> st_versions st i v = Some x \<Longrightarrow> st_versions st' i v = Some y \<Longrightarrow> x = y"
  by (cases c)
    (auto split: if_splits elim!: spec_stage_okE spec_publish_okE spec_destroy_okE spec_quarantine_okE)

section \<open>The contract between an adapter and the abstract store\<close>

text \<open>
  \<open>reads r x\<close>: a read returned the stored value, or the storage failed. \<open>obeys spec\<close>: a
  write did what the specification says, or storage failed and the write took effect
  entirely or not at all.
\<close>

definition reads :: "heurema_error + 'a \<Rightarrow> 'a \<Rightarrow> bool" where
  "reads r x \<longleftrightarrow> r = Inr x \<or> (\<exists>src. r = Inl (Persistence src))"

definition obeys :: "('t \<Rightarrow> heurema_error + unit \<Rightarrow> 't \<Rightarrow> bool) \<Rightarrow> 't \<Rightarrow> heurema_error + unit \<Rightarrow> 't \<Rightarrow> bool" where
  "obeys spec t r t' \<longleftrightarrow>
     spec t r t' \<or> (\<exists>src. r = Inl (Persistence src) \<and> (t' = t \<or> spec t (Inr ()) t'))"

lemma obeys_ok: "obeys spec t (Inr u) t' \<longleftrightarrow> spec t (Inr ()) t'"
  by (auto simp: obeys_def)

lemma obeys_effect:
  "obeys spec t r t' \<Longrightarrow> (\<And>e t''. spec t (Inl e) t'' \<Longrightarrow> t'' = t) \<Longrightarrow> t' = t \<or> spec t (Inr ()) t'"
  by (cases r) (auto simp: obeys_def)

definition staged_view :: "'b store \<Rightarrow> index_identity \<Rightarrow> (index_version \<times> 'b) option \<Rightarrow> bool" where
  "staged_view st i x \<longleftrightarrow>
     (case x of None \<Rightarrow> nothing_staged st i
      | Some (v, m) \<Rightarrow> lowest_staged st i v \<and> st_staging st i v = Some m)"

locale lifecycle_store =
  fixes B :: "('s, 'b) lifecycle_backend"
    and abs :: "'s \<Rightarrow> 'b store"
    and inv :: "'s \<Rightarrow> bool"
  assumes read_head: "inv s \<Longrightarrow> reads (b_read_head B s i) (st_heads (abs s) i)"
    and read_version: "inv s \<Longrightarrow> reads (b_read_version B s i v) (st_versions (abs s) i v)"
    and read_operation: "inv s \<Longrightarrow> reads (b_read_operation B s i k) (st_operations (abs s) i k)"
    and read_staging: "inv s \<Longrightarrow> \<exists>x. reads (b_read_staging B s i) x \<and> staged_view (abs s) i x"
    and stage: "inv s \<Longrightarrow> b_stage B sw s = (r, s') \<Longrightarrow> inv s' \<and> obeys (spec_stage sw) (abs s) r (abs s')"
    and publish: "inv s \<Longrightarrow> b_publish B pw s = (r, s') \<Longrightarrow> inv s' \<and> obeys (spec_publish pw) (abs s) r (abs s')"
    and destroy: "inv s \<Longrightarrow> b_destroy B dw s = (r, s') \<Longrightarrow> inv s' \<and> obeys (spec_destroy dw) (abs s) r (abs s')"
    and quarantine: "inv s \<Longrightarrow> b_quarantine B qw s = (r, s') \<Longrightarrow>
      inv s' \<and> obeys (spec_quarantine qw) (abs s) r (abs s')"
begin

lemma write_obeys: "inv s \<Longrightarrow> b_write B c s = (r, s') \<Longrightarrow> inv s' \<and> obeys (spec_write c) (abs s) r (abs s')"
  by (cases c) (auto dest: stage publish destroy quarantine)

lemma write_effect:
  "inv s \<Longrightarrow> abs (snd (b_write B c s)) = abs s \<or> spec_write c (abs s) (Inr ()) (abs (snd (b_write B c s)))"
  by (metis write_obeys obeys_effect spec_write_refused prod.collapse)

lemma run_inv: "inv s \<Longrightarrow> inv (b_run B calls s)"
  unfolding b_run_def
  by (induction calls arbitrary: s) (auto simp: write_obeys [THEN conjunct1, OF _ prod.collapse [symmetric]])

lemma run_store_inv: "inv s \<Longrightarrow> store_inv (abs s) \<Longrightarrow> store_inv (abs (b_run B calls s))"
proof (induction calls arbitrary: s)
  case (Cons c calls)
  from Cons.prems have "inv (snd (b_write B c s))" using write_obeys prod.collapse by metis
  moreover have "store_inv (abs (snd (b_write B c s)))"
    using write_effect [OF Cons.prems(1), of c] Cons.prems(2) by (auto dest: store_inv_write)
  ultimately show ?case using Cons.IH by (simp add: b_run_def)
qed (simp add: b_run_def)

lemma run_grows: "inv s \<Longrightarrow> store_grows (abs s) (abs (b_run B calls s))"
proof (induction calls arbitrary: s)
  case (Cons c calls)
  from Cons.prems have "inv (snd (b_write B c s))" using write_obeys prod.collapse by metis
  moreover have "store_grows (abs s) (abs (snd (b_write B c s)))"
    using write_effect [OF Cons.prems, of c] by (auto dest: store_grows_write)
  ultimately show ?case using Cons.IH store_grows_trans by (fastforce simp: b_run_def)
qed (simp add: b_run_def)

end

text \<open>A store whose storage never fails.\<close>

locale reliable_store = lifecycle_store +
  assumes reads_succeed: "inv s \<Longrightarrow> b_read_head B s i \<noteq> Inl (Persistence src)"
    "inv s \<Longrightarrow> b_read_version B s i v \<noteq> Inl (Persistence src)"
    "inv s \<Longrightarrow> b_read_operation B s i k \<noteq> Inl (Persistence src)"
    "inv s \<Longrightarrow> b_read_staging B s i \<noteq> Inl (Persistence src)"
    and writes_succeed: "inv s \<Longrightarrow> fst (b_stage B sw s) \<noteq> Inl (Persistence src)"
    "inv s \<Longrightarrow> fst (b_publish B pw s) \<noteq> Inl (Persistence src)"
    "inv s \<Longrightarrow> fst (b_destroy B dw s) \<noteq> Inl (Persistence src)"

end
