(* ===== verification/Atmis.thy ===== *)
theory Atmis
  imports Backend
begin

text \<open>
  The in-memory adapter (\<open>crates/atmis/src/lib.rs\<close>): its lifecycle state is four maps keyed
  by storage-key text and a quarantine list, its checks scan those maps, and every write runs
  its checks and its effect under one lock. The lock's poisoning by a panicking holder is a
  flag of the state. The theory shows that the adapter meets the storage contract of
  \<open>Backend\<close>: the keyed maps simulate the abstract store.
\<close>

section \<open>State\<close>

record (overloaded) 'b lifecycle_state =
  heads :: "(string, 'b) btree"
  versions :: "(string, 'b) btree"
  staging :: "(string, 'b) btree"
  operations :: "(string, 'b) btree"
  quarantine_log :: "'b quarantined_entry list"
  poisoned :: bool

definition lifecycle_state_new :: "'b lifecycle_state" where
  "lifecycle_state_new = \<lparr>heads = bt_empty, versions = bt_empty, staging = bt_empty,
     operations = bt_empty, quarantine_log = [], poisoned = False\<rparr>"

text \<open>\<open>map.range((Included(from), Unbounded))\<close>.\<close>

definition range_from :: "'k::linorder \<Rightarrow> ('k, 'v) btree \<Rightarrow> ('k \<times> 'v) list" where
  "range_from from m = dropWhile (\<lambda>(k, _). k < from) (bt_entries m)"

section \<open>Checks\<close>

definition first_staged :: "'b lifecycle_state \<Rightarrow> string \<Rightarrow> (string \<times> 'b) option" where
  "first_staged s p =
     (case range_from p (staging s) of
        [] \<Rightarrow> None
      | (key, marker) # _ \<Rightarrow> if prefix p key then Some (key, marker) else None)"

definition check_head :: "'b lifecycle_state \<Rightarrow> index_identity \<Rightarrow> string \<Rightarrow> 'b option \<Rightarrow> heurema_error + unit" where
  "check_head s i hkey expected =
     (if bt_get (heads s) hkey = expected then Inr () else Inl (HeadChanged i))"

definition refuse_staged :: "'b lifecycle_state \<Rightarrow> index_identity \<Rightarrow> string \<Rightarrow> heurema_error + unit" where
  "refuse_staged s i p =
     (case first_staged s p of
        None \<Rightarrow> Inr ()
      | Some (key, _) \<Rightarrow>
          and_then (parse_staging key) (\<lambda>(_, version). Inl (StagedStateExists i version)))"

definition refuse_stored_version ::
    "'b lifecycle_state \<Rightarrow> index_identity \<Rightarrow> index_version \<Rightarrow> string \<Rightarrow> heurema_error + unit" where
  "refuse_stored_version s i v vkey =
     (if bt_contains (versions s) vkey then Inl (VersionStored i v) else Inr ())"

definition check_marker ::
    "'b lifecycle_state \<Rightarrow> index_identity \<Rightarrow> index_version \<Rightarrow> string \<Rightarrow> 'b \<Rightarrow> heurema_error + unit" where
  "check_marker s i v skey marker =
     (if bt_get (staging s) skey = Some marker then Inr () else Inl (StagedStateMissing i v))"

definition check_payload ::
    "'b lifecycle_state \<Rightarrow> index_identity \<Rightarrow> index_version \<Rightarrow> string \<Rightarrow> heurema_error + unit" where
  "check_payload s i v vkey =
     (if bt_contains (versions s) vkey then Inr () else Inl (StagedStateMissing i v))"

definition refuse_recorded ::
    "'b lifecycle_state \<Rightarrow> index_identity \<Rightarrow> operation_key \<Rightarrow> string \<Rightarrow> heurema_error + unit" where
  "refuse_recorded s i k okey =
     (if bt_contains (operations s) okey then Inl (OperationRecorded i k) else Inr ())"

definition next_sequence :: "'b lifecycle_state \<Rightarrow> heurema_error + nat" where
  "next_sequence s =
     (if quarantine_log s = [] then Inr FIRST_SEQUENCE
      else case usize_checked_add (qe_sequence (last (quarantine_log s))) 1 of
             Some next \<Rightarrow> Inr next
           | None \<Rightarrow> Inl (Persistence (QuarantineSequenceExhausted AtmisAdapter)))"

text \<open>\<open>AtmisBackend::lifecycle\<close>: the guard, unless a holder panicked.\<close>

definition lock_state :: "'b lifecycle_state \<Rightarrow> heurema_error + 'b lifecycle_state" where
  "lock_state s = (if poisoned s then Inl (Persistence LifecycleStatePoisoned) else Inr s)"

text \<open>A write under the guard: its checks, then its effect; a refusal leaves the maps alone.\<close>

definition under_lock ::
    "('b lifecycle_state \<Rightarrow> heurema_error + 'b lifecycle_state) \<Rightarrow> 'b lifecycle_state
      \<Rightarrow> (heurema_error + unit) \<times> 'b lifecycle_state" where
  "under_lock body s =
     (case and_then (lock_state s) body of
        Inl e \<Rightarrow> (Inl e, s)
      | Inr s' \<Rightarrow> (Inr (), s'))"

section \<open>Reads\<close>

definition atmis_read_head :: "'b lifecycle_state \<Rightarrow> index_identity \<Rightarrow> heurema_error + 'b option" where
  "atmis_read_head s i = and_then (lock_state s) (\<lambda>s. Inr (bt_get (heads s) (head_key i)))"

definition atmis_read_version ::
    "'b lifecycle_state \<Rightarrow> index_identity \<Rightarrow> index_version \<Rightarrow> heurema_error + 'b option" where
  "atmis_read_version s i v = and_then (lock_state s) (\<lambda>s. Inr (bt_get (versions s) (version_key i v)))"

definition atmis_read_operation ::
    "'b lifecycle_state \<Rightarrow> index_identity \<Rightarrow> operation_key \<Rightarrow> heurema_error + 'b option" where
  "atmis_read_operation s i k =
     and_then (lock_state s) (\<lambda>s. Inr (bt_get (operations s) (operation_storage_key i k)))"

definition atmis_read_staging ::
    "'b lifecycle_state \<Rightarrow> index_identity \<Rightarrow> heurema_error + (index_version \<times> 'b) option" where
  "atmis_read_staging s i =
     and_then (lock_state s) (\<lambda>s.
     case first_staged s (index_prefix i) of
       None \<Rightarrow> Inr None
     | Some (key, marker) \<Rightarrow>
         and_then (parse_staging key) (\<lambda>(_, version). Inr (Some (version, marker))))"

section \<open>Writes\<close>

definition atmis_stage ::
    "'b stage_write \<Rightarrow> 'b lifecycle_state \<Rightarrow> (heurema_error + unit) \<times> 'b lifecycle_state" where
  "atmis_stage w = under_lock (\<lambda>s.
     let i = sw_index w; v = sw_version w;
         vkey = version_key i v; skey = staging_key i v;
         okey = operation_storage_key i (sw_key w)
     in and_then (check_head s i (head_key i) (sw_expected_head w)) (\<lambda>_.
        and_then (refuse_staged s i (index_prefix i)) (\<lambda>_.
        and_then (refuse_stored_version s i v vkey) (\<lambda>_.
        and_then (refuse_recorded s i (sw_key w) okey) (\<lambda>_.
        Inr (s\<lparr>versions := bt_insert vkey (sw_payload w) (versions s),
               staging := bt_insert skey (sw_marker w) (staging s)\<rparr>))))))"

definition atmis_publish ::
    "'b publish_write \<Rightarrow> 'b lifecycle_state \<Rightarrow> (heurema_error + unit) \<times> 'b lifecycle_state" where
  "atmis_publish w = under_lock (\<lambda>s.
     let i = pw_index w; v = pw_version w;
         vkey = version_key i v; skey = staging_key i v;
         okey = operation_storage_key i (pw_key w)
     in and_then (check_head s i (head_key i) (pw_expected_head w)) (\<lambda>_.
        and_then (check_marker s i v skey (pw_marker w)) (\<lambda>_.
        and_then (check_payload s i v vkey) (\<lambda>_.
        and_then (refuse_recorded s i (pw_key w) okey) (\<lambda>_.
        Inr (s\<lparr>heads := bt_insert (head_key i) (pw_head w) (heads s),
               operations := bt_insert okey (pw_operation w) (operations s),
               staging := bt_remove skey (staging s)\<rparr>))))))"

definition atmis_destroy ::
    "'b destroy_write \<Rightarrow> 'b lifecycle_state \<Rightarrow> (heurema_error + unit) \<times> 'b lifecycle_state" where
  "atmis_destroy w = under_lock (\<lambda>s.
     let i = dw_index w;
         okey = operation_storage_key i (dw_key w);
         vkeys = map (version_key i) (dw_versions w)
     in and_then (check_head s i (head_key i) (Some (dw_expected_head w))) (\<lambda>_.
        and_then (refuse_staged s i (index_prefix i)) (\<lambda>_.
        and_then (refuse_recorded s i (dw_key w) okey) (\<lambda>_.
        Inr (s\<lparr>heads := bt_insert (head_key i) (dw_head w) (heads s),
               operations := bt_insert okey (dw_operation w) (operations s),
               versions := fold bt_remove vkeys (versions s)\<rparr>)))))"

definition atmis_quarantine ::
    "'b quarantine_write \<Rightarrow> 'b lifecycle_state \<Rightarrow> (heurema_error + unit) \<times> 'b lifecycle_state" where
  "atmis_quarantine w = under_lock (\<lambda>s.
     let i = qw_index w; v = qw_version w;
         vkey = version_key i v; skey = staging_key i v
     in and_then (check_marker s i v skey (qw_marker w)) (\<lambda>_.
        and_then (next_sequence s) (\<lambda>sequence.
        Inr (s\<lparr>versions := bt_remove vkey (versions s),
               staging := bt_remove skey (staging s),
               quarantine_log := quarantine_log s @
                 [\<lparr>qe_sequence = sequence, qe_index = i, qe_version = v, qe_marker = qw_marker w,
                   qe_payload = bt_get (versions s) vkey\<rparr>]\<rparr>))))"

section \<open>Listings\<close>

definition atmis_list_heads :: "'b lifecycle_state \<Rightarrow> heurema_error + (index_identity \<times> 'b) list" where
  "atmis_list_heads s =
     and_then (lock_state s) (\<lambda>s.
     map_res (\<lambda>(key, head). and_then (parse_head key) (\<lambda>i. Inr (i, head))) (bt_entries (heads s)))"

definition atmis_list_staged :: "'b lifecycle_state \<Rightarrow> heurema_error + 'b staged_entry list" where
  "atmis_list_staged s =
     and_then (lock_state s) (\<lambda>s.
     map_res (\<lambda>(key, marker). and_then (parse_staging key) (\<lambda>(i, v).
         Inr \<lparr>se_index = i, se_version = v, se_marker = marker\<rparr>)) (bt_entries (staging s)))"

definition atmis_list_operations ::
    "'b lifecycle_state \<Rightarrow> index_identity \<Rightarrow> heurema_error + (operation_key \<times> 'b) list" where
  "atmis_list_operations s i =
     and_then (lock_state s) (\<lambda>s.
     map_res (\<lambda>(key, operation). and_then (parse_operation key) (\<lambda>(_, k). Inr (k, operation)))
       (takeWhile (\<lambda>(key, _). prefix (index_prefix i) key)
         (range_from (index_prefix i) (operations s))))"

definition atmis_list_quarantined :: "'b lifecycle_state \<Rightarrow> heurema_error + 'b quarantined_entry list" where
  "atmis_list_quarantined s = and_then (lock_state s) (\<lambda>s. Inr (quarantine_log s))"

definition atmis_backend :: "('b lifecycle_state, 'b) lifecycle_backend" where
  "atmis_backend = \<lparr>b_read_head = atmis_read_head, b_read_version = atmis_read_version,
     b_read_operation = atmis_read_operation, b_read_staging = atmis_read_staging,
     b_stage = atmis_stage, b_publish = atmis_publish, b_destroy = atmis_destroy,
     b_list_heads = atmis_list_heads, b_list_staged = atmis_list_staged,
     b_list_operations = atmis_list_operations, b_quarantine = atmis_quarantine,
     b_list_quarantined = atmis_list_quarantined\<rparr>"

section \<open>The maps simulate the abstract store\<close>

definition atmis_abs :: "'b lifecycle_state \<Rightarrow> 'b store" where
  "atmis_abs s = \<lparr>st_heads = (\<lambda>i. bt_get (heads s) (head_key i)),
     st_versions = (\<lambda>i v. bt_get (versions s) (version_key i v)),
     st_staging = (\<lambda>i v. bt_get (staging s) (staging_key i v)),
     st_operations = (\<lambda>i k. bt_get (operations s) (operation_storage_key i k)),
     st_quarantine = quarantine_log s\<rparr>"

text \<open>Every key follows the grammar, and quarantine entries are in sequence order.\<close>

definition atmis_wf :: "'b lifecycle_state \<Rightarrow> bool" where
  "atmis_wf s \<longleftrightarrow>
     (\<forall>k x. bt_get (heads s) k = Some x \<longrightarrow> (\<exists>i. k = head_key i)) \<and>
     (\<forall>k x. bt_get (versions s) k = Some x \<longrightarrow> (\<exists>i v. k = version_key i v)) \<and>
     (\<forall>k x. bt_get (staging s) k = Some x \<longrightarrow> (\<exists>i v. k = staging_key i v)) \<and>
     (\<forall>k x. bt_get (operations s) k = Some x \<longrightarrow> (\<exists>i o'. k = operation_storage_key i o')) \<and>
     sorted_wrt (<) (map qe_sequence (quarantine_log s))"

lemma atmis_wf_new [simp]: "atmis_wf lifecycle_state_new"
  by (simp add: atmis_wf_def lifecycle_state_new_def)

lemma atmis_abs_new [simp]: "atmis_abs lifecycle_state_new = empty_store"
  by (simp add: atmis_abs_def lifecycle_state_new_def empty_store_def)

lemma atmis_abs_sel [simp]:
  "st_heads (atmis_abs s) i = bt_get (heads s) (head_key i)"
  "st_versions (atmis_abs s) i v = bt_get (versions s) (version_key i v)"
  "st_staging (atmis_abs s) i v = bt_get (staging s) (staging_key i v)"
  "st_operations (atmis_abs s) i k = bt_get (operations s) (operation_storage_key i k)"
  "st_quarantine (atmis_abs s) = quarantine_log s"
  by (simp_all add: atmis_abs_def)

text \<open>A range scan from a prefix, cut at the first key without it, is the filter by the prefix.\<close>

lemma prefix_scan:
  fixes xs :: "(('a :: linorder) list \<times> 'v) list"
  assumes "sorted_wrt (<) (map fst xs)"
  shows "takeWhile (\<lambda>(k, _). prefix p k) (dropWhile (\<lambda>(k, _). k < p) xs) =
    filter (\<lambda>(k, _). prefix p k) xs"
  using assms
proof (induction xs)
  case (Cons x xs)
  obtain k v where x: "x = (k, v)" by force
  show ?case
  proof (cases "k < p")
    case True
    then have "\<not> prefix p k" using prefix_le leD by blast
    with True Cons show ?thesis by (simp add: x)
  next
    case False
    have later: "p \<le> k'" "k \<le> k'" if "(k', v') \<in> set xs" for k' v'
      using that False Cons.prems by (force simp: x)+
    have drop: "dropWhile (\<lambda>(k, _). k < p) xs = xs"
    proof (cases xs)
      case (Cons y ys)
      then have "\<not> fst y < p" using later(1) [of "fst y" "snd y"] by (simp add: not_less)
      with Cons show ?thesis by (simp add: case_prod_beta)
    qed simp
    show ?thesis
    proof (cases "prefix p k")
      case True
      with False Cons drop show ?thesis by (simp add: x)
    next
      case noprefix: False
      have "\<not> prefix p k'" if "(k', v') \<in> set xs" for k' v'
      proof
        assume "prefix p k'"
        then obtain t where "k' = p @ t" by (auto simp: prefix_def)
        then have "prefix p k" using between_prefix [of p k t] later(2) [OF that] False by simp
        with noprefix show False ..
      qed
      then have "filter (\<lambda>(k, _). prefix p k) xs = []" by (auto simp: filter_empty_conv)
      with False noprefix show ?thesis by (simp add: x)
    qed
  qed
qed simp

lemma range_from_prefix:
  "takeWhile (\<lambda>(k, _). prefix p k) (range_from p m) = filter (\<lambda>(k, _). prefix p k) (bt_entries m)"
  unfolding range_from_def by (rule prefix_scan [OF bt_entries_sorted])

lemma first_staged_filter:
  "first_staged s p =
     (case filter (\<lambda>(k, _). prefix p k) (bt_entries (staging s)) of [] \<Rightarrow> None | x # _ \<Rightarrow> Some x)"
  unfolding range_from_prefix [symmetric]
  by (auto simp: first_staged_def split: list.splits)

lemma first_staged_None:
  assumes "atmis_wf s"
  shows "first_staged s (index_prefix i) = None \<longleftrightarrow> nothing_staged (atmis_abs s) i"
proof -
  have "(\<forall>v. bt_get (staging s) (staging_key i v) = None) \<longleftrightarrow>
      (\<forall>k x. bt_get (staging s) k = Some x \<longrightarrow> \<not> prefix (index_prefix i) k)"
    using assms by (auto simp: atmis_wf_def staging_key_def)
  moreover have "filter (\<lambda>(k, _). prefix (index_prefix i) k) (bt_entries (staging s)) = [] \<longleftrightarrow>
      (\<forall>k x. bt_get (staging s) k = Some x \<longrightarrow> \<not> prefix (index_prefix i) k)"
    by (auto simp: filter_empty_conv bt_entries_iff)
  ultimately show ?thesis
    by (cases "filter (\<lambda>(k, _). prefix (index_prefix i) k) (bt_entries (staging s))")
      (auto simp: first_staged_filter nothing_staged_def)
qed

lemma first_staged_Some:
  assumes wf: "atmis_wf s" and first: "first_staged s (index_prefix i) = Some (key, m)"
  shows "\<exists>v. key = staging_key i v \<and> lowest_staged (atmis_abs s) i v \<and>
    st_staging (atmis_abs s) i v = Some m"
proof -
  let ?f = "filter (\<lambda>(k, _). prefix (index_prefix i) k) (bt_entries (staging s))"
  from first obtain rest where f: "?f = (key, m) # rest"
    by (auto simp: first_staged_filter split: list.splits)
  then have "(key, m) \<in> set ?f" by simp
  then have get: "bt_get (staging s) key = Some m" and pre: "prefix (index_prefix i) key"
    by (auto simp: bt_entries_iff)
  from wf get obtain j v where "key = staging_key j v" by (auto simp: atmis_wf_def)
  with pre have key: "key = staging_key i v" by (simp add: staging_key_def)
  have "v \<le> w" if "bt_get (staging s) (staging_key i w) = Some x" for w x
  proof -
    have "(staging_key i w, x) \<in> set ?f"
      using that by (simp add: bt_entries_iff staging_key_def)
    moreover have "sorted_wrt (\<lambda>a b. fst a < fst b) ?f"
      using bt_entries_sorted [of "staging s"] by (simp add: sorted_wrt_map sorted_wrt_filter)
    ultimately have "key = staging_key i w \<or> key < staging_key i w"
      unfolding f by auto
    then show ?thesis by (auto simp: key staging_key_def version_key_less_iff)
  qed
  then have "lowest_staged (atmis_abs s) i v" using get by (auto simp: lowest_staged_def key)
  with get key show ?thesis by auto
qed

section \<open>Every method meets its contract\<close>

lemma lock_state_simps [simp]:
  "poisoned s \<Longrightarrow> lock_state s = Inl (Persistence LifecycleStatePoisoned)"
  "\<not> poisoned s \<Longrightarrow> lock_state s = Inr s"
  by (simp_all add: lock_state_def)

lemma parse_staging_key [simp]: "parse_staging (staging_key i v) = Inr (i, v)"
  by (simp add: parse_staging_def staging_key_def parse_version_iff)

lemma reads_lock: "reads (and_then (lock_state s) (\<lambda>s. Inr (f s))) (f s)"
  by (cases "poisoned s") (auto simp: reads_def)

lemma atmis_read_staging_view:
  assumes "atmis_wf s"
  shows "\<exists>x. reads (atmis_read_staging s i) x \<and> staged_view (atmis_abs s) i x"
proof (cases "first_staged s (index_prefix i)")
  case None
  with assms have "staged_view (atmis_abs s) i None"
    by (simp add: staged_view_def first_staged_None)
  moreover have "reads (atmis_read_staging s i) None"
    using None by (cases "poisoned s") (auto simp: reads_def atmis_read_staging_def)
  ultimately show ?thesis by blast
next
  case (Some km)
  obtain key m where km: "km = (key, m)" by force
  with Some first_staged_Some [OF assms, of i key m] obtain v where v: "key = staging_key i v"
    "staged_view (atmis_abs s) i (Some (v, m))" by (auto simp: staged_view_def)
  moreover have "reads (atmis_read_staging s i) (Some (v, m))"
    using Some km v(1) by (cases "poisoned s") (auto simp: reads_def atmis_read_staging_def)
  ultimately show ?thesis by blast
qed

lemma refuse_staged_cases:
  assumes "atmis_wf s"
  obtains (clear) "refuse_staged s i (index_prefix i) = Inr ()" "nothing_staged (atmis_abs s) i"
    | (staged) v where "refuse_staged s i (index_prefix i) = Inl (StagedStateExists i v)"
        "lowest_staged (atmis_abs s) i v"
proof (cases "first_staged s (index_prefix i)")
  case None
  show ?thesis
  proof (rule clear)
    show "refuse_staged s i (index_prefix i) = Inr ()" using None by (simp add: refuse_staged_def)
    show "nothing_staged (atmis_abs s) i" using None assms by (simp add: first_staged_None)
  qed
next
  case (Some km)
  obtain key m where km: "km = (key, m)" by force
  with Some first_staged_Some [OF assms, of i key m] obtain v where
    "key = staging_key i v" "lowest_staged (atmis_abs s) i v" by auto
  with Some km show ?thesis by (intro staged) (simp_all add: refuse_staged_def)
qed

text \<open>
  One shape for all four writes: a well-formed, unpoisoned state either refuses as the
  specification does or moves to a well-formed state with the specified abstraction.
\<close>

lemma under_lock_obeys:
  assumes "under_lock body s = (r, s')" "atmis_wf s"
    and "\<And>e. \<not> poisoned s \<Longrightarrow> body s = Inl e \<Longrightarrow>
      spec (atmis_abs s) (Inl e) (atmis_abs s) \<or> (\<exists>src. e = Persistence src)"
    and "\<And>t. \<not> poisoned s \<Longrightarrow> body s = Inr t \<Longrightarrow>
      atmis_wf t \<and> spec (atmis_abs s) (Inr ()) (atmis_abs t)"
  shows "atmis_wf s' \<and> obeys spec (atmis_abs s) r (atmis_abs s')"
proof (cases "poisoned s")
  case True
  with assms(1,2) show ?thesis by (auto simp: under_lock_def obeys_def)
next
  case False
  with assms show ?thesis by (cases "body s") (auto simp: under_lock_def obeys_def)
qed

lemmas atmis_checks = check_head_def refuse_stored_version_def refuse_recorded_def
  check_marker_def check_payload_def

lemma fold_bt_remove: "bt_get (fold bt_remove ks m) k = (if k \<in> set ks then None else bt_get m k)"
  by (induction ks arbitrary: m) (auto simp: btree_simps)

lemma atmis_stage_obeys:
  assumes "atmis_wf s" "atmis_stage w s = (r, s')"
  shows "atmis_wf s' \<and> obeys (spec_stage w) (atmis_abs s) r (atmis_abs s')"
proof (rule under_lock_obeys [OF assms(2) [unfolded atmis_stage_def] assms(1)], goal_cases)
  case (1 e)
  from assms(1) show ?case
    by (rule refuse_staged_cases [where i = "sw_index w"])
      (use 1 in \<open>auto simp: Let_def and_then_Inl_iff atmis_checks intro: spec_stage.intros split: if_splits\<close>)
next
  case (2 t)
  from assms(1) show ?case
    by (rule refuse_staged_cases [where i = "sw_index w"])
      (use 2 assms(1) in \<open>auto simp: Let_def res_simps atmis_checks atmis_wf_def atmis_abs_def btree_simps
         staging_key_def fun_eq_iff spec_stage.simps split: if_splits\<close>)
qed

lemma atmis_publish_obeys:
  assumes "atmis_wf s" "atmis_publish w s = (r, s')"
  shows "atmis_wf s' \<and> obeys (spec_publish w) (atmis_abs s) r (atmis_abs s')"
proof (rule under_lock_obeys [OF assms(2) [unfolded atmis_publish_def] assms(1)], goal_cases)
  case (1 e)
  then show ?case
    by (auto simp: Let_def and_then_Inl_iff atmis_checks spec_publish.simps split: if_splits)
next
  case (2 t)
  then show ?case
    using assms(1) by (auto simp: Let_def res_simps atmis_checks atmis_wf_def btree_simps
      staging_key_def atmis_abs_def fun_eq_iff spec_publish.simps split: if_splits)
qed

lemma atmis_destroy_obeys:
  assumes "atmis_wf s" "atmis_destroy w s = (r, s')"
  shows "atmis_wf s' \<and> obeys (spec_destroy w) (atmis_abs s) r (atmis_abs s')"
proof (rule under_lock_obeys [OF assms(2) [unfolded atmis_destroy_def] assms(1)], goal_cases)
  case (1 e)
  from assms(1) show ?case
    by (rule refuse_staged_cases [where i = "dw_index w"])
      (use 1 in \<open>auto simp: Let_def and_then_Inl_iff atmis_checks intro: spec_destroy.intros split: if_splits\<close>)
next
  case (2 t)
  from assms(1) show ?case
    by (rule refuse_staged_cases [where i = "dw_index w"])
      (use 2 assms(1) in \<open>auto simp: Let_def res_simps atmis_checks atmis_wf_def atmis_abs_def btree_simps
         fold_bt_remove image_iff staging_key_def fun_eq_iff spec_destroy.simps split: if_splits\<close>)
qed

lemma next_sequence_above:
  assumes "atmis_wf s" "next_sequence s = Inr n"
  shows "\<forall>e \<in> set (quarantine_log s). qe_sequence e < n"
proof (cases "quarantine_log s" rule: rev_cases)
  case (snoc es e)
  have "\<forall>x \<in> set es. qe_sequence x < qe_sequence e"
    using assms(1) by (auto simp: atmis_wf_def snoc sorted_wrt_append)
  moreover have "n = qe_sequence e + 1"
    using assms(2) by (auto simp: next_sequence_def snoc usize_checked_add_def split: if_splits)
  ultimately show ?thesis by (auto simp: snoc)
qed simp

lemma atmis_quarantine_obeys:
  assumes "atmis_wf s" "atmis_quarantine w s = (r, s')"
  shows "atmis_wf s' \<and> obeys (spec_quarantine w) (atmis_abs s) r (atmis_abs s')"
proof (rule under_lock_obeys [OF assms(2) [unfolded atmis_quarantine_def] assms(1)], goal_cases)
  case (1 e)
  then show ?case
    by (auto simp: Let_def and_then_Inl_iff atmis_checks spec_quarantine.simps next_sequence_def
      usize_checked_add_def split: if_splits)
next
  case (2 t)
  then obtain n where n: "next_sequence s = Inr n" and t: "t = s\<lparr>
      versions := bt_remove (version_key (qw_index w) (qw_version w)) (versions s),
      staging := bt_remove (staging_key (qw_index w) (qw_version w)) (staging s),
      quarantine_log := quarantine_log s @ [\<lparr>qe_sequence = n, qe_index = qw_index w,
        qe_version = qw_version w, qe_marker = qw_marker w,
        qe_payload = bt_get (versions s) (version_key (qw_index w) (qw_version w))\<rparr>]\<rparr>"
    and m: "bt_get (staging s) (staging_key (qw_index w) (qw_version w)) = Some (qw_marker w)"
    by (auto simp: Let_def res_simps atmis_checks split: if_splits)
  note above = next_sequence_above [OF assms(1) n]
  have "atmis_wf t" using assms(1) above
    by (auto simp: t atmis_wf_def btree_simps sorted_wrt_append)
  moreover have "spec_quarantine w (atmis_abs s) (Inr ()) (atmis_abs t)"
    using above m by (auto simp: t atmis_abs_def fun_eq_iff btree_simps staging_key_def spec_quarantine.simps)
  ultimately show ?case ..
qed

text \<open>The adapter is a lifecycle store, and a reliable one while its lock is not poisoned.\<close>

lemma atmis_backend_sel [simp]:
  "b_read_head atmis_backend = atmis_read_head" "b_read_version atmis_backend = atmis_read_version"
  "b_read_operation atmis_backend = atmis_read_operation"
  "b_read_staging atmis_backend = atmis_read_staging" "b_stage atmis_backend = atmis_stage"
  "b_publish atmis_backend = atmis_publish" "b_destroy atmis_backend = atmis_destroy"
  "b_quarantine atmis_backend = atmis_quarantine"
  by (simp_all add: atmis_backend_def)

lemma under_lock_poisoned: "under_lock body s = (r, s') \<Longrightarrow> (\<And>t. body s = Inr t \<Longrightarrow> poisoned t = poisoned s) \<Longrightarrow>
    poisoned s' = poisoned s"
  by (cases "poisoned s"; cases "body s") (auto simp: under_lock_def)

lemma atmis_poison_kept:
  "atmis_stage sw s = (r, s') \<Longrightarrow> poisoned s' = poisoned s"
  "atmis_publish pw s = (r, s') \<Longrightarrow> poisoned s' = poisoned s"
  "atmis_destroy dw s = (r, s') \<Longrightarrow> poisoned s' = poisoned s"
  "atmis_quarantine qw s = (r, s') \<Longrightarrow> poisoned s' = poisoned s"
  unfolding atmis_stage_def atmis_publish_def atmis_destroy_def atmis_quarantine_def
  by (erule under_lock_poisoned; auto simp: Let_def res_simps)+

interpretation atmis: lifecycle_store atmis_backend atmis_abs atmis_wf
proof unfold_locales
qed (auto simp: atmis_read_head_def atmis_read_version_def atmis_read_operation_def
  intro!: reads_lock atmis_read_staging_view atmis_stage_obeys atmis_publish_obeys
    atmis_destroy_obeys atmis_quarantine_obeys)

lemma under_lock_persistence:
  "\<not> poisoned s \<Longrightarrow> fst (under_lock body s) = Inl (Persistence src) \<Longrightarrow> body s = Inl (Persistence src)"
  by (cases "body s") (auto simp: under_lock_def)

lemma refuse_staged_not_persistence:
  "atmis_wf s \<Longrightarrow> refuse_staged s i (index_prefix i) \<noteq> Inl (Persistence src)"
  by (rule refuse_staged_cases [of s i]) simp_all

lemma atmis_reads_succeed:
  assumes "\<not> poisoned s" "atmis_wf s"
  shows "atmis_read_head s i \<noteq> Inl e" "atmis_read_version s i v \<noteq> Inl e"
    "atmis_read_operation s i k \<noteq> Inl e" "atmis_read_staging s i \<noteq> Inl e"
  using assms first_staged_Some [OF assms(2), of i]
  by (auto simp: atmis_read_head_def atmis_read_version_def atmis_read_operation_def
    atmis_read_staging_def and_then_Inl_iff split: option.splits prod.splits)

lemma atmis_writes_succeed:
  assumes "\<not> poisoned s" "atmis_wf s"
  shows "fst (atmis_stage sw s) \<noteq> Inl (Persistence src)"
    "fst (atmis_publish pw s) \<noteq> Inl (Persistence src)"
    "fst (atmis_destroy dw s) \<noteq> Inl (Persistence src)"
  using assms refuse_staged_not_persistence [OF assms(2)]
  by (auto simp: atmis_stage_def atmis_publish_def atmis_destroy_def Let_def and_then_Inl_iff atmis_checks
    dest!: under_lock_persistence split: if_splits)

interpretation atmis_live: reliable_store atmis_backend atmis_abs "\<lambda>s. atmis_wf s \<and> \<not> poisoned s"
proof unfold_locales
qed (auto simp: atmis_reads_succeed atmis_writes_succeed dest: atmis_poison_kept
  intro: atmis.read_head [simplified] atmis.read_version [simplified] atmis.read_operation [simplified]
    atmis.read_staging [simplified] atmis_stage_obeys [THEN conjunct1] atmis_stage_obeys [THEN conjunct2]
    atmis_publish_obeys [THEN conjunct1] atmis_publish_obeys [THEN conjunct2]
    atmis_destroy_obeys [THEN conjunct1] atmis_destroy_obeys [THEN conjunct2]
    atmis_quarantine_obeys [THEN conjunct1] atmis_quarantine_obeys [THEN conjunct2])

section \<open>Listings are complete\<close>

lemma map_res_keyed:
  assumes "\<And>k x. (k, x) \<in> set xs \<Longrightarrow> \<exists>y. f (k, x) = Inr (g y, x) \<and> k = render y"
  shows "\<exists>ys. map_res f xs = Inr (map (\<lambda>(y, x). (g y, x)) ys) \<and> xs = map (\<lambda>(y, x). (render y, x)) ys"
  using assms
proof (induction xs)
  case (Cons kx xs)
  obtain k x where kx: "kx = (k, x)" by force
  from Cons.prems [of k x] obtain y where "f (k, x) = Inr (g y, x)" "k = render y"
    by (auto simp: kx)
  moreover from Cons obtain ys where "map_res f xs = Inr (map (\<lambda>(y, x). (g y, x)) ys)"
    "xs = map (\<lambda>(y, x). (render y, x)) ys" by fastforce
  ultimately show ?case by (intro exI [of _ "(y, x) # ys"]) (simp add: kx)
qed simp

text \<open>\<open>list_heads\<close>: every head once, in ascending key order.\<close>

lemma atmis_list_heads_complete:
  assumes "atmis_wf s" "\<not> poisoned s"
  shows "\<exists>hs. atmis_list_heads s = Inr hs \<and> sorted_wrt (<) (map (\<lambda>(i, _). head_key i) hs) \<and>
    set hs = {(i, h). st_heads (atmis_abs s) i = Some h}"
proof -
  let ?f = "\<lambda>(key, head). and_then (parse_head key) (\<lambda>i. Inr (i, head))"
  have "\<exists>ys. map_res ?f (bt_entries (heads s)) = Inr (map (\<lambda>(y, x). (id y, x)) ys) \<and>
      bt_entries (heads s) = map (\<lambda>(y, x). (head_key y, x)) ys"
    by (rule map_res_keyed)
      (use assms in \<open>auto simp: bt_entries_iff atmis_wf_def parse_head_iff res_simps\<close>)
  then obtain ys where ys: "map_res ?f (bt_entries (heads s)) = Inr ys"
    "bt_entries (heads s) = map (\<lambda>(y, x). (head_key y, x)) ys" by auto
  have "sorted_wrt (<) (map fst (bt_entries (heads s)))"
    using bt_entries_sorted [of "heads s"] by (simp add: sorted_wrt_map)
  then have "sorted_wrt (<) (map (\<lambda>(i, _). head_key i) ys)"
    by (simp add: ys(2) sorted_wrt_map case_prod_beta)
  moreover have "set ys = {(i, h). st_heads (atmis_abs s) i = Some h}"
    by (auto simp: bt_entries_iff [symmetric] ys(2) image_iff split: prod.splits)
  ultimately show ?thesis using ys(1) assms(2) by (auto simp: atmis_list_heads_def)
qed

text \<open>\<open>list_operations\<close>: every operation record of the index once, in ascending key order.\<close>

lemma atmis_list_operations_complete:
  assumes "atmis_wf s" "\<not> poisoned s"
  shows "\<exists>os. atmis_list_operations s i = Inr os \<and> sorted_wrt (<) (map fst os) \<and>
    set os = {(k, x). st_operations (atmis_abs s) i k = Some x}"
proof -
  let ?f = "\<lambda>(key, operation). and_then (parse_operation key) (\<lambda>(_, k). Inr (k, operation))"
  let ?xs = "filter (\<lambda>(k, _). prefix (index_prefix i) k) (bt_entries (operations s))"
  have "\<exists>ys. map_res ?f ?xs = Inr (map (\<lambda>(y, x). (id y, x)) ys) \<and>
      ?xs = map (\<lambda>(y, x). (operation_storage_key i y, x)) ys"
  proof (rule map_res_keyed)
    fix k x assume "(k, x) \<in> set ?xs"
    then obtain j l where "k = operation_storage_key j l" "j = i"
      using assms(1) by (fastforce simp: bt_entries_iff atmis_wf_def)
    then show "\<exists>y. ?f (k, x) = Inr (id y, x) \<and> k = operation_storage_key i y"
      by (auto simp: parse_operation_iff res_simps)
  qed
  then obtain ys where ys: "map_res ?f ?xs = Inr ys"
    "?xs = map (\<lambda>(y, x). (operation_storage_key i y, x)) ys" by auto
  have "sorted_wrt (\<lambda>a b. fst a < fst b) ?xs"
    using bt_entries_sorted [of "operations s"] by (simp add: sorted_wrt_map sorted_wrt_filter)
  then have "sorted_wrt (<) (map fst ys)"
    by (simp add: ys(2) sorted_wrt_map case_prod_beta operation_key_less_iff)
  moreover have "(k, x) \<in> set ys \<longleftrightarrow> (operation_storage_key i k, x) \<in> set ?xs" for k x
    by (auto simp: ys(2) image_iff split: prod.splits)
  then have "set ys = {(k, x). st_operations (atmis_abs s) i k = Some x}"
    by (auto simp: bt_entries_iff)
  ultimately show ?thesis using ys(1) assms(2)
    by (auto simp: atmis_list_operations_def range_from_prefix)
qed

section \<open>Histories\<close>

abbreviation atmis_after :: "'b write_call list \<Rightarrow> 'b lifecycle_state" where
  "atmis_after calls \<equiv> b_run atmis_backend calls lifecycle_state_new"

lemma not_poisoned_new [simp]: "\<not> poisoned lifecycle_state_new"
  by (simp add: lifecycle_state_new_def)

lemma atmis_after_wf: "atmis_wf (atmis_after calls) \<and> \<not> poisoned (atmis_after calls)"
  using atmis_live.run_inv [of lifecycle_state_new calls] by simp

lemma atmis_quarantine_persistence:
  assumes "\<not> poisoned s" "atmis_quarantine w s = (Inl (Persistence src), s')"
  shows "src = QuarantineSequenceExhausted AtmisAdapter \<and> s' = s"
proof -
  have "fst (atmis_quarantine w s) = Inl (Persistence src)" using assms(2) by simp
  then have "src = QuarantineSequenceExhausted AtmisAdapter"
    using assms(1) by (auto simp: atmis_quarantine_def Let_def and_then_Inl_iff atmis_checks
      next_sequence_def dest!: under_lock_persistence split: if_splits option.splits)
  moreover have "s' = s"
    using assms(2) by (auto simp: atmis_quarantine_def under_lock_def split: sum.splits)
  ultimately show ?thesis ..
qed

lemma atmis_write_spec:
  assumes "atmis_wf s" "\<not> poisoned s" "b_write atmis_backend c s = (r, s')"
  shows "spec_write c (atmis_abs s) r (atmis_abs s') \<or>
    (\<exists>w. c = QuarantineCall w) \<and> r = Inl (Persistence (QuarantineSequenceExhausted AtmisAdapter)) \<and> s' = s"
proof -
  have "obeys (spec_write c) (atmis_abs s) r (atmis_abs s')"
    using atmis.write_obeys [OF assms(1,3)] ..
  moreover have "(\<exists>w. c = QuarantineCall w) \<and> src = QuarantineSequenceExhausted AtmisAdapter \<and> s' = s"
    if "r = Inl (Persistence src)" for src
    using that assms atmis_writes_succeed [OF assms(2,1)] atmis_quarantine_persistence [of s]
    by (cases c; auto simp: prod_eq_iff)
  ultimately show ?thesis by (auto simp: obeys_def)
qed

section \<open>Properties\<close>

text \<open>
  C24: after any history of writes on a fresh in-memory adapter, every further write does
  exactly what the storage contract says: it makes the contract's checks in the contract's
  order, a refusal leaves the store as it was and an accepted write has the contract's whole
  effect. The one other outcome is a quarantine whose sequence counter is exhausted, which
  changes nothing.
\<close>

theorem atmis_writes_refine_contract:
  "case b_write atmis_backend c (atmis_after calls) of (r, s') \<Rightarrow>
     spec_write c (atmis_abs (atmis_after calls)) r (atmis_abs s') \<or>
     (\<exists>w. c = QuarantineCall w) \<and> r = Inl (Persistence (QuarantineSequenceExhausted AtmisAdapter)) \<and>
       s' = atmis_after calls"
  using atmis_write_spec [of "atmis_after calls" c] atmis_after_wf [of calls] by (auto split: prod.splits)

text \<open>
  C33: in every state an in-memory adapter reaches, a staged marker has its payload stored
  beside it, an index has at most one staged version, and quarantined entries carry strictly
  ascending sequence numbers.
\<close>

theorem atmis_reachable_store_inv: "store_inv (atmis_abs (atmis_after calls))"
  using atmis.run_store_inv [of lifecycle_state_new calls] by simp

text \<open>
  C34: no later call on an in-memory adapter loses an index's head, changes or drops a
  recorded operation, or touches a quarantined entry.
\<close>

theorem atmis_history_grows:
  "store_grows (atmis_abs (atmis_after calls)) (atmis_abs (atmis_after (calls @ later)))"
proof -
  have "atmis_wf (atmis_after calls)" using atmis_after_wf by blast
  then have "store_grows (atmis_abs (atmis_after calls))
      (atmis_abs (b_run atmis_backend later (atmis_after calls)))"
    by (rule atmis.run_grows)
  then show ?thesis by (simp add: b_run_def)
qed

text \<open>
  The reads of a reachable in-memory adapter succeed and return what is stored: the head,
  version and operation under their keys, and from \<open>read_staging\<close> the lowest staged version
  with its marker, or nothing when nothing is staged.
\<close>

theorem atmis_reads_stored:
  "atmis_read_head (atmis_after calls) i = Inr (st_heads (atmis_abs (atmis_after calls)) i) \<and>
   atmis_read_version (atmis_after calls) i v = Inr (st_versions (atmis_abs (atmis_after calls)) i v) \<and>
   atmis_read_operation (atmis_after calls) i k = Inr (st_operations (atmis_abs (atmis_after calls)) i k) \<and>
   (\<exists>x. atmis_read_staging (atmis_after calls) i = Inr x \<and> staged_view (atmis_abs (atmis_after calls)) i x)"
proof -
  have "\<exists>x. reads (atmis_read_staging (atmis_after calls) i) x \<and>
      staged_view (atmis_abs (atmis_after calls)) i x"
    using atmis_after_wf atmis_read_staging_view by blast
  then show ?thesis
    using atmis_after_wf [of calls] atmis_reads_succeed(4) [of "atmis_after calls" i]
    by (auto simp: atmis_read_head_def atmis_read_version_def atmis_read_operation_def reads_def)
qed

text \<open>
  The listings of a reachable in-memory adapter are complete and ordered: \<open>list_heads\<close>
  returns every head once in ascending key order, and \<open>list_operations\<close> every record of the
  asked index, and only those, once in ascending key order.
\<close>

theorem atmis_listings_complete:
  "(\<exists>hs. atmis_list_heads (atmis_after calls) = Inr hs \<and>
     sorted_wrt (<) (map (\<lambda>(i, _). head_key i) hs) \<and>
     set hs = {(i, h). st_heads (atmis_abs (atmis_after calls)) i = Some h}) \<and>
   (\<exists>os. atmis_list_operations (atmis_after calls) i = Inr os \<and> sorted_wrt (<) (map fst os) \<and>
     set os = {(k, x). st_operations (atmis_abs (atmis_after calls)) i k = Some x})"
  using atmis_list_heads_complete atmis_list_operations_complete atmis_after_wf by blast

text \<open>
  Once a holder of the adapter's lock panicked, every write is refused as a storage
  failure and changes nothing, and so is every read.
\<close>

theorem atmis_poisoned_refuses:
  "b_write atmis_backend c (s\<lparr>poisoned := True\<rparr>) =
     (Inl (Persistence LifecycleStatePoisoned), s\<lparr>poisoned := True\<rparr>) \<and>
   atmis_read_head (s\<lparr>poisoned := True\<rparr>) i = Inl (Persistence LifecycleStatePoisoned)"
  by (cases c) (simp_all add: atmis_stage_def atmis_publish_def atmis_destroy_def atmis_quarantine_def
    under_lock_def atmis_read_head_def)

end
