(* ===== verification/Floats.thy ===== *)
theory Floats
  imports Vocabulary "HOL-Library.Product_Lexorder" "HOL-Library.Multiset"
begin

text \<open>
  IEEE 754 arithmetic on bit patterns, round to nearest, ties to even: what the engines use
  of Rust's \<open>f32\<close> and \<open>f64\<close> (\<open>+\<close>, \<open>-\<close>, \<open>*\<close>, \<open>/\<close>, \<open>sqrt\<close>, the conversions, \<open>is_finite\<close>, \<open>total_cmp\<close>).
  A finite value is \<open>(-1)^s * m * 2^e\<close> with \<open>0 \<le> m\<close>; every operation computes the
  exact result, or its quotient or root to enough bits with a sticky flag, and rounds once.
  A NaN result is the canonical quiet one (Rust leaves its payload open; no proof depends on it).
\<close>

section \<open>Formats\<close>

text \<open>Parity is evaluated by a remainder.\<close>

lemma even_int_mod [code_unfold]: "even (k :: int) \<longleftrightarrow> k mod 2 = 0"
  by (simp add: even_iff_mod_2_eq_zero)

text \<open>Powers of two with an integer exponent, by squaring (1 below zero).\<close>

function pow2 :: "int \<Rightarrow> int" where
  "pow2 k = (if k \<le> 0 then 1
     else (let h = pow2 (k div 2) in if even k then h * h else 2 * h * h))"
  by auto
termination by (relation "measure nat") auto

declare pow2.simps [simp del]

lemma pow2_eq: "pow2 k = 2 ^ nat k"
proof (induction k rule: pow2.induct)
  case (1 k)
  show ?case
  proof (cases "k \<le> 0")
    case False
    define j where "j = nat (k div 2)"
    have j: "pow2 (k div 2) = 2 ^ j" using 1 False by (simp add: j_def)
    show ?thesis
    proof (cases "even k")
      case True
      then have "nat k = j + j" using False by (auto simp: j_def elim!: evenE)
      with True False show ?thesis by (simp add: pow2.simps [of k] j power_add Let_def)
    next
      case odd: False
      then have "nat k = Suc (j + j)" using False by (auto simp: j_def elim!: oddE)
      with odd False show ?thesis by (simp add: pow2.simps [of k] j power_add Let_def)
    qed
  qed (simp add: pow2.simps)
qed

text \<open>A format: stored fraction bits and exponent bits.\<close>

record fmt =
  f_prec :: int
  f_expo :: int

definition F32 :: fmt where "F32 = \<lparr>f_prec = 23, f_expo = 8\<rparr>"
definition F64 :: fmt where "F64 = \<lparr>f_prec = 52, f_expo = 11\<rparr>"

definition e_min :: "fmt \<Rightarrow> int" where
  "e_min f = 2 - pow2 (f_expo f - 1) - f_prec f"

definition e_field_max :: "fmt \<Rightarrow> int" where
  "e_field_max f = pow2 (f_expo f) - 1"

datatype fp = FNaN | FInf bool | FFin bool int int

text \<open>Bits to value.\<close>

definition fp_decode :: "fmt \<Rightarrow> int \<Rightarrow> fp" where
  "fp_decode f n =
     (let frac = n mod pow2 (f_prec f); rest = n div pow2 (f_prec f);
          ef = rest mod pow2 (f_expo f); s = odd (rest div pow2 (f_expo f))
      in if ef = e_field_max f then (if frac = 0 then FInf s else FNaN)
         else if ef = 0 then FFin s frac (e_min f)
         else FFin s (pow2 (f_prec f) + frac) (e_min f + ef - 1))"

text \<open>Value to bits, rounded; \<open>sticky\<close> says that a positive part below \<open>2^e\<close> was cut off.\<close>

function bit_length :: "int \<Rightarrow> int" where
  "bit_length n = (if n \<le> 0 then 0 else 1 + bit_length (n div 2))"
  by auto
termination by (relation "measure nat") auto

declare bit_length.simps [simp del]

definition sign_bits :: "fmt \<Rightarrow> bool \<Rightarrow> int" where
  "sign_bits f s = (if s then pow2 (f_prec f + f_expo f) else 0)"

definition inf_bits :: "fmt \<Rightarrow> int" where
  "inf_bits f = e_field_max f * pow2 (f_prec f)"

definition nan_bits :: "fmt \<Rightarrow> int" where
  "nan_bits f = inf_bits f + pow2 (f_prec f - 1)"

definition round_magnitude :: "fmt \<Rightarrow> int \<Rightarrow> int \<Rightarrow> bool \<Rightarrow> int" where
  "round_magnitude f m e sticky =
     (let e' = max (e + bit_length m - f_prec f - 1) (e_min f);
          m' = (if e' \<le> e then m * pow2 (e - e')
                else (let k = e' - e; q = m div pow2 k; r = m mod pow2 k; half = pow2 (k - 1)
                      in if half < r \<or> (r = half \<and> (sticky \<or> odd q)) then q + 1 else q));
          bits = (e' - e_min f) * pow2 (f_prec f) + m'
      in min bits (inf_bits f))"

definition fp_encode :: "fmt \<Rightarrow> bool \<Rightarrow> int \<Rightarrow> int \<Rightarrow> bool \<Rightarrow> int" where
  "fp_encode f s m e sticky = sign_bits f s + (if m = 0 then 0 else round_magnitude f m e sticky)"

definition inf_of :: "fmt \<Rightarrow> bool \<Rightarrow> int" where
  "inf_of f s = sign_bits f s + inf_bits f"

section \<open>Operations\<close>

fun fp_neg :: "fp \<Rightarrow> fp" where
  "fp_neg FNaN = FNaN"
| "fp_neg (FInf s) = FInf (\<not> s)"
| "fp_neg (FFin s m e) = FFin (\<not> s) m e"

definition signed :: "bool \<Rightarrow> int \<Rightarrow> int" where
  "signed s m = (if s then - m else m)"

fun fp_add :: "fmt \<Rightarrow> fp \<Rightarrow> fp \<Rightarrow> int" where
  "fp_add f FNaN y = nan_bits f"
| "fp_add f x FNaN = nan_bits f"
| "fp_add f (FInf s) (FInf t) = (if s = t then inf_of f s else nan_bits f)"
| "fp_add f (FInf s) (FFin _ _ _) = inf_of f s"
| "fp_add f (FFin _ _ _) (FInf t) = inf_of f t"
| "fp_add f (FFin s m e) (FFin t n d) =
     (let g = (if m = 0 then d else if n = 0 then e else min e d);
          z = signed s (m * pow2 (e - g)) + signed t (n * pow2 (d - g))
      in if z = 0 then sign_bits f (s \<and> t) else fp_encode f (z < 0) \<bar>z\<bar> g False)"

fun fp_mul :: "fmt \<Rightarrow> fp \<Rightarrow> fp \<Rightarrow> int" where
  "fp_mul f FNaN y = nan_bits f"
| "fp_mul f x FNaN = nan_bits f"
| "fp_mul f (FInf s) (FInf t) = inf_of f (s \<noteq> t)"
| "fp_mul f (FInf s) (FFin t n d) = (if n = 0 then nan_bits f else inf_of f (s \<noteq> t))"
| "fp_mul f (FFin s m e) (FInf t) = (if m = 0 then nan_bits f else inf_of f (s \<noteq> t))"
| "fp_mul f (FFin s m e) (FFin t n d) = fp_encode f (s \<noteq> t) (m * n) (e + d) False"

fun fp_div :: "fmt \<Rightarrow> fp \<Rightarrow> fp \<Rightarrow> int" where
  "fp_div f FNaN y = nan_bits f"
| "fp_div f x FNaN = nan_bits f"
| "fp_div f (FInf s) (FInf t) = nan_bits f"
| "fp_div f (FInf s) (FFin t n d) = inf_of f (s \<noteq> t)"
| "fp_div f (FFin s m e) (FInf t) = sign_bits f (s \<noteq> t)"
| "fp_div f (FFin s m e) (FFin t n d) =
     (if n = 0 then (if m = 0 then nan_bits f else inf_of f (s \<noteq> t))
      else (let k = f_prec f + 3 + bit_length n; num = m * pow2 k
            in fp_encode f (s \<noteq> t) (num div n) (e - d - k) (num mod n \<noteq> 0)))"

text \<open>The integer square root, two bits at a time.\<close>

function isqrt :: "int \<Rightarrow> int" where
  "isqrt n = (if n \<le> 0 then 0
     else (let r = 2 * isqrt (n div 4) in if (r + 1) * (r + 1) \<le> n then r + 1 else r))"
  by auto
termination by (relation "measure nat") auto

declare isqrt.simps [simp del]

fun fp_sqrt :: "fmt \<Rightarrow> fp \<Rightarrow> int" where
  "fp_sqrt f FNaN = nan_bits f"
| "fp_sqrt f (FInf s) = (if s then nan_bits f else inf_of f False)"
| "fp_sqrt f (FFin s m e) =
     (if m = 0 then sign_bits f s
      else if s then nan_bits f
      else (let k = 2 * (f_prec f + 3) + (if even e then 0 else 1); n = m * pow2 k; r = isqrt n
            in fp_encode f False r ((e - k) div 2) (r * r \<noteq> n)))"

fun fp_convert :: "fmt \<Rightarrow> fp \<Rightarrow> int" where
  "fp_convert f FNaN = nan_bits f"
| "fp_convert f (FInf s) = inf_of f s"
| "fp_convert f (FFin s m e) = fp_encode f s m e False"

section \<open>\<open>f32\<close> and \<open>f64\<close>\<close>

definition dec32 :: "f32 \<Rightarrow> fp" where "dec32 x = fp_decode F32 (uint x)"
definition dec64 :: "f64 \<Rightarrow> fp" where "dec64 x = fp_decode F64 (uint x)"

definition f32_add :: "f32 \<Rightarrow> f32 \<Rightarrow> f32" where
  "f32_add x y = of_int (fp_add F32 (dec32 x) (dec32 y))"
definition f32_sub :: "f32 \<Rightarrow> f32 \<Rightarrow> f32" where
  "f32_sub x y = of_int (fp_add F32 (dec32 x) (fp_neg (dec32 y)))"
definition f32_mul :: "f32 \<Rightarrow> f32 \<Rightarrow> f32" where
  "f32_mul x y = of_int (fp_mul F32 (dec32 x) (dec32 y))"
definition f32_div :: "f32 \<Rightarrow> f32 \<Rightarrow> f32" where
  "f32_div x y = of_int (fp_div F32 (dec32 x) (dec32 y))"
definition f32_of_nat :: "nat \<Rightarrow> f32" where
  "f32_of_nat n = of_int (fp_encode F32 False (int n) 0 False)"

definition f64_add :: "f64 \<Rightarrow> f64 \<Rightarrow> f64" where
  "f64_add x y = of_int (fp_add F64 (dec64 x) (dec64 y))"
definition f64_sub :: "f64 \<Rightarrow> f64 \<Rightarrow> f64" where
  "f64_sub x y = of_int (fp_add F64 (dec64 x) (fp_neg (dec64 y)))"
definition f64_mul :: "f64 \<Rightarrow> f64 \<Rightarrow> f64" where
  "f64_mul x y = of_int (fp_mul F64 (dec64 x) (dec64 y))"
definition f64_div :: "f64 \<Rightarrow> f64 \<Rightarrow> f64" where
  "f64_div x y = of_int (fp_div F64 (dec64 x) (dec64 y))"
definition f64_sqrt :: "f64 \<Rightarrow> f64" where
  "f64_sqrt x = of_int (fp_sqrt F64 (dec64 x))"
definition f64_of_nat :: "nat \<Rightarrow> f64" where
  "f64_of_nat n = of_int (fp_encode F64 False (int n) 0 False)"
definition f64_neg :: "f64 \<Rightarrow> f64" where
  "f64_neg x = x XOR push_bit 63 1"

definition f64_of_f32 :: "f32 \<Rightarrow> f64" where
  "f64_of_f32 x = of_int (fp_convert F64 (dec32 x))"
definition f32_of_f64 :: "f64 \<Rightarrow> f32" where
  "f32_of_f64 x = of_int (fp_convert F32 (dec64 x))"

fun fp_finite :: "fp \<Rightarrow> bool" where
  "fp_finite (FFin _ _ _) = True"
| "fp_finite _ = False"

definition f32_is_finite :: "f32 \<Rightarrow> bool" where "f32_is_finite x = fp_finite (dec32 x)"
definition f64_is_finite :: "f64 \<Rightarrow> bool" where "f64_is_finite x = fp_finite (dec64 x)"

fun fp_is_zero :: "fp \<Rightarrow> bool" where
  "fp_is_zero (FFin _ m _) = (m = 0)"
| "fp_is_zero _ = False"

fun fp_positive :: "fp \<Rightarrow> bool" where
  "fp_positive (FFin s m _) = (\<not> s \<and> m \<noteq> 0)"
| "fp_positive (FInf s) = (\<not> s)"
| "fp_positive FNaN = False"

text \<open>
  \<open>total_cmp\<close>: the bits as a signed integer, the low bits of a negative one inverted. The
  keys order as the patterns do, so a sort by them is a sort by \<open>total_cmp\<close>.
\<close>

definition total_key64 :: "f64 \<Rightarrow> int" where
  "total_key64 x = sint (x XOR drop_bit 1 (signed_drop_bit 63 x))"
definition total_key32 :: "f32 \<Rightarrow> int" where
  "total_key32 x = sint (x XOR drop_bit 1 (signed_drop_bit 31 x))"

definition f64_inf :: f64 where "f64_inf = 0x7ff0000000000000"
definition f64_one :: f64 where "f64_one = 0x3ff0000000000000"
definition f64_zero :: f64 where "f64_zero = 0"
definition f64_neg_zero :: f64 where "f64_neg_zero = 0x8000000000000000"

section \<open>\<open>total_cmp\<close> is a total order on bit patterns\<close>

lemma total_key64_inject [simp]: "total_key64 x = total_key64 y \<longleftrightarrow> x = y"
proof
  assume "total_key64 x = total_key64 y"
  then have eq: "x XOR drop_bit 1 (signed_drop_bit 63 x) = y XOR drop_bit 1 (signed_drop_bit 63 y)"
    unfolding total_key64_def by (rule signed_word_eqI)
  have bits: "bit (z XOR drop_bit 1 (signed_drop_bit 63 z)) n \<longleftrightarrow> (bit z n \<noteq> (n < 63 \<and> bit z 63))"
    if "n < 64" for z :: f64 and n
    using that by (auto simp: bit_simps dest: bit_imp_le_length)
  show "x = y"
  proof (rule bit_word_eqI)
    fix n assume "n < LENGTH(64)"
    then show "bit x n \<longleftrightarrow> bit y n"
      using bits [of 63 x] bits [of 63 y] bits [of n x] bits [of n y] eq by auto
  qed
qed simp

lemma total_key32_inject [simp]: "total_key32 x = total_key32 y \<longleftrightarrow> x = y"
proof
  assume "total_key32 x = total_key32 y"
  then have eq: "x XOR drop_bit 1 (signed_drop_bit 31 x) = y XOR drop_bit 1 (signed_drop_bit 31 y)"
    unfolding total_key32_def by (rule signed_word_eqI)
  have bits: "bit (z XOR drop_bit 1 (signed_drop_bit 31 z)) n \<longleftrightarrow> (bit z n \<noteq> (n < 31 \<and> bit z 31))"
    if "n < 32" for z :: f32 and n
    using that by (auto simp: bit_simps dest: bit_imp_le_length)
  show "x = y"
  proof (rule bit_word_eqI)
    fix n assume "n < LENGTH(32)"
    then show "bit x n \<longleftrightarrow> bit y n"
      using bits [of 31 x] bits [of 31 y] bits [of n x] bits [of n y] eq by auto
  qed
qed simp

section \<open>Addition commutes\<close>

lemma fp_add_comm: "fp_add f x y = fp_add f y x"
  by (cases x; cases y) (auto simp: Let_def signed_def min.commute add.commute conj_commute)

lemma f64_add_comm: "f64_add x y = f64_add y x"
  by (simp add: f64_add_def fp_add_comm)

section \<open>Bit lengths and integer roots\<close>

lemma bit_length_nonneg [simp]: "0 \<le> bit_length n"
  by (induction n rule: bit_length.induct) (subst bit_length.simps, auto)

lemma bit_length_bounds: "0 < n \<Longrightarrow> 2 ^ nat (bit_length n - 1) \<le> n \<and> n < 2 ^ nat (bit_length n)"
proof (induction n rule: bit_length.induct)
  case (1 n)
  show ?case
  proof (cases "n = 1")
    case False
    then have pos: "0 < n div 2" using 1 by simp
    with 1 have IH: "2 ^ nat (bit_length (n div 2) - 1) \<le> n div 2" "n div 2 < 2 ^ nat (bit_length (n div 2))"
      by auto
    then have b: "1 \<le> bit_length (n div 2)" using pos by (subst bit_length.simps) simp
    then have "nat (bit_length n - 1) = Suc (nat (bit_length (n div 2) - 1))"
      "nat (bit_length n) = Suc (nat (bit_length (n div 2)))"
      using "1.prems" by (simp_all add: bit_length.simps [of n])
    moreover have "2 * a \<le> n" if "a \<le> n div 2" for a using that by linarith
    moreover have "n < 2 * a" if "n div 2 < a" for a using that by linarith
    ultimately show ?thesis using IH by simp
  qed (simp add: bit_length.simps)
qed

lemma isqrt_bounds: "0 \<le> n \<Longrightarrow> 0 \<le> isqrt n \<and> isqrt n * isqrt n \<le> n \<and> n < (isqrt n + 1) * (isqrt n + 1)"
proof (induction n rule: isqrt.induct)
  case (1 n)
  show ?case
  proof (cases "n \<le> 0")
    case False
    define r where "r = isqrt (n div 4)"
    have IH: "0 \<le> r" "r * r \<le> n div 4" "n div 4 < (r + 1) * (r + 1)"
      using 1 False by (auto simp: r_def)
    have "2 * r * (2 * r) \<le> n" using IH(2) by (simp add: algebra_simps)
    moreover have "n < (2 * r + 2) * (2 * r + 2)"
      using IH(3) by (simp add: algebra_simps)
    ultimately show ?thesis using False IH(1)
      by (simp add: isqrt.simps [of n] Let_def r_def [symmetric] algebra_simps)
  qed (use 1 in \<open>simp add: isqrt.simps\<close>)
qed

lemma bit_length_unique: "2 ^ b \<le> n \<Longrightarrow> n < 2 ^ Suc b \<Longrightarrow> bit_length n = int (Suc b)"
proof (induction b arbitrary: n)
  case 0
  then have "n = 1" by simp
  then show ?case by (simp add: bit_length.simps [of 1] bit_length.simps [of 0])
next
  case (Suc b)
  then have "2 ^ b \<le> n div 2" "n div 2 < 2 ^ Suc b" by simp_all
  from Suc.IH [OF this] have "bit_length (n div 2) = int (Suc b)" .
  moreover have "0 < n" using Suc.prems(1) by (rule less_le_trans [rotated]) simp
  ultimately show ?case by (simp add: bit_length.simps [of n])
qed

section \<open>Exact values round to themselves\<close>

text \<open>
  A significand that fits the format, at an exponent of the format, written with any number
  of trailing zero bits, rounds to its own bits.
\<close>

lemma round_magnitude_exact:
  assumes n: "0 < n" "n < 2 ^ Suc p" and p: "f_prec f = int p"
    and d: "e_min f \<le> d" "2 ^ p \<le> n \<or> d = e_min f"
  shows "round_magnitude f (n * 2 ^ j) (d - int j) False = min ((d - e_min f) * 2 ^ p + n) (inf_bits f)"
proof -
  define b where "b = nat (bit_length n - 1)"
  have "bit_length n \<ge> 1" using n(1) by (subst bit_length.simps) simp
  then have "nat (bit_length n) = Suc b" by (simp add: b_def)
  with bit_length_bounds [OF n(1)] have b: "2 ^ b \<le> n" "n < 2 ^ Suc b" by (simp_all add: b_def)
  have "2 ^ (b + j) \<le> n * 2 ^ j" "n * 2 ^ j < 2 ^ Suc (b + j)"
    using b by (simp_all add: power_add)
  then have bl: "bit_length (n * 2 ^ j) = int (Suc (b + j))" by (rule bit_length_unique)
  have "(2::int) ^ b < 2 ^ Suc p" using b(1) n(2) by linarith
  then have "b < Suc p" by (rule power_less_imp_less_exp [rotated]) simp
  then have "b \<le> p" by simp
  moreover have "p \<le> b" if "2 ^ p \<le> n"
  proof -
    have "(2::int) ^ p < 2 ^ Suc b" using b(2) that by linarith
    then have "p < Suc b" by (rule power_less_imp_less_exp [rotated]) simp
    then show ?thesis by simp
  qed
  ultimately have e': "max (d - int j + bit_length (n * 2 ^ j) - f_prec f - 1) (e_min f) = d"
    using d by (auto simp: bl p max_def)
  show ?thesis
  proof (cases "j = 0")
    case True
    then show ?thesis using e' by (simp add: round_magnitude_def Let_def pow2_eq p)
  next
    case False
    then show ?thesis using e' by (simp add: round_magnitude_def Let_def pow2_eq p)
  qed
qed

text \<open>Adding zero on the left returns the pattern itself, NaNs and negative zero apart.\<close>

lemma fp_zero_add:
  assumes f: "f_prec f = int p" "f_expo f = int q" "0 < q" and n: "0 \<le> n" "n < 2 ^ Suc (p + q)"
    and x: "fp_decode f n \<noteq> FNaN" "\<And>e. fp_decode f n \<noteq> FFin True 0 e"
  shows "fp_add f (FFin False 0 (e_min f)) (fp_decode f n) = n"
proof -
  define frac where "frac = n mod 2 ^ p"
  define ef where "ef = n div 2 ^ p mod 2 ^ q"
  define s where "s = odd (n div 2 ^ p div 2 ^ q)"
  have bounds: "0 \<le> frac" "frac < 2 ^ p" "0 \<le> ef" "ef < 2 ^ q" by (simp_all add: frac_def ef_def)
  have "n div 2 ^ p div 2 ^ q = n div 2 ^ (p + q)" by (simp add: power_add zdiv_zmult2_eq)
  moreover have "0 \<le> n div 2 ^ (p + q)" using n by (simp add: pos_imp_zdiv_nonneg_iff)
  moreover have "n div 2 ^ (p + q) < 2"
  proof (rule ccontr)
    assume "\<not> n div 2 ^ (p + q) < 2"
    then have "2 * 2 ^ (p + q) \<le> n div 2 ^ (p + q) * 2 ^ (p + q)"
      by (intro mult_right_mono) simp_all
    also have "\<dots> \<le> n" by (simp add: div_times_less_eq_dividend minus_mod_eq_div_mult [symmetric] n)
    finally show False using n by simp
  qed
  ultimately have top: "n div 2 ^ p div 2 ^ q = of_bool s" unfolding s_def by (auto elim!: oddE)
  have "n = n div 2 ^ p * 2 ^ p + frac" unfolding frac_def by (simp only: div_mult_mod_eq)
  also have "n div 2 ^ p = n div 2 ^ p div 2 ^ q * 2 ^ q + ef" unfolding ef_def by (simp only: div_mult_mod_eq)
  finally have n_eq: "n = sign_bits f s + ef * 2 ^ p + frac"
    by (simp add: top sign_bits_def pow2_eq f power_add algebra_simps nat_add_distrib)
  have max: "e_field_max f = 2 ^ q - 1" by (simp add: e_field_max_def pow2_eq f)
  have dec: "fp_decode f n = (if ef = 2 ^ q - 1 then (if frac = 0 then FInf s else FNaN)
      else if ef = 0 then FFin s frac (e_min f) else FFin s (2 ^ p + frac) (e_min f + ef - 1))"
    by (simp add: fp_decode_def Let_def pow2_eq f frac_def ef_def s_def max)
  have q2: "(2::int) ^ q \<ge> 2" using f(3) by (cases q) auto
  consider (inf) "ef = 2 ^ q - 1" | (sub) "ef = 0" "ef \<noteq> 2 ^ q - 1" | (norm) "0 < ef" "ef < 2 ^ q - 1"
    using bounds by linarith
  then show ?thesis
  proof cases
    case inf
    with x(1) have "frac = 0" by (auto simp: dec split: if_splits)
    then have D: "fp_decode f n = FInf s" using inf by (simp add: dec)
    show ?thesis unfolding D using inf \<open>frac = 0\<close> n_eq [symmetric]
      by (simp add: inf_of_def inf_bits_def max pow2_eq f)
  next
    case sub
    show ?thesis
    proof (cases "frac = 0")
      case True
      with sub x(2) have "\<not> s" by (auto simp: dec)
      with sub True have D: "fp_decode f n = FFin False 0 (e_min f)" by (simp add: dec)
      show ?thesis unfolding D using sub True \<open>\<not> s\<close> n_eq [symmetric] by (simp add: sign_bits_def signed_def)
    next
      case False
      have "round_magnitude f frac (e_min f) False = min frac (inf_bits f)"
        using round_magnitude_exact [of frac p f "e_min f" 0] bounds False f(1) by simp
      moreover have "frac < inf_bits f"
      proof -
        have "1 * 2 ^ p \<le> (2 ^ q - 1) * (2 :: int) ^ p" using q2 by (intro mult_right_mono) simp_all
        then have "frac < (2 ^ q - 1) * 2 ^ p" using bounds(2) by linarith
        then show ?thesis by (simp add: inf_bits_def max pow2_eq f)
      qed
      moreover have D: "fp_decode f n = FFin s frac (e_min f)" using sub by (simp add: dec)
      ultimately show ?thesis unfolding D using sub False bounds(1) n_eq [symmetric]
        by (cases s) (simp_all add: signed_def fp_encode_def pow2_eq)
    qed
  next
    case norm
    have "round_magnitude f (2 ^ p + frac) (e_min f + ef - 1) False =
        min ((ef - 1) * 2 ^ p + (2 ^ p + frac)) (inf_bits f)"
      using round_magnitude_exact [of "2 ^ p + frac" p f "e_min f + ef - 1" 0] bounds f(1) norm
      by (simp add: algebra_simps)
    also have "(ef - 1) * 2 ^ p + (2 ^ p + frac) = ef * 2 ^ p + frac" by (simp add: algebra_simps)
    also have "min (ef * 2 ^ p + frac) (inf_bits f) = ef * 2 ^ p + frac"
    proof -
      have "ef * 2 ^ p + frac < (ef + 1) * 2 ^ p" using bounds(2) by (simp add: algebra_simps)
      also have "\<dots> \<le> (2 ^ q - 1) * 2 ^ p" using norm by (intro mult_right_mono) simp_all
      finally show ?thesis by (simp add: inf_bits_def max pow2_eq f)
    qed
    finally have round: "round_magnitude f (2 ^ p + frac) (e_min f + ef - 1) False = ef * 2 ^ p + frac" .
    define M where "M = 2 ^ p + frac"
    have M: "0 < M" using bounds(1) by (simp add: M_def add_pos_nonneg)
    have D: "fp_decode f n = FFin s M (e_min f + ef - 1)"
      using norm by (simp add: dec M_def)
    show ?thesis unfolding D using M round n_eq [symmetric]
      by (cases s) (simp_all add: signed_def fp_encode_def M_def [symmetric] Let_def pow2_eq)
  qed
qed

lemma F64_sel [simp]: "f_prec F64 = int 52" "f_expo F64 = int 11" "e_min F64 = - 1074"
  by (simp_all add: F64_def e_min_def pow2_eq)

lemma dec64_zero: "dec64 0 = FFin False 0 (- 1074)"
  by (simp add: dec64_def fp_decode_def pow2_eq e_field_max_def Let_def)

lemma f64_zero_add:
  assumes "dec64 x \<noteq> FNaN" "\<And>e. dec64 x \<noteq> FFin True 0 e"
  shows "f64_add 0 x = x"
proof -
  have "fp_add F64 (FFin False 0 (e_min F64)) (fp_decode F64 (uint x)) = uint x"
    by (rule fp_zero_add) (use assms uint_lt2p [of x] in \<open>auto simp: dec64_def\<close>)
  then show ?thesis by (simp add: f64_add_def dec64_zero) (simp add: dec64_def)
qed

text \<open>A sum that starts at zero does not depend on the order of its first two terms.\<close>

lemma fp_add_neg_zero:
  "fp_add f x (FFin True 0 e) = fp_add f x (FFin False 0 e) \<or> (\<exists>d. x = FFin True 0 d)"
  by (cases x) (auto simp: Let_def signed_def pow2_eq)

lemma f64_zero_add_not_neg_zero: "dec64 (f64_add 0 x) \<noteq> FFin True 0 e"
proof (cases "\<exists>d. dec64 x = FFin True 0 d")
  case True
  then have "f64_add 0 x = 0"
    by (auto simp: f64_add_def dec64_zero signed_def sign_bits_def)
  then show ?thesis by (simp add: dec64_zero)
next
  case False
  have "dec64 (of_int (nan_bits F64)) = FNaN" by code_simp
  then show ?thesis using False f64_zero_add [of x]
    by (cases "dec64 x = FNaN") (auto simp: f64_add_def dec64_zero)
qed

lemma zero_plus_mod: "2 ^ 52 + n mod 2 ^ 52 = (0 :: int) \<Longrightarrow> False"
  using pos_mod_sign [of "2 ^ 52" n] by simp

lemma f64_add_zero_add: "f64_add (f64_add 0 x) (f64_add 0 y) = f64_add (f64_add 0 x) y"
proof -
  consider (nan) "dec64 y = FNaN" | (neg) d where "dec64 y = FFin True 0 d"
    | (same) "f64_add 0 y = y" using f64_zero_add by blast
  then show ?thesis
  proof cases
    case nan
    have "dec64 (of_int (nan_bits F64)) = FNaN" by code_simp
    moreover have "fp_add F64 v FNaN = nan_bits F64" for v by (cases v) auto
    ultimately show ?thesis using nan by (simp add: f64_add_def [of _ y] f64_add_def [of "f64_add 0 x"] dec64_zero)
  next
    case neg
    then have "f64_add 0 y = 0" "y \<noteq> 0"
      by (auto simp: f64_add_def dec64_zero signed_def sign_bits_def)
    moreover have "d = - 1074"
      using neg by (auto simp: dec64_def fp_decode_def Let_def pow2_eq split: if_splits dest!: zero_plus_mod)
    ultimately show ?thesis
      using fp_add_neg_zero [of F64 "dec64 (f64_add 0 x)" d] f64_zero_add_not_neg_zero [of x] neg
      by (simp add: f64_add_def [of _ y] f64_add_def [of "f64_add 0 x"] dec64_zero)
  qed simp
qed

lemma f64_add_two_comm: "f64_add (f64_add 0 x) y = f64_add (f64_add 0 y) x"
  using f64_add_zero_add f64_add_comm by metis

section \<open>Sorting by a key that tells entries apart\<close>

lemma sort_key_strict:
  assumes "distinct xs" "inj_on f (set xs)"
  shows "sorted_wrt (\<lambda>x y. f x < f y) (sort_key f xs)"
proof -
  have "sorted (map f (sort_key f xs))" "distinct (map f (sort_key f xs))"
    using assms by (simp_all add: distinct_map)
  then have "sorted_wrt (<) (map f (sort_key f xs))" by (simp add: strict_sorted_iff)
  then show ?thesis by (simp add: sorted_wrt_map)
qed

lemma sort_key_unique:
  assumes "sorted_wrt (\<lambda>x y. f x < f y) xs" "set xs = set ys" "distinct ys" "inj_on f (set ys)"
  shows "xs = sort_key f ys"
proof -
  have "sorted_wrt (<) (map f xs)" using assms(1) by (simp add: sorted_wrt_map)
  then have sorted: "sorted (map f xs)" and "distinct (map f xs)"
    by (simp_all only: strict_sorted_iff)
  then have "mset ys = mset xs"
    using assms(2,3) by (simp add: set_eq_iff_mset_eq_distinct distinct_map)
  from sort_key_inj_key_eq [OF this assms(4) sorted] show ?thesis by simp
qed

lemma distinct_entries [simp]: "distinct (bt_entries m)"
  using bt_entries_sorted [of m] distinct_map strict_sorted_iff by blast

end
