(* ===== verification/Rrf.thy ===== *)
theory Rrf
  imports Floats
begin

text \<open>
  Reciprocal-rank fusion (\<open>crates/heurema/src/rrf.rs\<close>). Scores are \<open>f64\<close> bit patterns,
  accumulated in the order the code visits the rankings; the fused list is sorted by score
  descending under \<open>total_cmp\<close>, then by identity, and narrowed to \<open>f32\<close>.
\<close>

section \<open>Fusion\<close>

definition DEFAULT_RRF_K_CONSTANT :: f32 where
  "DEFAULT_RRF_K_CONSTANT = 0x42700000"

text \<open>What a result at the given zero-based rank adds: \<open>1.0 / (k + (rank as f64 + 1.0))\<close>.\<close>

definition rank_share :: "f64 \<Rightarrow> nat \<Rightarrow> f64" where
  "rank_share k rank = f64_div f64_one (f64_add k (f64_add (f64_of_nat rank) f64_one))"

text \<open>\<open>*scores.entry(id).or_insert(0.0) += share\<close>.\<close>

definition score_so_far :: "('i::linorder, f64) btree \<Rightarrow> 'i \<Rightarrow> f64" where
  "score_so_far scores i = (case bt_get scores i of None \<Rightarrow> f64_zero | Some s \<Rightarrow> s)"

definition add_share :: "('i::linorder, f64) btree \<Rightarrow> 'i \<Rightarrow> f64 \<Rightarrow> ('i, f64) btree" where
  "add_share scores i share = bt_insert i (f64_add (score_so_far scores i) share) scores"

text \<open>One ranking, from a rank on: the identities seen in it, and the scores so far.\<close>

fun fuse_ranking ::
    "f64 \<Rightarrow> nat \<Rightarrow> ('i::linorder \<times> f32) list \<Rightarrow> 'i bset \<Rightarrow> ('i, f64) btree \<Rightarrow> ('i, f64) btree" where
  "fuse_ranking k rank [] seen scores = scores"
| "fuse_ranking k rank ((i, _) # rest) seen scores =
     (if bs_mem i seen then fuse_ranking k (Suc rank) rest seen scores
      else fuse_ranking k (Suc rank) rest (bs_insert i seen)
             (add_share scores i (rank_share k rank)))"

definition fuse_scores :: "f64 \<Rightarrow> ('i::linorder \<times> f32) list list \<Rightarrow> ('i, f64) btree" where
  "fuse_scores k rankings =
     fold (\<lambda>ranking scores. fuse_ranking k 0 ranking bt_empty scores) rankings bt_empty"

text \<open>The comparator as a sort key: score descending under \<open>total_cmp\<close>, then identity.\<close>

definition fused_key :: "'i \<times> f64 \<Rightarrow> int \<times> 'i" where
  "fused_key scored = (- total_key64 (snd scored), fst scored)"

text \<open>The public score domain is \<open>f32\<close>.\<close>

definition public_score :: "'i \<times> f64 \<Rightarrow> 'i \<times> f32" where
  "public_score scored = (fst scored, f32_of_f64 (snd scored))"

definition fuse :: "('i::linorder \<times> f32) list list \<Rightarrow> f64 \<Rightarrow> ('i \<times> f32) list" where
  "fuse rankings k =
     map public_score (sort_key fused_key (bt_entries (fuse_scores k rankings)))"

definition rrf ::
    "('i::linorder \<times> f32) list list \<Rightarrow> f32 \<Rightarrow> heurema_error + ('i \<times> f32) list" where
  "rrf rankings k =
     and_then (ensure (f32_is_finite k \<and> fp_positive (dec32 k)) (InvalidKConstant k)) (\<lambda>_.
     Inr (fuse rankings (f64_of_f32 k)))"

definition rrf_with_default :: "('i::linorder \<times> f32) list list \<Rightarrow> ('i \<times> f32) list" where
  "rrf_with_default rankings = fuse rankings (f64_of_f32 DEFAULT_RRF_K_CONSTANT)"

section \<open>The fused score, without the loop\<close>

text \<open>The best rank an identity has in a ranking.\<close>

fun first_rank :: "'i \<Rightarrow> ('i \<times> f32) list \<Rightarrow> nat option" where
  "first_rank i [] = None"
| "first_rank i ((j, _) # rest) = (if i = j then Some 0 else map_option Suc (first_rank i rest))"

text \<open>One share per ranking that lists the identity, added in the order of the rankings.\<close>

definition fused_score :: "f64 \<Rightarrow> ('i \<times> f32) list list \<Rightarrow> 'i \<Rightarrow> f64 option" where
  "fused_score k rankings i =
     fold (\<lambda>ranking s. case first_rank i ranking of
              None \<Rightarrow> s
            | Some r \<Rightarrow> Some (f64_add (case s of None \<Rightarrow> f64_zero | Some x \<Rightarrow> x) (rank_share k r)))
       rankings None"

lemma first_rank_None: "first_rank i ranking = None \<longleftrightarrow> i \<notin> fst ` set ranking"
  by (induction i ranking rule: first_rank.induct) auto

lemma first_rank_nth:
  "first_rank i ranking = Some r \<Longrightarrow>
     r < length ranking \<and> fst (ranking ! r) = i \<and> (\<forall>q < r. fst (ranking ! q) \<noteq> i)"
proof (induction i ranking arbitrary: r rule: first_rank.induct)
  case (2 i j s rest)
  then show ?case
    by (cases r) (auto simp: nth_Cons split: if_splits nat.splits)
qed simp

lemma fuse_ranking_get:
  "bt_get (fuse_ranking k rank ranking seen scores) i =
     (if bs_mem i seen then bt_get scores i
      else case first_rank i ranking of
             None \<Rightarrow> bt_get scores i
           | Some r \<Rightarrow> Some (f64_add (case bt_get scores i of None \<Rightarrow> f64_zero | Some x \<Rightarrow> x)
                               (rank_share k (rank + r))))"
proof (induction k rank ranking seen scores rule: fuse_ranking.induct)
  case (2 k rank j s rest seen scores)
  then show ?case
    by (cases "bs_mem j seen"; cases "i = j")
      (auto simp: btree_simps add_share_def score_so_far_def split: option.splits)
qed simp

lemma fuse_scores_get: "bt_get (fuse_scores k rankings) i = fused_score k rankings i"
proof -
  have "bt_get (fold (\<lambda>ranking scores. fuse_ranking k 0 ranking bt_empty scores) rankings scores) i =
      fold (\<lambda>ranking s. case first_rank i ranking of
              None \<Rightarrow> s
            | Some r \<Rightarrow> Some (f64_add (case s of None \<Rightarrow> f64_zero | Some x \<Rightarrow> x) (rank_share k r)))
        rankings (bt_get scores i)" for scores
    by (induction rankings arbitrary: scores) (auto simp: fuse_ranking_get split: option.splits)
  then show ?thesis by (simp add: fuse_scores_def fused_score_def btree_simps)
qed

lemma fused_score_None:
  "fused_score k rankings i = None \<longleftrightarrow> (\<forall>ranking \<in> set rankings. i \<notin> fst ` set ranking)"
proof -
  have "fold (\<lambda>ranking s. case first_rank i ranking of
              None \<Rightarrow> s
            | Some r \<Rightarrow> Some (f64_add (case s of None \<Rightarrow> f64_zero | Some x \<Rightarrow> x) (rank_share k r)))
        rankings s = None \<longleftrightarrow> s = None \<and> (\<forall>ranking \<in> set rankings. i \<notin> fst ` set ranking)" for s
    by (induction rankings arbitrary: s) (auto split: option.splits simp: first_rank_None [symmetric])
  then show ?thesis by (simp add: fused_score_def)
qed

section \<open>The fused order\<close>

lemma fused_key_inject: "fused_key x = fused_key y \<longleftrightarrow> x = y"
  by (cases x; cases y) (auto simp: fused_key_def)

lemma fuse_scores_entries: "set (bt_entries (fuse_scores k rankings)) = {(i, s). fused_score k rankings i = Some s}"
  by (auto simp: bt_entries_iff fuse_scores_get)

lemma fused_sorted_iff:
  "scored = sort_key fused_key (bt_entries (fuse_scores k rankings)) \<longleftrightarrow>
     sorted_wrt (\<lambda>x y. fused_key x < fused_key y) scored \<and>
     set scored = {(i, s). fused_score k rankings i = Some s}"
proof -
  have inj: "inj_on fused_key A" for A :: "('a \<times> f64) set" by (simp add: inj_on_def fused_key_inject)
  show ?thesis
  proof
    assume "scored = sort_key fused_key (bt_entries (fuse_scores k rankings))"
    then show "sorted_wrt (\<lambda>x y. fused_key x < fused_key y) scored \<and>
        set scored = {(i, s). fused_score k rankings i = Some s}"
      by (simp add: fuse_scores_entries sort_key_strict inj)
  next
    assume "sorted_wrt (\<lambda>x y. fused_key x < fused_key y) scored \<and>
        set scored = {(i, s). fused_score k rankings i = Some s}"
    then show "scored = sort_key fused_key (bt_entries (fuse_scores k rankings))"
      by (intro sort_key_unique) (simp_all add: fuse_scores_entries inj)
  qed
qed

section \<open>Properties\<close>

text \<open>
  C31: \<open>rrf\<close> refuses exactly a constant that is not finite and positive, and otherwise returns
  every identity some ranking lists, once, with its score narrowed to \<open>f32\<close>, sorted by \<open>f64\<close>
  score descending under \<open>total_cmp\<close> and then by identity. The score adds, in the order of the
  rankings, one share per ranking that lists the identity, taken at its best rank there.
\<close>

theorem rrf_contract:
  "(rrf rankings k = Inl e \<longleftrightarrow> \<not> (f32_is_finite k \<and> fp_positive (dec32 k)) \<and> e = InvalidKConstant k) \<and>
   (rrf rankings k = Inr out \<longleftrightarrow>
      f32_is_finite k \<and> fp_positive (dec32 k) \<and>
      (\<exists>scored. out = map public_score scored \<and>
         sorted_wrt (\<lambda>x y. fused_key x < fused_key y) scored \<and>
         set scored = {(i, s). fused_score (f64_of_f32 k) rankings i = Some s}))"
  using fused_sorted_iff [of _ "f64_of_f32 k" rankings, symmetric]
  by (auto simp: rrf_def ensure_def fuse_def)

text \<open>
  The identities of a fused result are exactly the identities its rankings list, each once.
\<close>

theorem rrf_identities:
  "fst ` set (fuse rankings k) = (\<Union>ranking \<in> set rankings. fst ` set ranking) \<and>
   distinct (map fst (fuse rankings k))"
proof
  have eq: "map fst (fuse rankings k) = map fst (sort_key fused_key (bt_entries (fuse_scores k rankings)))"
    by (simp add: fuse_def comp_def public_score_def)
  have "fst ` set (fuse rankings k) = fst ` {(i, s). fused_score k rankings i = Some s}"
    using arg_cong [OF eq, of set] by (simp add: fuse_scores_entries)
  also have "\<dots> = {i. fused_score k rankings i \<noteq> None}" by force
  also have "\<dots> = (\<Union>ranking \<in> set rankings. fst ` set ranking)"
    by (auto simp: fused_score_None simp del: not_None_eq)
  finally show "fst ` set (fuse rankings k) = (\<Union>ranking \<in> set rankings. fst ` set ranking)" .
  have "mset (map fst (fuse rankings k)) = mset (map fst (bt_entries (fuse_scores k rankings)))"
    by (simp add: eq)
  moreover have "distinct (map fst (bt_entries (fuse_scores k rankings)))"
    using bt_entries_sorted strict_sorted_iff by blast
  ultimately show "distinct (map fst (fuse rankings k))" using mset_eq_imp_distinct_iff by blast
qed

text \<open>
  The default constant passes the validation, so \<open>rrf_with_default\<close> is \<open>rrf\<close> at that constant.
\<close>

theorem rrf_default_accepted: "rrf rankings DEFAULT_RRF_K_CONSTANT = Inr (rrf_with_default rankings)"
proof -
  have "f32_is_finite DEFAULT_RRF_K_CONSTANT \<and> fp_positive (dec32 DEFAULT_RRF_K_CONSTANT)" by code_simp
  then show ?thesis by (simp add: rrf_def rrf_with_default_def)
qed

text \<open>The fusion of two rankings does not depend on their arrangement.\<close>

theorem rrf_two_arrangements: "fuse [a, b] k = fuse [b, a] k"
proof -
  have "fused_score k [a, b] i = fused_score k [b, a] i" for i
    by (auto simp: fused_score_def f64_zero_def f64_add_two_comm split: option.splits)
  then have "fuse_scores k [a, b] = fuse_scores k [b, a]"
    by (intro bt_eqI) (simp add: fuse_scores_get)
  then show ?thesis by (simp add: fuse_def)
qed

text \<open>
  C32: With three rankings the arrangement can decide the order. The \<open>f64\<close> sums are taken in the
  order of the rankings and addition is not associative: at the constant 2, identities 0 and 1
  hold the ranks 0, 1 and 2 between them, and a rotation of the same three rankings swaps them.
\<close>

theorem rrf_three_arrangements_differ:
  "\<exists>(a :: (nat \<times> f32) list) b c k.
     map_sum id (map fst) (rrf [a, b, c] k) \<noteq> map_sum id (map fst) (rrf [b, c, a] k)"
proof (intro exI)
  let ?r = "map (\<lambda>i :: nat. (i, 0 :: f32))"
  show "map_sum id (map fst) (rrf [?r [1, 2, 0], ?r [0, 1], ?r [2, 0, 1]] 0x40000000) \<noteq>
      map_sum id (map fst) (rrf [?r [0, 1], ?r [2, 0, 1], ?r [1, 2, 0]] 0x40000000)"
    by code_simp
qed

end
