(* ===== verification/Bm25.thy ===== *)
theory Bm25
  imports Floats
begin

text \<open>
  The BM25 engine (\<open>crates/heurema/src/fts/bm25.rs\<close>): tokenization, document counts, postings,
  queries and the checks a decoded snapshot passes (\<open>TryFrom<RawBm25Index>\<close>). The Unicode
  tables behind \<open>char::is_alphanumeric\<close> and \<open>str::to_lowercase\<close> and the platform's \<open>ln\<close> are
  parameters. \<open>total_document_terms += length\<close> panics on overflow (overflow checks on), which is
  \<open>None\<close>.
\<close>

section \<open>The \<open>Simple\<close> pipeline\<close>

text \<open>The Unicode data the tokenizer uses; a character is its UTF-8 bytes.\<close>

record unicode =
  uc_alphanumeric :: "string \<Rightarrow> bool"
  uc_lowercase :: "string \<Rightarrow> string"

text \<open>The characters of a \<open>str\<close>: a head byte with its continuation bytes.\<close>

fun utf8_chars :: "string \<Rightarrow> string list" where
  "utf8_chars [] = []"
| "utf8_chars (c # cs) =
     (if cs \<noteq> [] \<and> utf8_continues (hd cs)
      then (case utf8_chars cs of [] \<Rightarrow> [[c]] | d # ds \<Rightarrow> (c # d) # ds)
      else [c] # utf8_chars cs)"

text \<open>\<open>split(pred)\<close> on characters: the pieces between the separators.\<close>

fun split_pieces :: "(string \<Rightarrow> bool) \<Rightarrow> string list \<Rightarrow> string list" where
  "split_pieces p [] = [[]]"
| "split_pieces p (c # cs) =
     (case split_pieces p cs of
        [] \<Rightarrow> [[]]
      | q # qs \<Rightarrow> if p c then [] # q # qs else (c @ q) # qs)"

definition tokenize :: "unicode \<Rightarrow> string \<Rightarrow> string list" where
  "tokenize uc input =
     map (uc_lowercase uc)
       (filter (\<lambda>token. token \<noteq> [])
         (split_pieces (\<lambda>c. \<not> uc_alphanumeric uc c) (utf8_chars input)))"

record (overloaded) document_terms =
  dt_counts :: "(string, nat) btree"
  dt_length :: nat

definition count_token :: "string \<Rightarrow> document_terms \<Rightarrow> document_terms" where
  "count_token token d =
     \<lparr>dt_counts = bt_insert token (Suc (case bt_get (dt_counts d) token of None \<Rightarrow> 0 | Some n \<Rightarrow> n))
                   (dt_counts d),
      dt_length = Suc (dt_length d)\<rparr>"

definition document_terms_of :: "unicode \<Rightarrow> string \<Rightarrow> document_terms" where
  "document_terms_of uc document =
     fold count_token (tokenize uc document) \<lparr>dt_counts = bt_empty, dt_length = 0\<rparr>"

section \<open>The index\<close>

record (overloaded) 'i bm25 =
  bm_config :: fts_config
  bm_documents :: "('i::linorder, document_terms) btree"
  bm_postings :: "(string, ('i, nat) btree) btree"
  bm_total :: nat

definition bm25_new :: "fts_config \<Rightarrow> 'i::linorder bm25" where
  "bm25_new config = \<lparr>bm_config = config, bm_documents = bt_empty, bm_postings = bt_empty, bm_total = 0\<rparr>"

definition SIMPLE_TOKENIZER :: string where
  "SIMPLE_TOKENIZER = ''Simple''"

definition require_simple_pipeline :: "fts_config \<Rightarrow> heurema_error + unit" where
  "require_simple_pipeline config =
     (if tk_name (tokenizer config) = SIMPLE_TOKENIZER \<and> tk_args (tokenizer config) = [] \<and> filters config = []
      then Inr ()
      else Inl (NotYetImplemented ''BM25 tokenizer/filter pipeline beyond Simple''))"

definition remove_posting ::
    "'i::linorder \<Rightarrow> string \<Rightarrow> (string, ('i, nat) btree) btree \<Rightarrow> (string, ('i, nat) btree) btree" where
  "remove_posting i term postings =
     (case bt_get postings term of
        None \<Rightarrow> postings
      | Some posting \<Rightarrow>
          if bt_is_empty (bt_remove i posting) then bt_remove term postings
          else bt_insert term (bt_remove i posting) postings)"

definition remove_document :: "'i::linorder \<Rightarrow> 'i bm25 \<Rightarrow> 'i bm25" where
  "remove_document i ix =
     (case bt_get (bm_documents ix) i of
        None \<Rightarrow> ix
      | Some document \<Rightarrow>
          ix\<lparr>bm_documents := bt_remove i (bm_documents ix),
             bm_total := bm_total ix - dt_length document,
             bm_postings := fold (remove_posting i) (bt_keys (dt_counts document)) (bm_postings ix)\<rparr>)"

definition add_posting ::
    "'i::linorder \<Rightarrow> string \<times> nat \<Rightarrow> (string, ('i, nat) btree) btree \<Rightarrow> (string, ('i, nat) btree) btree" where
  "add_posting i term_count postings =
     bt_insert (fst term_count)
       (bt_insert i (snd term_count)
         (case bt_get postings (fst term_count) of None \<Rightarrow> bt_empty | Some posting \<Rightarrow> posting))
       postings"

definition insert_document :: "'i::linorder \<Rightarrow> document_terms \<Rightarrow> 'i bm25 \<Rightarrow> 'i bm25 option" where
  "insert_document i document ix =
     (case usize_checked_add (bm_total ix) (dt_length document) of
        None \<Rightarrow> None
      | Some corpus \<Rightarrow>
          Some (ix\<lparr>bm_total := corpus,
                   bm_postings := fold (add_posting i) (bt_entries (dt_counts document)) (bm_postings ix),
                   bm_documents := bt_insert i document (bm_documents ix)\<rparr>))"

definition bm25_insert :: "unicode \<Rightarrow> 'i::linorder \<Rightarrow> string \<Rightarrow> 'i bm25 \<Rightarrow> 'i bm25 res" where
  "bm25_insert uc i document ix =
     and_then (map_err Err (require_simple_pipeline (bm_config ix))) (\<lambda>_.
     or_panic (insert_document i (document_terms_of uc document) (remove_document i ix)))"

definition bm25_remove :: "'i::linorder \<Rightarrow> 'i bm25 \<Rightarrow> 'i bm25 res" where
  "bm25_remove i ix =
     and_then (map_err Err (require_simple_pipeline (bm_config ix))) (\<lambda>_. Inr (remove_document i ix))"

definition bm25_len :: "'i::linorder bm25 \<Rightarrow> nat" where
  "bm25_len ix = bt_len (bm_documents ix)"

definition bm25_member_ids :: "'i::linorder bm25 \<Rightarrow> 'i list" where
  "bm25_member_ids ix = bt_keys (bm_documents ix)"

section \<open>Queries\<close>

definition BM25_K1 :: f32 where "BM25_K1 = 0x3f99999a"
definition BM25_B :: f32 where "BM25_B = 0x3f400000"
definition f32_one :: f32 where "f32_one = 0x3f800000"
definition f32_half :: f32 where "f32_half = 0x3f000000"

definition idf :: "(f32 \<Rightarrow> f32) \<Rightarrow> nat \<Rightarrow> nat \<Rightarrow> f32" where
  "idf ln documents frequency =
     (let document_count = f32_of_nat documents; document_frequency = f32_of_nat frequency
      in ln (f32_add f32_one
           (f32_div (f32_add (f32_sub document_count document_frequency) f32_half)
             (f32_add document_frequency f32_half))))"

definition contribution :: "f32 \<Rightarrow> f32 \<Rightarrow> nat \<Rightarrow> nat \<Rightarrow> f32" where
  "contribution idf_weight average_length term_frequency terms =
     (let length_ratio = f32_div (f32_of_nat terms) average_length;
          denominator = f32_add (f32_of_nat term_frequency)
            (f32_mul BM25_K1 (f32_add (f32_sub f32_one BM25_B) (f32_mul BM25_B length_ratio)))
      in f32_div (f32_mul idf_weight (f32_mul (f32_of_nat term_frequency) (f32_add BM25_K1 f32_one)))
           denominator)"

text \<open>The inner loop: one term's posting, in ascending identity order.\<close>

definition score_document ::
    "('i::linorder, document_terms) btree \<Rightarrow> f32 \<Rightarrow> f32 \<Rightarrow> 'i \<times> nat \<Rightarrow> ('i, f32) btree \<Rightarrow> ('i, f32) btree" where
  "score_document documents idf_weight average_length entry scores =
     (case bt_get documents (fst entry) of
        None \<Rightarrow> scores
      | Some document \<Rightarrow>
          bt_insert (fst entry)
            (f32_add (case bt_get scores (fst entry) of None \<Rightarrow> 0 | Some s \<Rightarrow> s)
              (contribution idf_weight average_length (snd entry) (dt_length document)))
            scores)"

definition score_term :: "(f32 \<Rightarrow> f32) \<Rightarrow> 'i::linorder bm25 \<Rightarrow> string \<Rightarrow> ('i, f32) btree \<Rightarrow> ('i, f32) btree" where
  "score_term ln ix term scores =
     (case bt_get (bm_postings ix) term of
        None \<Rightarrow> scores
      | Some posting \<Rightarrow>
          fold (score_document (bm_documents ix) (idf ln (bt_len (bm_documents ix)) (bt_len posting))
                 (f32_div (f32_of_nat (bm_total ix)) (f32_of_nat (bt_len (bm_documents ix)))))
            (bt_entries posting) scores)"

definition rank_key :: "'i \<times> f32 \<Rightarrow> int \<times> 'i" where
  "rank_key scored = (- total_key32 (snd scored), fst scored)"

definition bm25_query :: "unicode \<Rightarrow> (f32 \<Rightarrow> f32) \<Rightarrow> string \<Rightarrow> nat \<Rightarrow> 'i::linorder bm25 \<Rightarrow> heurema_error + ('i \<times> f32) list" where
  "bm25_query uc ln query k ix =
     and_then (require_simple_pipeline (bm_config ix)) (\<lambda>_.
     if k = 0 \<or> bt_is_empty (bm_documents ix) then Inr []
     else Inr (take k (sort_key rank_key (bt_entries
            (fold (score_term ln ix) (bs_list (bs_of_list (tokenize uc query))) bt_empty)))))"

section \<open>Decoding a snapshot\<close>

text \<open>The counts of one document: its length, and its share of the expected postings.\<close>

definition expect_term ::
    "'i::linorder \<Rightarrow> string \<times> nat \<Rightarrow> nat \<times> (string, ('i, nat) btree) btree
      \<Rightarrow> string + nat \<times> (string, ('i, nat) btree) btree" where
  "expect_term i term_count acc =
     (if fst term_count = [] \<or> snd term_count = 0
      then Inl ''BM25 snapshot has an empty term or zero term frequency''
      else case usize_checked_add (fst acc) (snd term_count) of
             None \<Rightarrow> Inl ''BM25 document length overflow''
           | Some terms \<Rightarrow> Inr (terms, add_posting i term_count (snd acc)))"

definition expect_document ::
    "'i::linorder \<times> document_terms \<Rightarrow> nat \<times> (string, ('i, nat) btree) btree
      \<Rightarrow> string + nat \<times> (string, ('i, nat) btree) btree" where
  "expect_document entry acc =
     and_then (fold_res (expect_term (fst entry)) (bt_entries (dt_counts (snd entry))) (0, snd acc))
       (\<lambda>(terms, postings).
         if terms \<noteq> dt_length (snd entry)
         then Inl ''BM25 document length disagrees with its term counts''
         else case usize_checked_add (fst acc) terms of
                None \<Rightarrow> Inl ''BM25 corpus length overflow''
              | Some corpus \<Rightarrow> Inr (corpus, postings))"

definition postings_agree ::
    "(string, ('i::linorder, nat) btree) btree \<Rightarrow> (string, ('i, nat) btree) btree \<Rightarrow> bool" where
  "postings_agree raw expected \<longleftrightarrow>
     bt_len raw = bt_len expected \<and>
     (\<forall>(term, posting) \<in> set (bt_entries expected).
        case bt_get raw term of
          None \<Rightarrow> False
        | Some actual \<Rightarrow>
            bt_len actual = bt_len posting \<and>
            (\<forall>(i, n) \<in> set (bt_entries posting). bt_get actual i = Some n))"

definition bm25_try_from :: "'i::linorder bm25 \<Rightarrow> string + 'i bm25" where
  "bm25_try_from raw =
     and_then (fold_res expect_document (bt_entries (bm_documents raw)) (0, bt_empty))
       (\<lambda>(corpus, expected).
         if corpus \<noteq> bm_total raw then Inl ''BM25 corpus length disagrees with its documents''
         else if \<not> postings_agree (bm_postings raw) expected
         then Inl ''BM25 postings disagree with document term counts''
         else if \<not> bt_is_empty (bm_documents raw) \<and> require_simple_pipeline (bm_config raw) \<noteq> Inr ()
         then Inl ''BM25 populated snapshot uses an unsupported analyzer''
         else Inr (raw\<lparr>bm_total := corpus\<rparr>))"

section \<open>Postings as a relation\<close>

definition posting_count :: "(string, ('i::linorder, nat) btree) btree \<Rightarrow> string \<Rightarrow> 'i \<Rightarrow> nat option" where
  "posting_count postings term i =
     (case bt_get postings term of None \<Rightarrow> None | Some posting \<Rightarrow> bt_get posting i)"

definition doc_count :: "('i::linorder, document_terms) btree \<Rightarrow> string \<Rightarrow> 'i \<Rightarrow> nat option" where
  "doc_count documents term i =
     (case bt_get documents i of None \<Rightarrow> None | Some d \<Rightarrow> bt_get (dt_counts d) term)"

definition postings_nonempty :: "(string, ('i::linorder, nat) btree) btree \<Rightarrow> bool" where
  "postings_nonempty postings \<longleftrightarrow> (\<forall>term posting. bt_get postings term = Some posting \<longrightarrow> \<not> bt_is_empty posting)"

lemma posting_count_empty [simp]: "posting_count bt_empty term i = None"
  by (simp add: posting_count_def)

lemma postings_nonempty_empty [simp]: "postings_nonempty bt_empty"
  by (simp add: postings_nonempty_def)

lemma remove_posting_count:
  "posting_count (remove_posting i t postings) term j =
     (if j = i \<and> term = t then None else posting_count postings term j)"
  by (auto simp: posting_count_def remove_posting_def btree_simps split: option.splits)

lemma remove_posting_nonempty: "postings_nonempty postings \<Longrightarrow> postings_nonempty (remove_posting i t postings)"
  by (auto simp: postings_nonempty_def remove_posting_def bt_get_insert bt_get_remove split: option.splits if_splits)

lemma add_posting_count:
  "posting_count (add_posting i (t, n) postings) term j =
     (if j = i \<and> term = t then Some n else posting_count postings term j)"
  by (auto simp: posting_count_def add_posting_def btree_simps split: option.splits)

lemma add_posting_nonempty: "postings_nonempty postings \<Longrightarrow> postings_nonempty (add_posting i e postings)"
  by (auto simp: postings_nonempty_def add_posting_def btree_simps split: option.splits if_splits)

lemma remove_postings_count:
  "posting_count (fold (remove_posting i) ts postings) term j =
     (if j = i \<and> term \<in> set ts then None else posting_count postings term j)"
  by (induction ts arbitrary: postings) (auto simp: remove_posting_count)

lemma remove_postings_nonempty:
  "postings_nonempty postings \<Longrightarrow> postings_nonempty (fold (remove_posting i) ts postings)"
  by (induction ts arbitrary: postings) (auto simp: remove_posting_nonempty)

lemma add_postings_count:
  "distinct (map fst es) \<Longrightarrow>
     posting_count (fold (add_posting i) es postings) term j =
     (case (if j = i then map_of es term else None) of
        Some n \<Rightarrow> Some n | None \<Rightarrow> posting_count postings term j)"
proof (induction es arbitrary: postings)
  case (Cons e es)
  obtain t n where e: "e = (t, n)" by force
  have "map_of es t = None" using Cons.prems by (simp add: e map_of_eq_None_iff)
  with Cons show ?case by (auto simp: e add_posting_count split: option.splits)
qed simp

lemma add_postings_nonempty:
  "postings_nonempty postings \<Longrightarrow> postings_nonempty (fold (add_posting i) es postings)"
  by (induction es arbitrary: postings) (auto simp: add_posting_nonempty)

text \<open>Postings without empty entries are determined by the relation.\<close>

lemma postings_eqI:
  assumes "postings_nonempty p" "postings_nonempty q" "\<And>term i. posting_count p term i = posting_count q term i"
  shows "p = q"
proof (rule bt_eqI)
  fix t
  have none: "bt_get p t = None \<longleftrightarrow> bt_get q t = None"
    using assms(1,2) assms(3) [of t]
    by (cases "bt_get p t"; cases "bt_get q t")
      (fastforce simp: postings_nonempty_def posting_count_def bt_is_empty_iff)+
  show "bt_get p t = bt_get q t"
  proof (cases "bt_get p t")
    case (Some a)
    with none obtain b where b: "bt_get q t = Some b" by (cases "bt_get q t") auto
    have "a = b" by (rule bt_eqI) (use assms(3) [of t] Some b in \<open>simp add: posting_count_def\<close>)
    with Some b show ?thesis by simp
  qed (use none in auto)
qed

lemma distinct_entry_keys [simp]: "distinct (map fst (bt_entries m))"
  using bt_keys_distinct [of m] by (simp add: bt_keys_def)

lemma map_of_entries [simp]: "map_of (bt_entries m) k = bt_get m k"
  by (simp add: bt_get.rep_eq)

section \<open>Well-formed indexes\<close>

definition doc_wf :: "document_terms \<Rightarrow> bool" where
  "doc_wf d \<longleftrightarrow>
     (\<forall>term n. bt_get (dt_counts d) term = Some n \<longrightarrow> term \<noteq> [] \<and> n \<noteq> 0) \<and>
     dt_length d = sum_list (bt_values (dt_counts d))"

definition bm25_wf :: "'i::linorder bm25 \<Rightarrow> bool" where
  "bm25_wf ix \<longleftrightarrow>
     (\<forall>i d. bt_get (bm_documents ix) i = Some d \<longrightarrow> doc_wf d) \<and>
     postings_nonempty (bm_postings ix) \<and>
     (\<forall>term i. posting_count (bm_postings ix) term i = doc_count (bm_documents ix) term i) \<and>
     bm_total ix = sum_list (map dt_length (bt_values (bm_documents ix))) \<and>
     bm_total ix \<le> usize_max \<and>
     (bt_is_empty (bm_documents ix) \<or> require_simple_pipeline (bm_config ix) = Inr ())"

lemma bm25_wf_new [simp]: "bm25_wf (bm25_new config)"
  by (simp add: bm25_wf_def bm25_new_def doc_count_def bt_values_def bt_is_empty_iff)

lemma remove_document_wf:
  assumes wf: "bm25_wf ix"
  shows "bm25_wf (remove_document i ix)"
proof (cases "bt_get (bm_documents ix) i")
  case None
  with wf show ?thesis by (simp add: remove_document_def)
next
  case (Some d)
  let ?docs = "bt_remove i (bm_documents ix)"
  have total: "bm_total ix = dt_length d + sum_list (map dt_length (bt_values ?docs))"
    using wf bt_sum_remove [OF Some, of dt_length] by (simp add: bm25_wf_def)
  have "posting_count (fold (remove_posting i) (bt_keys (dt_counts d)) (bm_postings ix)) term j =
      doc_count ?docs term j" for "term" j
    using wf Some by (auto simp: remove_postings_count bm25_wf_def doc_count_def btree_simps split: option.splits)
  then show ?thesis
    using wf Some total
    by (auto simp: remove_document_def bm25_wf_def remove_postings_nonempty btree_simps)
qed

lemma insert_document_wf:
  assumes wf: "bm25_wf ix" and doc: "doc_wf d" and absent: "bt_get (bm_documents ix) i = None"
    and simple: "require_simple_pipeline (bm_config ix) = Inr ()"
    and ins: "insert_document i d ix = Some ix'"
  shows "bm25_wf ix'"
proof -
  let ?docs = "bt_insert i d (bm_documents ix)"
  have total: "bm_total ix + dt_length d \<le> usize_max"
    and ix': "ix' = ix\<lparr>bm_total := bm_total ix + dt_length d,
      bm_postings := fold (add_posting i) (bt_entries (dt_counts d)) (bm_postings ix),
      bm_documents := ?docs\<rparr>"
    using ins by (auto simp: insert_document_def usize_checked_add_def split: if_splits)
  have "posting_count (fold (add_posting i) (bt_entries (dt_counts d)) (bm_postings ix)) term j =
      doc_count ?docs term j" for "term" j
    using wf absent by (auto simp: add_postings_count bm25_wf_def doc_count_def btree_simps split: option.splits)
  moreover have "sum_list (map dt_length (bt_values ?docs)) = bm_total ix + dt_length d"
    using wf absent by (simp add: bt_sum_insert bt_remove_absent bm25_wf_def)
  ultimately show ?thesis
    using wf doc simple total by (auto simp: ix' bm25_wf_def add_postings_nonempty btree_simps split: if_splits)
qed

section \<open>Documents\<close>

definition lowercase_nonempty :: "unicode \<Rightarrow> bool" where
  "lowercase_nonempty uc \<longleftrightarrow> (\<forall>token. token \<noteq> [] \<longrightarrow> uc_lowercase uc token \<noteq> [])"

lemma tokenize_nonempty: "lowercase_nonempty uc \<Longrightarrow> token \<in> set (tokenize uc document) \<Longrightarrow> token \<noteq> []"
  by (auto simp: tokenize_def lowercase_nonempty_def)

lemma count_tokens:
  "bt_get (dt_counts (fold count_token ts d)) t =
     (if count_list ts t = 0 then bt_get (dt_counts d) t
      else Some (count_list ts t + (case bt_get (dt_counts d) t of None \<Rightarrow> 0 | Some n \<Rightarrow> n)))"
  "dt_length (fold count_token ts d) = dt_length d + length ts"
  by (induction ts arbitrary: d) (auto simp: count_token_def btree_simps split: option.splits)

lemma document_terms_counts:
  "bt_get (dt_counts (document_terms_of uc document)) t =
     (if t \<in> set (tokenize uc document) then Some (count_list (tokenize uc document) t) else None)"
  "dt_length (document_terms_of uc document) = length (tokenize uc document)"
  by (auto simp: document_terms_of_def count_tokens count_list_0_iff)

lemma document_terms_wf: "lowercase_nonempty uc \<Longrightarrow> doc_wf (document_terms_of uc document)"
proof -
  assume lower: "lowercase_nonempty uc"
  have len: "dt_length (fold count_token ts d) = sum_list (bt_values (dt_counts (fold count_token ts d)))"
    if "dt_length d = sum_list (bt_values (dt_counts d))" for ts d
    using that
  proof (induction ts arbitrary: d)
    case (Cons t ts)
    have "dt_length (count_token t d) = sum_list (bt_values (dt_counts (count_token t d)))"
    proof (cases "bt_get (dt_counts d) t")
      case None
      then show ?thesis using Cons.prems bt_sum_insert [of id t 1 "dt_counts d"]
        by (simp add: count_token_def bt_remove_absent)
    next
      case (Some n)
      then show ?thesis
        using Cons.prems bt_sum_insert [of id t "Suc n" "dt_counts d"] bt_sum_remove [OF Some, of id]
        by (simp add: count_token_def)
    qed
    with Cons.IH show ?case by simp
  qed simp
  have "t \<noteq> [] \<and> n \<noteq> 0" if "bt_get (dt_counts (document_terms_of uc document)) t = Some n" for t n
    using that tokenize_nonempty [OF lower, of t document] count_list_0_iff [of "tokenize uc document" t]
    by (auto simp: document_terms_counts(1) split: if_splits)
  moreover have "dt_length (document_terms_of uc document) = sum_list (bt_values (dt_counts (document_terms_of uc document)))"
    unfolding document_terms_of_def by (rule len) (simp add: bt_values_def)
  ultimately show "doc_wf (document_terms_of uc document)" by (auto simp: doc_wf_def)
qed

section \<open>What a decoded snapshot's checks accept\<close>

lemma expect_terms_iff:
  assumes "l \<le> usize_max"
  shows "fold_res (expect_term i) es (l, P) = Inr (l', P') \<longleftrightarrow>
    (\<forall>(t, n) \<in> set es. t \<noteq> [] \<and> n \<noteq> 0) \<and> l + sum_list (map snd es) \<le> usize_max \<and>
    l' = l + sum_list (map snd es) \<and> P' = fold (add_posting i) es P"
  using assms
proof (induction es arbitrary: l P)
  case (Cons e es)
  obtain t n where e: "e = (t, n)" by force
  show ?case
  proof (cases "t \<noteq> [] \<and> n \<noteq> 0 \<and> l + n \<le> usize_max")
    case True
    with Cons.IH [of "l + n"] show ?thesis
      by (auto simp: e expect_term_def usize_checked_add_def add.assoc)
  next
    case False
    then show ?thesis by (auto simp: e expect_term_def usize_checked_add_def)
  qed
qed auto

definition expected_postings ::
    "('i::linorder \<times> document_terms) list \<Rightarrow> (string, ('i, nat) btree) btree \<Rightarrow> (string, ('i, nat) btree) btree" where
  "expected_postings = fold (\<lambda>(i, d). fold (add_posting i) (bt_entries (dt_counts d)))"

lemma expect_document_iff:
  assumes "c \<le> usize_max"
  shows "expect_document (i, d) (c, P) = Inr (c', P') \<longleftrightarrow>
    doc_wf d \<and> c + dt_length d \<le> usize_max \<and> c' = c + dt_length d \<and>
    P' = fold (add_posting i) (bt_entries (dt_counts d)) P"
proof -
  have "(\<forall>(t, n) \<in> set (bt_entries (dt_counts d)). t \<noteq> [] \<and> n \<noteq> 0) \<longleftrightarrow>
      (\<forall>t n. bt_get (dt_counts d) t = Some n \<longrightarrow> t \<noteq> [] \<and> n \<noteq> 0)"
    unfolding bt_entries_iff [symmetric] by fast
  then have wf: "doc_wf d \<longleftrightarrow> (\<forall>(t, n) \<in> set (bt_entries (dt_counts d)). t \<noteq> [] \<and> n \<noteq> 0) \<and>
      dt_length d = sum_list (map snd (bt_entries (dt_counts d)))"
    by (simp add: doc_wf_def bt_values_def)
  show ?thesis
    by (auto simp: expect_document_def and_then_Inr_iff expect_terms_iff [of 0] wf
      usize_checked_add_def split: if_splits)
qed

lemma expect_documents_iff:
  assumes "c \<le> usize_max"
  shows "fold_res expect_document ds (c, P) = Inr (c', P') \<longleftrightarrow>
    (\<forall>(i, d) \<in> set ds. doc_wf d) \<and> c + sum_list (map (dt_length \<circ> snd) ds) \<le> usize_max \<and>
    c' = c + sum_list (map (dt_length \<circ> snd) ds) \<and> P' = expected_postings ds P"
  using assms
proof (induction ds arbitrary: c P)
  case (Cons e ds)
  obtain i d where e: "e = (i, d)" by force
  show ?case
  proof (cases "doc_wf d \<and> c + dt_length d \<le> usize_max")
    case True
    then have "expect_document (i, d) (c, P) =
        Inr (c + dt_length d, fold (add_posting i) (bt_entries (dt_counts d)) P)"
      by (simp add: expect_document_iff Cons.prems)
    with True Cons.IH [of "c + dt_length d"] show ?thesis
      by (simp add: e expected_postings_def add.assoc)
  next
    case False
    then have "expect_document (i, d) (c, P) \<noteq> Inr x" for x
      by (cases x) (auto simp: expect_document_iff Cons.prems)
    with False show ?thesis by (auto simp: e and_then_Inr_iff)
  qed
qed (auto simp: expected_postings_def)

lemma expected_postings_count:
  "distinct (map fst ds) \<Longrightarrow>
     posting_count (expected_postings ds P) t i =
     (case map_of ds i of
        None \<Rightarrow> posting_count P t i
      | Some d \<Rightarrow> (case bt_get (dt_counts d) t of Some n \<Rightarrow> Some n | None \<Rightarrow> posting_count P t i))"
proof (induction ds arbitrary: P)
  case (Cons e ds)
  obtain j d where e: "e = (j, d)" by force
  have "map_of ds j = None" using Cons.prems by (simp add: e map_of_eq_None_iff)
  with Cons show ?case
    by (auto simp: e expected_postings_def add_postings_count split: option.splits)
qed (simp add: expected_postings_def)

lemma expected_postings_nonempty: "postings_nonempty P \<Longrightarrow> postings_nonempty (expected_postings ds P)"
  by (induction ds arbitrary: P) (auto simp: expected_postings_def add_postings_nonempty)

lemma postings_agree_iff: "postings_agree raw expected \<longleftrightarrow> raw = expected"
proof
  assume agree: "postings_agree raw expected"
  have "bt_get raw t = Some p" if "bt_get expected t = Some p" for t p
  proof -
    from agree that obtain a where a: "bt_get raw t = Some a" "bt_len a = bt_len p"
      "\<And>i n. bt_get p i = Some n \<Longrightarrow> bt_get a i = Some n"
      by (fastforce simp: postings_agree_def bt_entries_iff split: option.splits)
    then have "p = a" by (intro bt_len_eq) simp_all
    with a(1) show ?thesis by simp
  qed
  moreover have "bt_len expected = bt_len raw" using agree by (simp add: postings_agree_def)
  ultimately show "raw = expected" using bt_len_eq by metis
next
  assume "raw = expected"
  then show "postings_agree raw expected" by (auto simp: postings_agree_def bt_entries_iff)
qed

text \<open>The decoder's checks are the invariant, and decoding changes nothing.\<close>

lemma bm25_try_from_iff: "bm25_try_from raw = Inr ix \<longleftrightarrow> bm25_wf raw \<and> ix = raw"
proof -
  let ?ds = "bt_entries (bm_documents raw)"
  let ?P = "expected_postings ?ds bt_empty"
  have postings: "bm_postings raw = ?P \<longleftrightarrow> postings_nonempty (bm_postings raw) \<and>
      (\<forall>t i. posting_count (bm_postings raw) t i = doc_count (bm_documents raw) t i)"
  proof -
    have count: "posting_count ?P t i = doc_count (bm_documents raw) t i" for t i
      by (simp add: expected_postings_count doc_count_def split: option.splits)
    have ne: "postings_nonempty ?P" by (simp add: expected_postings_nonempty)
    show ?thesis using postings_eqI [OF _ ne] count ne by metis
  qed
  have docs: "(\<forall>(i, d) \<in> set ?ds. doc_wf d) \<longleftrightarrow> (\<forall>i d. bt_get (bm_documents raw) i = Some d \<longrightarrow> doc_wf d)"
    by (auto simp: bt_entries_iff)
  have sum: "sum_list (map (dt_length \<circ> snd) ?ds) = sum_list (map dt_length (bt_values (bm_documents raw)))"
    by (simp add: bt_values_def)
  have "fold_res expect_document ?ds (0, bt_empty) = Inr (c, P) \<longleftrightarrow>
      (\<forall>i d. bt_get (bm_documents raw) i = Some d \<longrightarrow> doc_wf d) \<and> c \<le> usize_max \<and>
      c = sum_list (map dt_length (bt_values (bm_documents raw))) \<and> P = ?P" for c P
    by (auto simp: expect_documents_iff docs sum)
  moreover have "raw\<lparr>bm_total := bm_total raw\<rparr> = raw" by simp
  ultimately show ?thesis
    by (auto simp: bm25_try_from_def and_then_Inr_iff postings_agree_iff postings bm25_wf_def split: if_splits)
qed

section \<open>The score of a document\<close>

definition documents_with :: "'i::linorder bm25 \<Rightarrow> string \<Rightarrow> nat" where
  "documents_with ix t = card {i. doc_count (bm_documents ix) t i \<noteq> None}"

definition average_length :: "'i::linorder bm25 \<Rightarrow> f32" where
  "average_length ix = f32_div (f32_of_nat (bm_total ix)) (f32_of_nat (bt_len (bm_documents ix)))"

text \<open>One contribution per query term in the document, added in ascending term order.\<close>

definition bm25_score :: "(f32 \<Rightarrow> f32) \<Rightarrow> 'i::linorder bm25 \<Rightarrow> string list \<Rightarrow> 'i \<Rightarrow> f32 option" where
  "bm25_score ln ix terms i =
     fold (\<lambda>t acc. case doc_count (bm_documents ix) t i of
              None \<Rightarrow> acc
            | Some tf \<Rightarrow> Some (f32_add (case acc of None \<Rightarrow> 0 | Some s \<Rightarrow> s)
                (contribution (idf ln (bt_len (bm_documents ix)) (documents_with ix t)) (average_length ix)
                  tf (dt_length (the (bt_get (bm_documents ix) i))))))
       terms None"

lemma score_documents_get:
  "distinct (map fst es) \<Longrightarrow>
     bt_get (fold (score_document documents w avg) es scores) i =
     (case (case bt_get documents i of None \<Rightarrow> None | Some d \<Rightarrow> map_option (\<lambda>n. (d, n)) (map_of es i)) of
        None \<Rightarrow> bt_get scores i
      | Some (d, n) \<Rightarrow> Some (f32_add (case bt_get scores i of None \<Rightarrow> 0 | Some s \<Rightarrow> s)
                             (contribution w avg n (dt_length d))))"
proof (induction es arbitrary: scores)
  case (Cons e es)
  obtain j n where e: "e = (j, n)" by force
  have "map_of es j = None" using Cons.prems by (simp add: e map_of_eq_None_iff)
  with Cons show ?case
    by (auto simp: e score_document_def btree_simps split: option.splits)
qed (simp split: option.splits)

lemma score_term_get:
  assumes wf: "bm25_wf ix"
  shows "bt_get (score_term ln ix t scores) i =
    (case doc_count (bm_documents ix) t i of
       None \<Rightarrow> bt_get scores i
     | Some tf \<Rightarrow> Some (f32_add (case bt_get scores i of None \<Rightarrow> 0 | Some s \<Rightarrow> s)
         (contribution (idf ln (bt_len (bm_documents ix)) (documents_with ix t)) (average_length ix)
           tf (dt_length (the (bt_get (bm_documents ix) i))))))"
proof (cases "bt_get (bm_postings ix) t")
  case None
  then have "doc_count (bm_documents ix) t i = None"
    using wf by (simp add: bm25_wf_def posting_count_def del: split_paired_All) (metis option.simps(4))
  with None show ?thesis by (simp add: score_term_def)
next
  case (Some p)
  then have get: "bt_get p j = doc_count (bm_documents ix) t j" for j
    using wf by (simp add: bm25_wf_def posting_count_def del: split_paired_All) (metis option.simps(5))
  then have "bt_len p = documents_with ix t" by (simp add: bt_len_card documents_with_def)
  then show ?thesis
    using Some by (auto simp: score_term_def score_documents_get get average_length_def doc_count_def
      split: option.splits)
qed

lemma scores_get:
  assumes "bm25_wf ix"
  shows "bt_get (fold (score_term ln ix) terms bt_empty) i = bm25_score ln ix terms i"
proof -
  have "bt_get (fold (score_term ln ix) terms scores) i =
      fold (\<lambda>t acc. case doc_count (bm_documents ix) t i of
              None \<Rightarrow> acc
            | Some tf \<Rightarrow> Some (f32_add (case acc of None \<Rightarrow> 0 | Some s \<Rightarrow> s)
                (contribution (idf ln (bt_len (bm_documents ix)) (documents_with ix t)) (average_length ix)
                  tf (dt_length (the (bt_get (bm_documents ix) i))))))
        terms (bt_get scores i)" for scores
    by (induction terms arbitrary: scores) (simp_all add: score_term_get [OF assms])
  then show ?thesis by (simp add: bm25_score_def)
qed

lemma bm25_score_None:
  "bm25_score ln ix terms i = None \<longleftrightarrow> (\<forall>t \<in> set terms. doc_count (bm_documents ix) t i = None)"
proof -
  have "fold (\<lambda>t acc. case doc_count (bm_documents ix) t i of
              None \<Rightarrow> acc
            | Some tf \<Rightarrow> Some (f32_add (case acc of None \<Rightarrow> 0 | Some s \<Rightarrow> s)
                (contribution (idf ln (bt_len (bm_documents ix)) (documents_with ix t)) (average_length ix)
                  tf (dt_length (the (bt_get (bm_documents ix) i))))))
        terms acc = None \<longleftrightarrow> acc = None \<and> (\<forall>t \<in> set terms. doc_count (bm_documents ix) t i = None)" for acc
    by (induction terms arbitrary: acc) (auto split: option.splits)
  then show ?thesis by (simp add: bm25_score_def)
qed

lemma bs_list_of_list: "bs_list (bs_of_list xs) = sorted_list_of_set (set xs)"
  by (rule sorted_distinct_set_unique) (use bs_list_sorted [of "bs_of_list xs"] strict_sorted_iff in auto)

text \<open>The ranking a query cuts at \<open>k\<close>.\<close>

definition full_ranking :: "('i \<Rightarrow> f32 option) \<Rightarrow> ('i::linorder \<times> f32) list \<Rightarrow> bool" where
  "full_ranking score ranked \<longleftrightarrow>
     sorted_wrt (\<lambda>x y. rank_key x < rank_key y) ranked \<and> set ranked = {(i, s). score i = Some s}"

lemma rank_key_inj: "inj_on rank_key A"
  by (auto simp: inj_on_def rank_key_def)

lemma full_ranking_iff:
  assumes "\<And>i. bt_get scores i = score i"
  shows "full_ranking score ranked \<longleftrightarrow> ranked = sort_key rank_key (bt_entries scores)"
proof -
  have set: "set (bt_entries scores) = {(i, s). score i = Some s}"
    by (auto simp: bt_entries_iff assms)
  show ?thesis
  proof
    assume "full_ranking score ranked"
    then show "ranked = sort_key rank_key (bt_entries scores)"
      by (intro sort_key_unique) (simp_all add: full_ranking_def set rank_key_inj)
  next
    assume "ranked = sort_key rank_key (bt_entries scores)"
    then show "full_ranking score ranked"
      by (simp add: full_ranking_def set sort_key_strict rank_key_inj)
  qed
qed

lemma bm25_query_ranked:
  assumes wf: "bm25_wf ix" and simple: "require_simple_pipeline (bm_config ix) = Inr ()"
  shows "\<exists>ranked. full_ranking (bm25_score ln ix (sorted_list_of_set (set (tokenize uc query)))) ranked \<and>
    bm25_query uc ln query k ix = Inr (take k ranked)"
proof -
  let ?terms = "sorted_list_of_set (set (tokenize uc query))"
  let ?scores = "fold (score_term ln ix) ?terms bt_empty"
  have ranking: "full_ranking (bm25_score ln ix ?terms) (sort_key rank_key (bt_entries ?scores))"
    by (simp add: full_ranking_iff [OF scores_get [OF wf]])
  have "?scores = bt_empty" if "bt_is_empty (bm_documents ix)"
  proof (rule bt_eqI)
    fix i
    have "bm25_score ln ix ?terms i = None"
      using that by (simp add: bm25_score_None doc_count_def bt_is_empty_iff)
    then show "bt_get ?scores i = bt_get bt_empty i" by (simp add: scores_get [OF wf])
  qed
  then have "bm25_query uc ln query k ix = Inr (take k (sort_key rank_key (bt_entries ?scores)))"
    using simple by (auto simp: bm25_query_def bs_list_of_list)
  with ranking show ?thesis by blast
qed

section \<open>Histories\<close>

inductive bm25_reachable :: "unicode \<Rightarrow> fts_config \<Rightarrow> 'i::linorder bm25 \<Rightarrow> bool" for uc config where
  new: "bm25_reachable uc config (bm25_new config)"
| insert: "bm25_reachable uc config ix \<Longrightarrow> bm25_insert uc i document ix = Inr ix' \<Longrightarrow>
    bm25_reachable uc config ix'"
| remove: "bm25_reachable uc config ix \<Longrightarrow> bm25_remove i ix = Inr ix' \<Longrightarrow> bm25_reachable uc config ix'"

lemma remove_document_absent: "bt_get (bm_documents (remove_document i ix)) i = None"
  by (auto simp: remove_document_def btree_simps split: option.splits)

lemma remove_document_config [simp]: "bm_config (remove_document i ix) = bm_config ix"
  by (auto simp: remove_document_def split: option.splits)

lemma remove_document_documents: "bm_documents (remove_document i ix) = bt_remove i (bm_documents ix)"
  by (auto simp: remove_document_def bt_remove_absent split: option.splits)

lemma insert_document_sel:
  "insert_document i d ix = Some ix' \<Longrightarrow>
     bm_config ix' = bm_config ix \<and> bm_documents ix' = bt_insert i d (bm_documents ix)"
  by (auto simp: insert_document_def split: option.splits)

lemma bm25_insert_Inr:
  "bm25_insert uc i document ix = Inr ix' \<longleftrightarrow> require_simple_pipeline (bm_config ix) = Inr () \<and>
     insert_document i (document_terms_of uc document) (remove_document i ix) = Some ix'"
  by (auto simp: bm25_insert_def and_then_Inr_iff map_err_def split: sum.splits)

lemma bm25_remove_Inr:
  "bm25_remove i ix = Inr ix' \<longleftrightarrow> require_simple_pipeline (bm_config ix) = Inr () \<and> ix' = remove_document i ix"
  by (auto simp: bm25_remove_def and_then_Inr_iff map_err_def split: sum.splits)

lemma bm25_insert_wf:
  assumes "lowercase_nonempty uc" "bm25_wf ix" "bm25_insert uc i document ix = Inr ix'"
  shows "bm25_wf ix'"
proof (rule insert_document_wf)
  show "insert_document i (document_terms_of uc document) (remove_document i ix) = Some ix'"
    using assms(3) by (simp add: bm25_insert_Inr)
qed (use assms in \<open>simp_all add: remove_document_wf document_terms_wf remove_document_absent bm25_insert_Inr\<close>)

lemma bm25_remove_wf: "bm25_wf ix \<Longrightarrow> bm25_remove i ix = Inr ix' \<Longrightarrow> bm25_wf ix'"
  by (auto simp: bm25_remove_Inr remove_document_wf)

lemma bm25_reachable_wf:
  assumes "lowercase_nonempty uc"
  shows "bm25_reachable uc config ix \<Longrightarrow> bm25_wf ix \<and> bm_config ix = config"
proof (induction rule: bm25_reachable.induct)
  case (insert ix i document ix')
  then show ?case
    using bm25_insert_wf [OF assms, of ix i document ix']
      insert_document_sel [of i "document_terms_of uc document" "remove_document i ix" ix']
    by (simp add: bm25_insert_Inr)
next
  case (remove ix i ix')
  then show ?case using bm25_remove_wf by (auto simp: bm25_remove_Inr)
qed (simp_all add: bm25_new_def [of config, symmetric] bm25_wf_new, simp add: bm25_new_def)

section \<open>An index of two documents\<close>

definition ascii_unicode :: unicode where
  "ascii_unicode =
     \<lparr>uc_alphanumeric = (\<lambda>c. case c of
          [b] \<Rightarrow> is_ascii_digit b \<or> is_ascii_lowercase b \<or> is_ascii_uppercase b | _ \<Rightarrow> False),
      uc_lowercase = map (\<lambda>b. if is_ascii_uppercase b then char_of (of_char b + 32 :: nat) else b)\<rparr>"

lemma ascii_lowercase_nonempty [simp]: "lowercase_nonempty ascii_unicode"
  by (simp add: lowercase_nonempty_def ascii_unicode_def)

definition sample_bm25 :: "nat bm25" where
  "sample_bm25 = projr (bm25_insert ascii_unicode 2 ''b'' (projr (bm25_insert ascii_unicode 1 ''B a, b''
     (bm25_new fts_config_simple))))"

lemma sample_bm25_steps:
  "\<exists>ix. bm25_insert ascii_unicode (1 :: nat) ''B a, b'' (bm25_new fts_config_simple) = Inr ix \<and>
     bm25_insert ascii_unicode 2 ''b'' ix = Inr sample_bm25"
proof -
  let ?one = "bm25_insert ascii_unicode (1 :: nat) ''B a, b'' (bm25_new fts_config_simple)"
  have "\<not> isl ?one \<and> \<not> isl (bm25_insert ascii_unicode 2 ''b'' (projr ?one))" by code_simp
  then show ?thesis unfolding sample_bm25_def by (metis sum.collapse(2))
qed

lemma sample_bm25_reachable: "bm25_reachable ascii_unicode fts_config_simple sample_bm25"
  using sample_bm25_steps by (blast intro: bm25_reachable.intros)

section \<open>Properties\<close>

text \<open>
  C28: the checks a decoded full-text snapshot passes are exactly the engine's invariant (no
  empty term, no zero count, every length the sum of its counts, postings that agree with the
  documents in both directions and have no empty entry, the corpus length the sum of the
  lengths within \<open>usize\<close>, a supported analyzer when populated), and decoding an accepted
  snapshot changes nothing.
\<close>

theorem bm25_snapshot_checks_exact: "bm25_try_from raw = Inr ix \<longleftrightarrow> bm25_wf raw \<and> ix = raw"
  by (rule bm25_try_from_iff)

text \<open>
  Every index that insertions and removals build from an empty one passes the checks of
  its own snapshot and decodes to itself.
\<close>

theorem bm25_reachable_snapshot:
  assumes "lowercase_nonempty uc" "bm25_reachable uc config ix"
  shows "bm25_try_from ix = Inr ix"
  using bm25_reachable_wf [OF assms] by (simp add: bm25_try_from_iff)

theorem bm25_reachable_snapshot_witness: "bm25_try_from sample_bm25 = Inr sample_bm25"
  by (rule bm25_reachable_snapshot [OF ascii_lowercase_nonempty sample_bm25_reachable])

text \<open>
  C21: an index is a function of its configuration and its live documents: two histories that
  end with the same configuration and the same documents end with the same postings and corpus
  length, in whatever order they inserted, replaced and removed.
\<close>

theorem bm25_history_independent:
  assumes "lowercase_nonempty uc" "bm25_reachable uc config ix" "bm25_reachable uc config jx"
    and "bm_documents ix = bm_documents jx"
  shows "ix = jx"
proof -
  have wf: "bm25_wf ix" "bm25_wf jx" "bm_config ix = bm_config jx"
    using bm25_reachable_wf [OF assms(1)] assms(2,3) by auto
  then have "bm_postings ix = bm_postings jx"
    using assms(4) by (intro postings_eqI) (simp_all add: bm25_wf_def)
  with wf assms(4) show ?thesis by (simp add: bm25_wf_def bm25.equality)
qed

theorem bm25_history_independent_witness:
  "\<exists>ix :: nat bm25. bm25_remove 3 (projr (bm25_insert ascii_unicode 3 ''c'' sample_bm25)) = Inr ix \<and> ix = sample_bm25"
proof -
  have run: "\<exists>jx. bm25_insert ascii_unicode 3 ''c'' sample_bm25 = Inr jx"
    "\<exists>ix. bm25_remove 3 (projr (bm25_insert ascii_unicode 3 ''c'' sample_bm25)) = Inr ix"
    "bt_get (bm_documents sample_bm25) 3 = None"
  proof -
    have "\<not> isl (bm25_insert ascii_unicode 3 ''c'' sample_bm25) \<and>
        \<not> isl (bm25_remove 3 (projr (bm25_insert ascii_unicode 3 ''c'' sample_bm25))) \<and>
        bt_get (bm_documents sample_bm25) 3 = None" by code_simp
    then show "\<exists>jx. bm25_insert ascii_unicode 3 ''c'' sample_bm25 = Inr jx"
      "\<exists>ix. bm25_remove 3 (projr (bm25_insert ascii_unicode 3 ''c'' sample_bm25)) = Inr ix"
      "bt_get (bm_documents sample_bm25) 3 = None"
      by (cases "bm25_insert ascii_unicode 3 ''c'' sample_bm25";
          cases "bm25_remove 3 (projr (bm25_insert ascii_unicode 3 ''c'' sample_bm25))"; simp)+
  qed
  then obtain jx ix where jx: "bm25_insert ascii_unicode 3 ''c'' sample_bm25 = Inr jx"
    and ix: "bm25_remove 3 jx = Inr ix" by auto
  then have reach: "bm25_reachable ascii_unicode fts_config_simple ix"
    using sample_bm25_reachable by (blast intro: bm25_reachable.intros)
  have "bm_documents ix = bm_documents sample_bm25"
    using jx ix run(3) insert_document_sel [of 3 _ "remove_document 3 sample_bm25" jx]
    by (intro bt_eqI) (auto simp: bm25_insert_Inr bm25_remove_Inr remove_document_documents btree_simps)
  then have "ix = sample_bm25"
    by (rule bm25_history_independent [OF ascii_lowercase_nonempty reach sample_bm25_reachable])
  with jx ix show ?thesis by simp
qed

text \<open>
  C20: a query of an index with the supported analyzer returns the first \<open>k\<close> entries of one
  ranking: exactly the live documents that contain a term of the query, each once with the sum
  of its terms' contributions, sorted by score descending under \<open>total_cmp\<close> and then by
  identity. A repeated query term counts once, and a query without terms returns nothing.
\<close>

theorem bm25_query_contract:
  assumes "lowercase_nonempty uc" "bm25_reachable uc config ix"
    and "require_simple_pipeline config = Inr ()"
  shows "\<exists>ranked. bm25_query uc ln query k ix = Inr (take k ranked) \<and>
    sorted_wrt (\<lambda>x y. rank_key x < rank_key y) ranked \<and>
    set ranked = {(i, s). bm25_score ln ix (sorted_list_of_set (set (tokenize uc query))) i = Some s} \<and>
    fst ` set ranked = {i. \<exists>d. bt_get (bm_documents ix) i = Some d \<and>
      (\<exists>t \<in> set (tokenize uc query). bt_get (dt_counts d) t \<noteq> None)}"
proof -
  let ?score = "bm25_score ln ix (sorted_list_of_set (set (tokenize uc query)))"
  obtain ranked where "bm25_query uc ln query k ix = Inr (take k ranked)" and full: "full_ranking ?score ranked"
    using bm25_query_ranked [of ix] bm25_reachable_wf [OF assms(1,2)] assms(3) by blast
  moreover have "fst ` set ranked = {i. ?score i \<noteq> None}"
    using full by (force simp: full_ranking_def)
  moreover have "?score i \<noteq> None \<longleftrightarrow> (\<exists>d. bt_get (bm_documents ix) i = Some d \<and>
      (\<exists>t \<in> set (tokenize uc query). bt_get (dt_counts d) t \<noteq> None))" for i
    unfolding bm25_score_None by (cases "bt_get (bm_documents ix) i") (simp_all add: doc_count_def)
  ultimately show ?thesis by (intro exI [of _ ranked]) (simp add: full_ranking_def)
qed

theorem bm25_query_contract_witness:
  "\<exists>ranked. bm25_query ascii_unicode id ''A'' 5 sample_bm25 = Inr (take 5 ranked) \<and>
    fst ` set ranked = {i. \<exists>d. bt_get (bm_documents sample_bm25) i = Some d \<and>
      (\<exists>t \<in> set (tokenize ascii_unicode ''A''). bt_get (dt_counts d) t \<noteq> None)}"
proof -
  have "require_simple_pipeline fts_config_simple = Inr ()" by code_simp
  from bm25_query_contract [OF ascii_lowercase_nonempty sample_bm25_reachable this, of id "''A''" 5]
  show ?thesis by blast
qed

end
