(* ===== verification/Hnsw.thy ===== *)
theory Hnsw
  imports Floats
begin

text \<open>
  The HNSW engine (\<open>crates/heurema/src/hnsw/engine.rs\<close>): the layered graph with its degree
  pruned links and its backbone cycle, insertion, removal, the greedy descent and the layer
  search, queries, and the checks a decoded snapshot passes (\<open>TryFrom<RawHnswIndex>\<close>). An
  \<open>option\<close> result is a computation that may panic by indexing out of bounds: \<open>None\<close> is the
  panic. The counters compiled for tests only are left out.
\<close>

unbundle bit_operations_syntax

section \<open>State\<close>

record (overloaded) 'i node =
  nd_vector :: "f32 list"
  nd_level :: nat
  nd_neighbours :: "'i::linorder bset list"
  nd_backbone :: "'i bset"

record (overloaded) 'i hnsw =
  hx_config :: hnsw_config
  hx_nodes :: "('i::linorder, 'i node) btree"
  hx_entry :: "'i option"
  hx_max_level :: nat
  hx_state :: "64 word"

definition hnsw_new :: "hnsw_config \<Rightarrow> 'i::linorder hnsw" where
  "hnsw_new config = \<lparr>hx_config = config, hx_nodes = bt_empty, hx_entry = None, hx_max_level = 0,
     hx_state = 0x9e3779b97f4a7c15\<rparr>"

section \<open>Configuration and vector checks\<close>

definition validate_config :: "hnsw_config \<Rightarrow> string + unit" where
  "validate_config config =
     (if dimensions config = 0 then Inl ''dimensions must be non-zero''
      else if m_neighbours config = 0 then Inl ''m_neighbours must be non-zero''
      else if ef_construction config = 0 then Inl ''ef_construction must be non-zero''
      else Inr ())"

definition check_config :: "hnsw_config \<Rightarrow> heurema_error + unit" where
  "check_config config = map_err InvalidHnswConfig (validate_config config)"

definition check_finite :: "f32 list \<Rightarrow> heurema_error + unit" where
  "check_finite vector =
     (if list_all f32_is_finite vector then Inr ()
      else Inl (InvalidVector ''all components must be finite''))"

definition check_vector :: "hnsw_config \<Rightarrow> f32 list \<Rightarrow> heurema_error + unit" where
  "check_vector config vector =
     and_then (check_config config) (\<lambda>_.
     if length vector \<noteq> dimensions config
     then Inl (DimensionMismatch (dimensions config) (length vector))
     else check_finite vector)"

definition degree_limit :: "hnsw_config \<Rightarrow> nat \<Rightarrow> nat" where
  "degree_limit config level =
     (if level = 0 then usize_saturating_mul (m_neighbours config) 2 else m_neighbours config)"

section \<open>Distances\<close>

text \<open>\<open>iter().sum()\<close> of \<open>f64\<close> terms adds from negative zero.\<close>

fun sum_terms :: "(f32 \<Rightarrow> f32 \<Rightarrow> f64) \<Rightarrow> f64 \<Rightarrow> f32 list \<Rightarrow> f32 list \<Rightarrow> f64" where
  "sum_terms term acc (a # as) (b # bs) = sum_terms term (f64_add acc (term a b)) as bs"
| "sum_terms term acc _ _ = acc"

definition square :: "f64 \<Rightarrow> f64" where
  "square x = f64_mul x x"

definition l2_term :: "f32 \<Rightarrow> f32 \<Rightarrow> f64" where
  "l2_term a b = square (f64_sub (f64_of_f32 a) (f64_of_f32 b))"

definition dot_term :: "f32 \<Rightarrow> f32 \<Rightarrow> f64" where
  "dot_term a b = f64_mul (f64_of_f32 a) (f64_of_f32 b)"

definition left_square :: "f32 \<Rightarrow> f32 \<Rightarrow> f64" where
  "left_square a b = square (f64_of_f32 a)"

definition right_square :: "f32 \<Rightarrow> f32 \<Rightarrow> f64" where
  "right_square a b = square (f64_of_f32 b)"

definition cosine_of :: "f64 \<Rightarrow> f64 \<Rightarrow> f64 \<Rightarrow> f64" where
  "cosine_of dot left_norm right_norm =
     (if fp_is_zero (dec64 left_norm) \<and> fp_is_zero (dec64 right_norm) then f64_zero
      else if fp_is_zero (dec64 left_norm) \<or> fp_is_zero (dec64 right_norm) then f64_one
      else f64_sub f64_one (f64_div dot (f64_mul (f64_sqrt left_norm) (f64_sqrt right_norm))))"

fun distance :: "vector_distance \<Rightarrow> f32 list \<Rightarrow> f32 list \<Rightarrow> f64" where
  "distance L2 left right = sum_terms l2_term f64_neg_zero left right"
| "distance InnerProduct left right = f64_neg (sum_terms dot_term f64_neg_zero left right)"
| "distance Cosine left right =
     cosine_of (sum_terms dot_term f64_zero left right) (sum_terms left_square f64_zero left right)
       (sum_terms right_square f64_zero left right)"

definition node_distance :: "'i::linorder hnsw \<Rightarrow> f32 list \<Rightarrow> 'i \<Rightarrow> f64 option" where
  "node_distance ix vector i =
     map_option (\<lambda>node. distance (distance_mode (hx_config ix)) vector (nd_vector node)) (bt_get (hx_nodes ix) i)"

text \<open>\<open>compare_ids_by_distance\<close> as a key: \<open>total_cmp\<close> of the distances, then the identities.\<close>

definition dist_key :: "'i::linorder hnsw \<Rightarrow> f32 list \<Rightarrow> 'i \<Rightarrow> int \<times> 'i" where
  "dist_key ix vector i =
     (total_key64 (case node_distance ix vector i of Some d \<Rightarrow> d | None \<Rightarrow> f64_inf), i)"

section \<open>Level selection\<close>

text \<open>At most \<open>remaining\<close> more levels, one per pair of trailing zero bits.\<close>

fun count_levels :: "nat \<Rightarrow> 64 word \<Rightarrow> nat" where
  "count_levels 0 state = 0"
| "count_levels (Suc remaining) state =
     (if state AND 3 = 0 then Suc (count_levels remaining (word_rotr 2 state)) else 0)"

definition xor_left :: "nat \<Rightarrow> 64 word \<Rightarrow> 64 word" where
  "xor_left n s = s XOR push_bit n s"

definition xor_right :: "nat \<Rightarrow> 64 word \<Rightarrow> 64 word" where
  "xor_right n s = s XOR drop_bit n s"

definition advance :: "64 word \<Rightarrow> 64 word" where
  "advance s = xor_left 17 (xor_right 7 (xor_left 13 s))"

definition next_level :: "'i::linorder hnsw \<Rightarrow> nat \<times> 'i hnsw" where
  "next_level ix = (count_levels 16 (advance (hx_state ix)), ix\<lparr>hx_state := advance (hx_state ix)\<rparr>)"

section \<open>Traversal\<close>

definition closer :: "'i::linorder hnsw \<Rightarrow> f32 list \<Rightarrow> 'i \<Rightarrow> 'i \<Rightarrow> 'i" where
  "closer ix vector neighbour best =
     (if dist_key ix vector neighbour < dist_key ix vector best then neighbour else best)"

definition greedy_next :: "'i::linorder hnsw \<Rightarrow> f32 list \<Rightarrow> nat \<Rightarrow> 'i \<Rightarrow> 'i node \<Rightarrow> 'i" where
  "greedy_next ix vector level current node =
     (let next = fold (closer ix vector) (bs_list (nd_neighbours node ! level)) current
      in if level = 0 then fold (closer ix vector) (bs_list (nd_backbone node)) next else next)"

fun greedy_at_level :: "'i::linorder hnsw \<Rightarrow> f32 list \<Rightarrow> nat \<Rightarrow> nat \<Rightarrow> 'i \<Rightarrow> 'i option" where
  "greedy_at_level ix vector level 0 current = Some current"
| "greedy_at_level ix vector level (Suc budget) current =
     (case bt_get (hx_nodes ix) current of
        None \<Rightarrow> Some current
      | Some node \<Rightarrow>
          if level \<ge> length (nd_neighbours node) then None
          else let next = greedy_next ix vector level current node
               in if next = current then Some current
                  else greedy_at_level ix vector level budget next)"

text \<open>The neighbours an expansion pushes, or the panic of indexing a missing level.\<close>

definition unvisited :: "'i::linorder bset \<Rightarrow> 'i bset \<Rightarrow> 'i list" where
  "unvisited visited s = filter (\<lambda>i. \<not> bs_mem i visited) (bs_list s)"

definition expand :: "'i::linorder hnsw \<Rightarrow> nat \<Rightarrow> 'i \<Rightarrow> 'i bset \<Rightarrow> 'i list option" where
  "expand ix level current visited =
     (case bt_get (hx_nodes ix) current of
        None \<Rightarrow> Some []
      | Some node \<Rightarrow>
          if level \<ge> length (nd_neighbours node) then None
          else Some (unvisited visited (nd_neighbours node ! level) @
                     (if level = 0 then unvisited visited (nd_backbone node) else [])))"

definition keep_best :: "'i::linorder hnsw \<Rightarrow> f32 list \<Rightarrow> nat \<Rightarrow> 'i \<Rightarrow> 'i list \<Rightarrow> 'i list" where
  "keep_best ix vector retained current results =
     (let sorted = sort_key (dist_key ix vector) (results @ [current])
      in if length sorted > retained then butlast sorted else sorted)"

text \<open>The early exit: enough results, and the closest candidate is beyond the worst of them.\<close>

definition beyond :: "'i::linorder hnsw \<Rightarrow> f32 list \<Rightarrow> nat \<Rightarrow> 'i \<Rightarrow> 'i list \<Rightarrow> bool" where
  "beyond ix vector retained current results \<longleftrightarrow>
     retained \<le> length results \<and> results \<noteq> [] \<and>
     dist_key ix vector (last results) < dist_key ix vector current"

function search_loop ::
    "'i::linorder hnsw \<Rightarrow> f32 list \<Rightarrow> nat \<Rightarrow> nat \<Rightarrow> nat \<Rightarrow> 'i bset \<Rightarrow> 'i list \<Rightarrow> 'i list \<Rightarrow> 'i list option" where
  "search_loop ix vector level retained budget visited frontier results =
     (if frontier = [] \<or> budget \<le> bt_len visited then Some results
      else (case sort_key (dist_key ix vector) frontier of
              [] \<Rightarrow> Some results
            | current # rest \<Rightarrow>
                if bs_mem current visited
                then search_loop ix vector level retained budget visited rest results
                else if beyond ix vector retained current results then Some results
                else (case expand ix level current (bs_insert current visited) of
                        None \<Rightarrow> None
                      | Some found \<Rightarrow>
                          search_loop ix vector level retained budget (bs_insert current visited)
                            (rest @ found) (keep_best ix vector retained current results))))"
  by pat_completeness auto

lemma bt_len_bs_insert: "\<not> bs_mem x s \<Longrightarrow> bt_len (bs_insert x s) = Suc (bt_len s)"
proof -
  assume "\<not> bs_mem x s"
  moreover have "{k. bs_mem k (bs_insert x s)} = insert x {k. bs_mem k s}" by auto
  ultimately show ?thesis by (simp add: bs_len_card)
qed

termination search_loop
proof (relation "measures [\<lambda>(ix, vector, level, retained, budget, visited, frontier, results). budget - bt_len visited,
    \<lambda>(ix, vector, level, retained, budget, visited, frontier, results). length frontier]")
  fix ix :: "'i::linorder hnsw" and vector and level retained budget :: nat and visited frontier results x21 x22
  assume "\<not> (frontier = [] \<or> budget \<le> bt_len visited)" and sorted: "sort_key (dist_key ix vector) frontier = x21 # x22"
  have "length (sort_key (dist_key ix vector) frontier) = length frontier" by simp
  then have "length x22 < length frontier" by (simp add: sorted)
  then show "((ix, vector, level, retained, budget, visited, x22, results),
      ix, vector, level, retained, budget, visited, frontier, results)
      \<in> measures [\<lambda>(ix, vector, level, retained, budget, visited, frontier, results). budget - bt_len visited,
          \<lambda>(ix, vector, level, retained, budget, visited, frontier, results). length frontier]"
    by simp
qed (auto simp: bt_len_bs_insert)

declare search_loop.simps [simp del]

definition search_layer ::
    "'i::linorder hnsw \<Rightarrow> f32 list \<Rightarrow> 'i list \<Rightarrow> nat \<Rightarrow> nat \<Rightarrow> nat \<Rightarrow> 'i list option" where
  "search_layer ix vector entries level retained budget =
     search_loop ix vector level retained budget bs_empty entries []"

section \<open>Links\<close>

text \<open>A loop whose body may panic.\<close>

primrec fold_opt :: "('a \<Rightarrow> 's \<Rightarrow> 's option) \<Rightarrow> 'a list \<Rightarrow> 's \<Rightarrow> 's option" where
  "fold_opt f [] s = Some s"
| "fold_opt f (x # xs) s = (case f x s of None \<Rightarrow> None | Some s' \<Rightarrow> fold_opt f xs s')"

text \<open>\<open>if let Some(node) = nodes.get_mut(id) { node.neighbours[level].insert(other) }\<close>, and \<open>remove\<close>.\<close>

definition add_neighbour ::
    "nat \<Rightarrow> 'i::linorder \<Rightarrow> 'i \<Rightarrow> ('i, 'i node) btree \<Rightarrow> ('i, 'i node) btree option" where
  "add_neighbour level i other nodes =
     (case bt_get nodes i of
        None \<Rightarrow> Some nodes
      | Some node \<Rightarrow>
          if level \<ge> length (nd_neighbours node) then None
          else Some (bt_insert i (node\<lparr>nd_neighbours := (nd_neighbours node)
                 [level := bs_insert other (nd_neighbours node ! level)]\<rparr>) nodes))"

definition drop_neighbour ::
    "nat \<Rightarrow> 'i::linorder \<Rightarrow> 'i \<Rightarrow> ('i, 'i node) btree \<Rightarrow> ('i, 'i node) btree option" where
  "drop_neighbour level other i nodes =
     (case bt_get nodes i of
        None \<Rightarrow> Some nodes
      | Some node \<Rightarrow>
          if level \<ge> length (nd_neighbours node) then None
          else Some (bt_insert i (node\<lparr>nd_neighbours := (nd_neighbours node)
                 [level := bs_remove other (nd_neighbours node ! level)]\<rparr>) nodes))"

definition prune :: "'i::linorder \<Rightarrow> nat \<Rightarrow> 'i hnsw \<Rightarrow> 'i hnsw option" where
  "prune i level ix =
     (case bt_get (hx_nodes ix) i of
        None \<Rightarrow> Some ix
      | Some node \<Rightarrow>
          if level \<ge> length (nd_neighbours node) then None
          else
            let neighbours = bs_list (nd_neighbours node ! level);
                ranked = sort_key (dist_key ix (nd_vector node)) neighbours;
                retained = bs_of_list (take (degree_limit (hx_config ix) level) ranked);
                removed = filter (\<lambda>other. \<not> bs_mem other retained) neighbours;
                nodes = bt_insert i (node\<lparr>nd_neighbours := (nd_neighbours node)[level := retained]\<rparr>) (hx_nodes ix)
            in map_option (\<lambda>nodes. ix\<lparr>hx_nodes := nodes\<rparr>) (fold_opt (drop_neighbour level i) removed nodes))"

definition link :: "'i::linorder \<Rightarrow> nat \<Rightarrow> 'i \<Rightarrow> 'i hnsw \<Rightarrow> 'i hnsw option" where
  "link left level right ix =
     (if left = right \<or> bt_get (hx_nodes ix) left = None then Some ix
      else case add_neighbour level left right (hx_nodes ix) of
             None \<Rightarrow> None
           | Some nodes \<Rightarrow>
               if bt_get nodes right = None then Some (ix\<lparr>hx_nodes := nodes\<rparr>)
               else case add_neighbour level right left nodes of
                      None \<Rightarrow> None
                    | Some nodes \<Rightarrow>
                        (case prune left level (ix\<lparr>hx_nodes := nodes\<rparr>) of
                           None \<Rightarrow> None
                         | Some ix \<Rightarrow> prune right level ix))"

section \<open>The backbone\<close>

definition add_backbone :: "'i::linorder \<Rightarrow> 'i \<Rightarrow> ('i, 'i node) btree \<Rightarrow> ('i, 'i node) btree" where
  "add_backbone i other nodes =
     (case bt_get nodes i of
        None \<Rightarrow> nodes
      | Some node \<Rightarrow> bt_insert i (node\<lparr>nd_backbone := bs_insert other (nd_backbone node)\<rparr>) nodes)"

definition drop_backbone :: "'i::linorder \<Rightarrow> 'i \<Rightarrow> ('i, 'i node) btree \<Rightarrow> ('i, 'i node) btree" where
  "drop_backbone other i nodes =
     (case bt_get nodes i of
        None \<Rightarrow> nodes
      | Some node \<Rightarrow> bt_insert i (node\<lparr>nd_backbone := bs_remove other (nd_backbone node)\<rparr>) nodes)"

definition connect_backbone :: "'i::linorder \<Rightarrow> 'i \<Rightarrow> ('i, 'i node) btree \<Rightarrow> ('i, 'i node) btree" where
  "connect_backbone left right nodes =
     (if left = right then nodes else add_backbone right left (add_backbone left right nodes))"

definition disconnect_backbone :: "'i::linorder \<Rightarrow> 'i \<Rightarrow> ('i, 'i node) btree \<Rightarrow> ('i, 'i node) btree" where
  "disconnect_backbone left right nodes = drop_backbone left right (drop_backbone right left nodes)"

definition splice_backbone :: "'i::linorder \<Rightarrow> 'i \<Rightarrow> ('i, 'i node) btree \<Rightarrow> ('i, 'i node) btree option" where
  "splice_backbone i anchor nodes =
     (case bt_get nodes anchor of
        None \<Rightarrow> None
      | Some node \<Rightarrow>
          Some (case bs_list (nd_backbone node) of
                  [] \<Rightarrow> connect_backbone i anchor nodes
                | [successor] \<Rightarrow> connect_backbone i successor (connect_backbone anchor i nodes)
                | successor # _ \<Rightarrow>
                    connect_backbone i successor
                      (connect_backbone anchor i (disconnect_backbone anchor successor nodes))))"

section \<open>Entry selection\<close>

definition top_level :: "('i::linorder, 'i node) btree \<Rightarrow> nat" where
  "top_level nodes = fold max (map nd_level (bt_values nodes)) 0"

definition select_entry :: "('i::linorder, 'i node) btree \<Rightarrow> 'i option" where
  "select_entry nodes =
     (case filter (\<lambda>(_, node). nd_level node = top_level nodes) (bt_entries nodes) of
        [] \<Rightarrow> None
      | (i, _) # _ \<Rightarrow> Some i)"

definition reselect_entry :: "'i::linorder hnsw \<Rightarrow> 'i hnsw" where
  "reselect_entry ix =
     ix\<lparr>hx_max_level := top_level (hx_nodes ix), hx_entry := select_entry (hx_nodes ix)\<rparr>"

definition consider_new_entry :: "'i::linorder \<Rightarrow> nat \<Rightarrow> 'i hnsw \<Rightarrow> 'i hnsw" where
  "consider_new_entry i level ix =
     (if (case hx_entry ix of
            None \<Rightarrow> True
          | Some entry \<Rightarrow> hx_max_level ix < level \<or> (level = hx_max_level ix \<and> i < entry))
      then ix\<lparr>hx_max_level := level, hx_entry := Some i\<rparr> else ix)"

section \<open>Removal\<close>

definition level_at_least :: "('i::linorder, 'i node) btree \<Rightarrow> nat \<Rightarrow> 'i \<Rightarrow> bool" where
  "level_at_least nodes level i =
     (case bt_get nodes i of None \<Rightarrow> False | Some node \<Rightarrow> level \<le> nd_level node)"

definition relink :: "nat \<Rightarrow> 'i::linorder \<times> 'i \<Rightarrow> 'i hnsw \<Rightarrow> 'i hnsw option" where
  "relink level pair ix =
     (if level_at_least (hx_nodes ix) level (fst pair) \<and> level_at_least (hx_nodes ix) level (snd pair)
      then link (fst pair) level (snd pair) ix else Some ix)"

text \<open>The pairs of the nested loop, each element with those after it.\<close>

fun ordered_pairs :: "'a list \<Rightarrow> ('a \<times> 'a) list" where
  "ordered_pairs [] = []"
| "ordered_pairs (x # xs) = map (Pair x) xs @ ordered_pairs xs"

definition unlink_level :: "'i::linorder \<Rightarrow> nat \<times> 'i bset \<Rightarrow> 'i hnsw \<Rightarrow> 'i hnsw option" where
  "unlink_level i entry ix =
     (case fold_opt (drop_neighbour (fst entry) i) (bs_list (snd entry)) (hx_nodes ix) of
        None \<Rightarrow> None
      | Some nodes \<Rightarrow>
          fold_opt (relink (fst entry)) (ordered_pairs (bs_list (snd entry))) (ix\<lparr>hx_nodes := nodes\<rparr>))"

definition bypass_backbone :: "'i::linorder \<Rightarrow> 'i bset \<Rightarrow> ('i, 'i node) btree \<Rightarrow> ('i, 'i node) btree" where
  "bypass_backbone i backbone nodes =
     (let anchors = bs_list backbone;
          nodes = fold (drop_backbone i) anchors nodes
      in case anchors of
           [left, right] \<Rightarrow> connect_backbone left right nodes
         | _ \<Rightarrow> nodes)"

definition remove_node :: "'i::linorder \<Rightarrow> 'i hnsw \<Rightarrow> 'i hnsw option" where
  "remove_node i ix =
     (case bt_get (hx_nodes ix) i of
        None \<Rightarrow> Some ix
      | Some node \<Rightarrow>
          (case fold_opt (unlink_level i) (enumerate 0 (nd_neighbours node))
                  (ix\<lparr>hx_nodes := bt_remove i (hx_nodes ix)\<rparr>) of
             None \<Rightarrow> None
           | Some ix \<Rightarrow>
               let ix = ix\<lparr>hx_nodes := bypass_backbone i (nd_backbone node) (hx_nodes ix)\<rparr>
               in Some (if bt_is_empty (hx_nodes ix) then ix\<lparr>hx_max_level := 0, hx_entry := None\<rparr>
                        else if hx_entry ix = Some i then reselect_entry ix
                        else ix)))"

section \<open>Insertion\<close>

definition construction_budget :: "hnsw_config \<Rightarrow> nat" where
  "construction_budget config = max (max (ef_construction config) (m_neighbours config)) 1"

text \<open>Descend through the levels above the new node's, then link it level by level.\<close>

fun descend :: "'i::linorder hnsw \<Rightarrow> f32 list \<Rightarrow> nat \<Rightarrow> nat list \<Rightarrow> 'i \<Rightarrow> 'i option" where
  "descend ix vector budget [] entry = Some entry"
| "descend ix vector budget (level # levels) entry =
     (case greedy_at_level ix vector level budget entry of
        None \<Rightarrow> None
      | Some entry \<Rightarrow> descend ix vector budget levels entry)"

fun connect_levels ::
    "'i::linorder \<Rightarrow> f32 list \<Rightarrow> nat \<Rightarrow> nat list \<Rightarrow> 'i \<Rightarrow> 'i hnsw \<Rightarrow> 'i hnsw option" where
  "connect_levels i vector budget [] entry ix = Some ix"
| "connect_levels i vector budget (level # levels) entry ix =
     (case search_layer ix vector [entry] level budget budget of
        None \<Rightarrow> None
      | Some candidates \<Rightarrow>
          (case fold_opt (link i level) (take (degree_limit (hx_config ix) level) candidates) ix of
             None \<Rightarrow> None
           | Some ix \<Rightarrow>
               (case greedy_at_level ix vector level budget entry of
                  None \<Rightarrow> None
                | Some entry \<Rightarrow> connect_levels i vector budget levels entry ix)))"

definition insert_linked :: "'i::linorder \<Rightarrow> f32 list \<Rightarrow> nat \<Rightarrow> 'i \<Rightarrow> 'i hnsw \<Rightarrow> 'i hnsw option" where
  "insert_linked i vector level entry ix =
     (case splice_backbone i entry (hx_nodes ix) of
        None \<Rightarrow> None
      | Some nodes \<Rightarrow>
          let ix = ix\<lparr>hx_nodes := nodes\<rparr>; budget = construction_budget (hx_config ix)
          in case descend ix vector budget (rev [Suc level..<Suc (hx_max_level ix)]) entry of
               None \<Rightarrow> None
             | Some entry \<Rightarrow>
                 map_option (consider_new_entry i level)
                   (connect_levels i vector budget (rev [0..<Suc (min level (hx_max_level ix))]) entry ix))"

definition add_node :: "'i::linorder \<Rightarrow> f32 list \<Rightarrow> nat \<Rightarrow> 'i hnsw \<Rightarrow> 'i hnsw option" where
  "add_node i vector level ix =
     (let node = \<lparr>nd_vector = vector, nd_level = level,
                  nd_neighbours = replicate (Suc level) bs_empty, nd_backbone = bs_empty\<rparr>;
          added = ix\<lparr>hx_nodes := bt_insert i node (hx_nodes ix)\<rparr>
      in case hx_entry ix of
           None \<Rightarrow> Some (added\<lparr>hx_max_level := level, hx_entry := Some i\<rparr>)
         | Some entry \<Rightarrow> insert_linked i vector level entry added)"

definition hnsw_insert :: "'i::linorder \<Rightarrow> f32 list \<Rightarrow> 'i hnsw \<Rightarrow> 'i hnsw res" where
  "hnsw_insert i vector ix =
     and_then (map_err Err (check_vector (hx_config ix) vector)) (\<lambda>_.
     or_panic (case remove_node i ix of
         None \<Rightarrow> None
       | Some ix \<Rightarrow> (case next_level ix of (level, ix) \<Rightarrow> add_node i vector level ix)))"

definition hnsw_remove :: "'i::linorder \<Rightarrow> 'i hnsw \<Rightarrow> 'i hnsw res" where
  "hnsw_remove i ix = or_panic (remove_node i ix)"

definition hnsw_len :: "'i::linorder hnsw \<Rightarrow> nat" where
  "hnsw_len ix = bt_len (hx_nodes ix)"

definition hnsw_member_ids :: "'i::linorder hnsw \<Rightarrow> 'i list" where
  "hnsw_member_ids ix = bt_keys (hx_nodes ix)"

section \<open>Queries\<close>

definition query_beam :: "hnsw_config \<Rightarrow> nat \<Rightarrow> nat" where
  "query_beam config k = max (max k (usize_saturating_mul (m_neighbours config) 8)) 1"

text \<open>One candidate's public score, or the refusal of a distance \<open>f32\<close> cannot hold.\<close>

definition public_distance :: "'i \<Rightarrow> f64 \<Rightarrow> heurema_error + 'i \<times> f32" where
  "public_distance i d =
     (if f32_is_finite (f32_of_f64 d) then Inr (i, f32_of_f64 d) else Inl (DistanceNotRepresentable d))"

definition score_candidates :: "'i::linorder hnsw \<Rightarrow> f32 list \<Rightarrow> 'i list \<Rightarrow> heurema_error + ('i \<times> f32) list" where
  "score_candidates ix vector candidates =
     map_res (\<lambda>(i, d). public_distance i d)
       (List.map_filter (\<lambda>i. map_option (Pair i) (node_distance ix vector i)) candidates)"

definition hit_key :: "'i \<times> f32 \<Rightarrow> int \<times> 'i" where
  "hit_key hit = (total_key32 (snd hit), fst hit)"

definition hnsw_query :: "f32 list \<Rightarrow> nat \<Rightarrow> 'i::linorder hnsw \<Rightarrow> ('i \<times> f32) list res" where
  "hnsw_query vector k ix =
     and_then (map_err Err (check_vector (hx_config ix) vector)) (\<lambda>_.
     if k = 0 \<or> bt_is_empty (hx_nodes ix) then Inr []
     else case hx_entry ix of
            None \<Rightarrow> Inr []
          | Some entry \<Rightarrow>
              let budget = query_beam (hx_config ix) k in
              and_then (or_panic (descend ix vector budget (rev [1..<Suc (hx_max_level ix)]) entry)) (\<lambda>entry.
              and_then (or_panic (search_layer ix vector [entry] 0 budget budget)) (\<lambda>candidates.
              and_then (map_err Err (score_candidates ix vector candidates)) (\<lambda>results.
              Inr (take k (sort_key hit_key results))))))"

section \<open>Decoding a snapshot\<close>

text \<open>
  The checks refuse with a reason, or panic: a node is compared with neighbours whose own
  shape is not checked yet, so \<open>other.neighbours[level]\<close> can be out of bounds.
\<close>

datatype snapshot_refusal = Refused string | DecodePanic

definition check_level_links ::
    "hnsw_config \<Rightarrow> ('i::linorder, 'i node) btree \<Rightarrow> 'i \<Rightarrow> nat \<times> 'i bset \<Rightarrow> snapshot_refusal + unit" where
  "check_level_links config nodes i entry =
     and_then (ensure (bt_len (snd entry) \<le> degree_limit config (fst entry))
       (Refused ''HNSW snapshot exceeds a normal-link degree limit'')) (\<lambda>_.
     try_for_each (\<lambda>neighbour.
       if neighbour = i then Inl (Refused ''HNSW snapshot has a self-neighbour'')
       else case bt_get nodes neighbour of
              None \<Rightarrow> Inl (Refused ''HNSW snapshot has a dangling neighbour'')
            | Some other \<Rightarrow>
                if nd_level other < fst entry
                then Inl (Refused ''HNSW snapshot has a non-reciprocal neighbour'')
                else if length (nd_neighbours other) \<le> fst entry then Inl DecodePanic
                else if \<not> bs_mem i (nd_neighbours other ! fst entry)
                then Inl (Refused ''HNSW snapshot has a non-reciprocal neighbour'') else Inr ())
       (bs_list (snd entry)))"

definition check_backbone_link :: "('i::linorder, 'i node) btree \<Rightarrow> 'i \<Rightarrow> 'i \<Rightarrow> snapshot_refusal + unit" where
  "check_backbone_link nodes i neighbour =
     (if neighbour = i then Inl (Refused ''HNSW snapshot has a self backbone link'')
      else case bt_get nodes neighbour of
             None \<Rightarrow> Inl (Refused ''HNSW snapshot has a dangling backbone link'')
           | Some other \<Rightarrow>
               if bs_mem i (nd_backbone other) then Inr ()
               else Inl (Refused ''HNSW snapshot has a non-reciprocal backbone link''))"

definition check_node :: "hnsw_config \<Rightarrow> ('i::linorder, 'i node) btree \<Rightarrow> 'i \<times> 'i node \<Rightarrow> snapshot_refusal + unit" where
  "check_node config nodes entry =
     and_then (ensure (length (nd_vector (snd entry)) = dimensions config \<and>
         list_all f32_is_finite (nd_vector (snd entry)) \<and> nd_level (snd entry) \<le> 16 \<and>
         length (nd_neighbours (snd entry)) = nd_level (snd entry) + 1)
       (Refused ''HNSW snapshot node shape disagrees with configuration'')) (\<lambda>_.
     and_then (try_for_each (check_level_links config nodes (fst entry)) (enumerate 0 (nd_neighbours (snd entry)))) (\<lambda>_.
     try_for_each (check_backbone_link nodes (fst entry)) (bs_list (nd_backbone (snd entry)))))"

definition expected_degree :: "nat \<Rightarrow> nat" where
  "expected_degree n = (if n \<le> 1 then 0 else if n = 2 then 1 else 2)"

definition expected_edges :: "nat \<Rightarrow> nat" where
  "expected_edges n = (if n = 1 then 0 else if n = 2 then 1 else n)"

text \<open>The depth-first walk of the backbone; \<open>pop\<close> takes the last pushed.\<close>

function reach_loop :: "('i::linorder, 'i node) btree \<Rightarrow> 'i bset \<Rightarrow> 'i list \<Rightarrow> 'i bset option" where
  "reach_loop nodes seen [] = Some seen"
| "reach_loop nodes seen (i # pending) =
     (if bs_mem i seen then reach_loop nodes seen pending
      else case bt_get nodes i of
             None \<Rightarrow> None
           | Some node \<Rightarrow>
               reach_loop nodes (bs_insert i seen) (rev (bs_list (nd_backbone node)) @ pending))"
  by pat_completeness auto

termination reach_loop
proof (relation "measures [\<lambda>(nodes, seen, pending). card {i. bt_get nodes i \<noteq> None \<and> \<not> bs_mem i seen},
    \<lambda>(nodes, seen, pending). length pending]")
  fix nodes :: "('i::linorder, 'i node) btree" and seen :: "'i bset" and i :: 'i and pending :: "'i list" and node
  assume "\<not> bs_mem i seen" "bt_get nodes i = Some node"
  then have "{j. bt_get nodes j \<noteq> None \<and> \<not> bs_mem j (bs_insert i seen)} \<subset> {j. bt_get nodes j \<noteq> None \<and> \<not> bs_mem j seen}"
    by auto
  moreover have "finite {j. bt_get nodes j \<noteq> None \<and> \<not> bs_mem j seen}"
    by (rule finite_subset [OF _ finite_bt_dom [of nodes]]) auto
  ultimately have "card {j. bt_get nodes j \<noteq> None \<and> \<not> bs_mem j (bs_insert i seen)}
      < card {j. bt_get nodes j \<noteq> None \<and> \<not> bs_mem j seen}" by (rule psubset_card_mono [rotated])
  then show "((nodes, bs_insert i seen, rev (bs_list (nd_backbone node)) @ pending), nodes, seen, i # pending)
      \<in> measures [\<lambda>(nodes, seen, pending). card {i. bt_get nodes i \<noteq> None \<and> \<not> bs_mem i seen},
          \<lambda>(nodes, seen, pending). length pending]"
    by simp
qed auto

definition check_backbone :: "('i::linorder, 'i node) btree \<Rightarrow> snapshot_refusal + unit" where
  "check_backbone nodes =
     (if bt_is_empty nodes then Inr ()
      else and_then (ensure (\<forall>node \<in> set (bt_values nodes).
               bt_len (nd_backbone node) = expected_degree (bt_len nodes))
             (Refused ''HNSW snapshot backbone does not have its bounded cycle degree'')) (\<lambda>_.
           and_then (ensure (sum_list (map (\<lambda>node. bt_len (nd_backbone node)) (bt_values nodes)) div 2
               = expected_edges (bt_len nodes))
             (Refused ''HNSW snapshot backbone is not a cycle'')) (\<lambda>_.
           case bt_keys nodes of
             [] \<Rightarrow> Inl (Refused ''HNSW snapshot has no backbone root'')
           | start # _ \<Rightarrow>
               (case reach_loop nodes bs_empty [start] of
                  None \<Rightarrow> Inl DecodePanic
                | Some seen \<Rightarrow>
                    ensure (bt_len seen = bt_len nodes) (Refused ''HNSW snapshot backbone is disconnected'')))))"

definition hnsw_try_from :: "'i::linorder hnsw \<Rightarrow> snapshot_refusal + 'i hnsw" where
  "hnsw_try_from raw =
     and_then (map_err Refused (validate_config (hx_config raw))) (\<lambda>_.
     and_then (ensure (hx_state raw \<noteq> 0) (Refused ''HNSW snapshot PRNG state must be non-zero'')) (\<lambda>_.
     and_then (ensure (hx_entry raw = select_entry (hx_nodes raw))
       (Refused ''HNSW snapshot entry point disagrees with graph levels'')) (\<lambda>_.
     and_then (ensure (hx_max_level raw = top_level (hx_nodes raw))
       (Refused ''HNSW snapshot max level disagrees with graph nodes'')) (\<lambda>_.
     and_then (try_for_each (check_node (hx_config raw) (hx_nodes raw)) (bt_entries (hx_nodes raw))) (\<lambda>_.
     and_then (check_backbone (hx_nodes raw)) (\<lambda>_.
     Inr raw))))))"

end
