(* ===== verification/Hnsw_Links.thy ===== *)
theory Hnsw_Links
  imports Hnsw
begin

text \<open>
  The layered links of the HNSW graph as relations: what pruning and linking do to one level
  (they keep it symmetric, irreflexive and within its degree limit, never index out of bounds,
  and touch nothing else), and the traversals over it.
\<close>

section \<open>The graph as relations\<close>

text \<open>The links of a level and of the backbone, as sets; no level out of range has links.\<close>

definition nbrs :: "('i::linorder, 'i node) btree \<Rightarrow> nat \<Rightarrow> 'i \<Rightarrow> 'i set" where
  "nbrs nodes l i =
     (case bt_get nodes i of
        None \<Rightarrow> {}
      | Some node \<Rightarrow> if l < length (nd_neighbours node) then {j. bs_mem j (nd_neighbours node ! l)} else {})"

definition bb :: "('i::linorder, 'i node) btree \<Rightarrow> 'i \<Rightarrow> 'i set" where
  "bb nodes i = (case bt_get nodes i of None \<Rightarrow> {} | Some node \<Rightarrow> {j. bs_mem j (nd_backbone node)})"

definition at_level :: "('i::linorder, 'i node) btree \<Rightarrow> nat \<Rightarrow> 'i \<Rightarrow> bool" where
  "at_level nodes l i \<longleftrightarrow> (\<exists>node. bt_get nodes i = Some node \<and> l < length (nd_neighbours node))"

definition linked_at :: "('i::linorder, 'i node) btree \<Rightarrow> nat \<Rightarrow> bool" where
  "linked_at nodes l \<longleftrightarrow> (\<forall>i j. j \<in> nbrs nodes l i \<longrightarrow> i \<in> nbrs nodes l j \<and> i \<noteq> j)"

definition bounded_at :: "hnsw_config \<Rightarrow> ('i::linorder, 'i node) btree \<Rightarrow> nat \<Rightarrow> bool" where
  "bounded_at config nodes l \<longleftrightarrow> (\<forall>i. card (nbrs nodes l i) \<le> degree_limit config l)"

text \<open>What operations on links keep: vectors, levels, the number of link sets and the backbone.\<close>

definition skeleton :: "('i::linorder, 'i node) btree \<Rightarrow> 'i \<Rightarrow> (f32 list \<times> nat \<times> nat \<times> 'i bset) option" where
  "skeleton nodes i =
     map_option (\<lambda>n. (nd_vector n, nd_level n, length (nd_neighbours n), nd_backbone n)) (bt_get nodes i)"

lemma at_level_skeleton: "skeleton nodes = skeleton nodes' \<Longrightarrow> at_level nodes l i = at_level nodes' l i"
  by (drule fun_cong [of _ _ i]) (auto simp: at_level_def skeleton_def map_option_case split: option.splits)

lemma bb_skeleton: "skeleton nodes = skeleton nodes' \<Longrightarrow> bb nodes i = bb nodes' i"
  by (drule fun_cong [of _ _ i]) (auto simp: bb_def skeleton_def map_option_case split: option.splits)

lemma dom_skeleton: "skeleton nodes = skeleton nodes' \<Longrightarrow> bt_get nodes i = None \<longleftrightarrow> bt_get nodes' i = None"
  by (drule fun_cong [of _ _ i]) (auto simp: skeleton_def map_option_case split: option.splits)

lemma nbrs_at_level: "j \<in> nbrs nodes l i \<Longrightarrow> at_level nodes l i"
  by (auto simp: nbrs_def at_level_def split: option.splits if_splits)

lemma linked_at_level: "linked_at nodes l \<Longrightarrow> j \<in> nbrs nodes l i \<Longrightarrow> at_level nodes l j"
  using nbrs_at_level unfolding linked_at_def by blast

lemma finite_nbrs [simp]: "finite (nbrs nodes l i)"
  by (auto simp: nbrs_def split: option.splits)

subsection \<open>One link set replaced\<close>

definition set_links ::
    "'i::linorder \<Rightarrow> nat \<Rightarrow> 'i bset \<Rightarrow> 'i node \<Rightarrow> ('i, 'i node) btree \<Rightarrow> ('i, 'i node) btree" where
  "set_links i l s node nodes = bt_insert i (node\<lparr>nd_neighbours := (nd_neighbours node)[l := s]\<rparr>) nodes"

lemma set_links_skeleton:
  "bt_get nodes i = Some node \<Longrightarrow> skeleton (set_links i l s node nodes) = skeleton nodes"
  by (auto simp: skeleton_def set_links_def btree_simps fun_eq_iff)

lemma set_links_nbrs:
  "bt_get nodes i = Some node \<Longrightarrow> l < length (nd_neighbours node) \<Longrightarrow>
     nbrs (set_links i l s node nodes) l' x = (if l' = l \<and> x = i then {j. bs_mem j s} else nbrs nodes l' x)"
  by (auto simp: nbrs_def set_links_def btree_simps nth_list_update)

lemma add_neighbour_links:
  assumes "at_level nodes l i"
  shows "\<exists>nodes'. add_neighbour l i other nodes = Some nodes' \<and> skeleton nodes' = skeleton nodes \<and>
    (\<forall>l' x. nbrs nodes' l' x = (if l' = l \<and> x = i then insert other (nbrs nodes l x) else nbrs nodes l' x))"
proof -
  obtain node where node: "bt_get nodes i = Some node" "l < length (nd_neighbours node)"
    using assms by (auto simp: at_level_def)
  then have "add_neighbour l i other nodes =
      Some (set_links i l (bs_insert other (nd_neighbours node ! l)) node nodes)"
    by (simp add: add_neighbour_def set_links_def)
  moreover have "nbrs nodes l i = {j. bs_mem j (nd_neighbours node ! l)}" using node by (simp add: nbrs_def)
  ultimately show ?thesis
    using node by (auto simp: set_links_skeleton set_links_nbrs)
qed

lemma drop_neighbour_links:
  assumes "bt_get nodes i = None \<or> at_level nodes l i"
  shows "\<exists>nodes'. drop_neighbour l other i nodes = Some nodes' \<and> skeleton nodes' = skeleton nodes \<and>
    (\<forall>l' x. nbrs nodes' l' x = (if l' = l \<and> x = i then nbrs nodes l x - {other} else nbrs nodes l' x))"
proof (cases "bt_get nodes i")
  case None
  then show ?thesis by (auto simp: drop_neighbour_def nbrs_def)
next
  case (Some node)
  with assms have len: "l < length (nd_neighbours node)" by (auto simp: at_level_def)
  with Some have "drop_neighbour l other i nodes =
      Some (set_links i l (bs_remove other (nd_neighbours node ! l)) node nodes)"
    by (simp add: drop_neighbour_def set_links_def)
  moreover have "nbrs nodes l i = {j. bs_mem j (nd_neighbours node ! l)}" using Some len by (simp add: nbrs_def)
  ultimately show ?thesis using Some len
    by (auto simp: set_links_skeleton set_links_nbrs)
qed

lemma drop_neighbours_links:
  assumes "\<And>o'. o' \<in> set os \<Longrightarrow> bt_get nodes o' = None \<or> at_level nodes l o'"
  shows "\<exists>nodes'. fold_opt (drop_neighbour l i) os nodes = Some nodes' \<and> skeleton nodes' = skeleton nodes \<and>
    (\<forall>l' x. nbrs nodes' l' x = (if l' = l \<and> x \<in> set os then nbrs nodes l x - {i} else nbrs nodes l' x))"
  using assms
proof (induction os arbitrary: nodes)
  case (Cons o' os)
  obtain mid where mid: "drop_neighbour l i o' nodes = Some mid" "skeleton mid = skeleton nodes"
    "\<And>l' x. nbrs mid l' x = (if l' = l \<and> x = o' then nbrs nodes l x - {i} else nbrs nodes l' x)"
    using drop_neighbour_links [of nodes o' l i] Cons.prems by auto
  have "bt_get mid p = None \<or> at_level mid l p" if "p \<in> set os" for p
    using Cons.prems [of p] that dom_skeleton [OF mid(2), of p] at_level_skeleton [OF mid(2), of l p] by auto
  from Cons.IH [OF this] obtain nodes' where "fold_opt (drop_neighbour l i) os mid = Some nodes'"
    "skeleton nodes' = skeleton mid"
    "\<And>l' x. nbrs nodes' l' x = (if l' = l \<and> x \<in> set os then nbrs mid l x - {i} else nbrs mid l' x)"
    by auto
  with mid show ?case by auto
qed simp

subsection \<open>Pruning and linking\<close>

text \<open>Only links at one level change, and the rest of the index stays.\<close>

definition relinked :: "nat \<Rightarrow> 'i::linorder hnsw \<Rightarrow> 'i hnsw \<Rightarrow> bool" where
  "relinked l ix ix' \<longleftrightarrow>
     hx_config ix' = hx_config ix \<and> hx_entry ix' = hx_entry ix \<and> hx_max_level ix' = hx_max_level ix \<and>
     hx_state ix' = hx_state ix \<and> skeleton (hx_nodes ix') = skeleton (hx_nodes ix) \<and>
     (\<forall>l' x. l' \<noteq> l \<longrightarrow> nbrs (hx_nodes ix') l' x = nbrs (hx_nodes ix) l' x)"

lemma relinked_refl [simp]: "relinked l ix ix"
  by (simp add: relinked_def)

lemma relinked_trans: "relinked l a b \<Longrightarrow> relinked l b c \<Longrightarrow> relinked l a c"
  by (auto simp: relinked_def)

lemma prune_links:
  assumes "at_level (hx_nodes ix) l i" and linked: "linked_at (hx_nodes ix) l"
  shows "\<exists>ix'. prune i l ix = Some ix' \<and> relinked l ix ix' \<and> linked_at (hx_nodes ix') l \<and>
    (\<forall>x. nbrs (hx_nodes ix') l x \<subseteq> nbrs (hx_nodes ix) l x) \<and>
    card (nbrs (hx_nodes ix') l i) \<le> degree_limit (hx_config ix) l"
proof -
  let ?N = "hx_nodes ix" and ?limit = "degree_limit (hx_config ix) l"
  obtain node where node: "bt_get ?N i = Some node" "l < length (nd_neighbours node)"
    using assms(1) by (auto simp: at_level_def)
  define neighbours where "neighbours = bs_list (nd_neighbours node ! l)"
  define kept where "kept = take ?limit (sort_key (dist_key ix (nd_vector node)) neighbours)"
  define retained where "retained = bs_of_list kept"
  define removed where "removed = filter (\<lambda>other. \<not> bs_mem other retained) neighbours"
  define mid where "mid = set_links i l retained node ?N"
  have set_nb: "set neighbours = nbrs ?N l i" using node by (simp add: neighbours_def nbrs_def)
  have "set kept \<subseteq> set (sort_key (dist_key ix (nd_vector node)) neighbours)"
    unfolding kept_def by (rule set_take_subset)
  then have sub: "set kept \<subseteq> nbrs ?N l i" by (simp add: set_nb)
  have card: "card (set kept) \<le> ?limit"
    using card_length [of kept] by (simp add: kept_def)
  have mid: "skeleton mid = skeleton ?N"
    "nbrs mid l' x = (if l' = l \<and> x = i then set kept else nbrs ?N l' x)" for l' x
    using node by (auto simp: mid_def set_links_skeleton set_links_nbrs retained_def)
  have removed: "set removed = nbrs ?N l i - set kept"
    by (auto simp: removed_def set_nb retained_def)
  have "at_level mid l p" if "p \<in> set removed" for p
    using that linked_at_level [OF linked, of p i] at_level_skeleton [OF mid(1)] by (auto simp: removed)
  then obtain N' where N': "fold_opt (drop_neighbour l i) removed mid = Some N'" "skeleton N' = skeleton mid"
    "\<And>l' x. nbrs N' l' x = (if l' = l \<and> x \<in> set removed then nbrs mid l x - {i} else nbrs mid l' x)"
    using drop_neighbours_links [of removed mid l i] by auto
  have "prune i l ix = Some (ix\<lparr>hx_nodes := N'\<rparr>)"
    using node N'(1) by (simp add: prune_def Let_def neighbours_def [symmetric] kept_def [symmetric]
      retained_def [symmetric] removed_def [symmetric] mid_def [unfolded set_links_def, symmetric]
      del: bs_mem_of_list)
  moreover have irrefl: "i \<notin> nbrs ?N l i" using linked by (auto simp: linked_at_def)
  moreover have "linked_at N' l"
    using linked sub irrefl unfolding linked_at_def N'(3) mid(2) removed by auto
  moreover have "nbrs N' l i = set kept" using irrefl by (auto simp: N'(3) mid(2) removed)
  moreover have "nbrs N' l x \<subseteq> nbrs ?N l x" for x using sub by (auto simp: N'(3) mid(2) removed)
  ultimately show ?thesis using card N'(2) mid(1)
    by (auto simp: relinked_def N'(3) mid(2))
qed

lemma link_links:
  assumes levels: "at_level (hx_nodes ix) l a" "at_level (hx_nodes ix) l b"
    and linked: "linked_at (hx_nodes ix) l" and bounded: "bounded_at (hx_config ix) (hx_nodes ix) l"
  shows "\<exists>ix'. link a l b ix = Some ix' \<and> relinked l ix ix' \<and>
    linked_at (hx_nodes ix') l \<and> bounded_at (hx_config ix) (hx_nodes ix') l"
proof (cases "a = b")
  case True
  then show ?thesis using linked bounded by (simp add: link_def)
next
  case False
  let ?N = "hx_nodes ix"
  obtain N1 where N1: "add_neighbour l a b ?N = Some N1" "skeleton N1 = skeleton ?N"
    "\<And>l' x. nbrs N1 l' x = (if l' = l \<and> x = a then insert b (nbrs ?N l x) else nbrs ?N l' x)"
    using add_neighbour_links [OF levels(1), of b] by blast
  then have "at_level N1 l b" using levels(2) at_level_skeleton [OF N1(2)] by simp
  from add_neighbour_links [OF this, of a] obtain N2 where
    N2: "add_neighbour l b a N1 = Some N2" "skeleton N2 = skeleton N1"
    "\<And>l' x. nbrs N2 l' x = (if l' = l \<and> x = b then insert a (nbrs N1 l x) else nbrs N1 l' x)"
    by blast
  define ix2 where "ix2 = ix\<lparr>hx_nodes := N2\<rparr>"
  have nodes2: "hx_nodes ix2 = N2" by (simp add: ix2_def)
  have rel2: "relinked l ix ix2" by (simp add: relinked_def ix2_def N2(2,3) N1(2,3))
  have linked2: "linked_at (hx_nodes ix2) l"
    using linked False unfolding linked_at_def nodes2 N2(3) N1(3) by auto
  have lev2: "at_level (hx_nodes ix2) l x = at_level ?N l x" for x
    using at_level_skeleton [of N2 ?N] N1(2) N2(2) by (simp add: nodes2)
  obtain ix3 where ix3: "prune a l ix2 = Some ix3" "relinked l ix2 ix3" "linked_at (hx_nodes ix3) l"
    "\<And>x. nbrs (hx_nodes ix3) l x \<subseteq> nbrs (hx_nodes ix2) l x"
    "card (nbrs (hx_nodes ix3) l a) \<le> degree_limit (hx_config ix2) l"
    using prune_links [of ix2 l a] lev2 levels(1) linked2 by blast
  have "at_level (hx_nodes ix3) l b"
    using ix3(2) lev2 levels(2) at_level_skeleton by (fastforce simp: relinked_def)
  from prune_links [OF this ix3(3)] obtain ix4 where
    ix4: "prune b l ix3 = Some ix4" "relinked l ix3 ix4" "linked_at (hx_nodes ix4) l"
    "\<And>x. nbrs (hx_nodes ix4) l x \<subseteq> nbrs (hx_nodes ix3) l x"
    "card (nbrs (hx_nodes ix4) l b) \<le> degree_limit (hx_config ix3) l" by blast
  have config: "hx_config ix2 = hx_config ix" "hx_config ix3 = hx_config ix"
    using ix3(2) by (simp_all add: ix2_def relinked_def)
  have "card (nbrs (hx_nodes ix4) l x) \<le> degree_limit (hx_config ix) l" for x
  proof -
    consider "x = b" | "x = a" | "x \<noteq> a" "x \<noteq> b" by blast
    then show ?thesis
    proof cases
      case 1
      then show ?thesis using ix4(5) config by simp
    next
      case 2
      then show ?thesis using ix3(5) config card_mono [OF finite_nbrs ix4(4) [of a]] by simp
    next
      case 3
      have "nbrs (hx_nodes ix4) l x \<subseteq> nbrs ?N l x"
        using ix4(4) [of x] ix3(4) [of x] 3 by (auto simp: nodes2 N2(3) N1(3))
      then have "card (nbrs (hx_nodes ix4) l x) \<le> card (nbrs ?N l x)" by (rule card_mono [OF finite_nbrs])
      then show ?thesis using bounded by (auto simp: bounded_at_def intro: le_trans)
    qed
  qed
  moreover have "bt_get ?N a \<noteq> None" "bt_get N1 b \<noteq> None"
    using levels dom_skeleton [OF N1(2)] by (auto simp: at_level_def)
  then have "link a l b ix = Some ix4"
    using False N1(1) N2(1) ix3(1) ix4(1) by (auto simp: link_def ix2_def)
  ultimately show ?thesis
    using relinked_trans [OF relinked_trans [OF rel2 ix3(2)] ix4(2)] ix4(3) by (auto simp: bounded_at_def)
qed

text \<open>A loop of links at one level.\<close>

lemma links_fold:
  assumes "\<And>x ix. x \<in> set xs \<Longrightarrow> P ix \<Longrightarrow> \<exists>ix'. f x ix = Some ix' \<and> P ix'"
    and "P ix"
  shows "\<exists>ix'. fold_opt f xs ix = Some ix' \<and> P ix'"
  using assms
proof (induction xs arbitrary: ix)
  case (Cons x xs)
  then obtain mid where "f x ix = Some mid" "P mid" by (meson list.set_intros(1))
  with Cons show ?case by simp
qed simp

definition level_kept :: "nat \<Rightarrow> 'i::linorder hnsw \<Rightarrow> 'i hnsw \<Rightarrow> bool" where
  "level_kept l ix ix' \<longleftrightarrow> relinked l ix ix' \<and> linked_at (hx_nodes ix') l \<and>
     bounded_at (hx_config ix') (hx_nodes ix') l"

lemma level_kept_link:
  assumes "level_kept l ix ix'" "at_level (hx_nodes ix) l a" "at_level (hx_nodes ix) l b"
  shows "\<exists>ix''. link a l b ix' = Some ix'' \<and> level_kept l ix ix''"
proof -
  have "skeleton (hx_nodes ix') = skeleton (hx_nodes ix)" using assms(1) by (simp add: level_kept_def relinked_def)
  then have "at_level (hx_nodes ix') l a" "at_level (hx_nodes ix') l b"
    using assms(2,3) at_level_skeleton by blast+
  then obtain ix'' where "link a l b ix' = Some ix''" "relinked l ix' ix''" "linked_at (hx_nodes ix'') l"
    "bounded_at (hx_config ix') (hx_nodes ix'') l"
    using link_links [of ix' l a b] assms(1) by (auto simp: level_kept_def)
  then show ?thesis
    using assms(1) relinked_trans by (fastforce simp: level_kept_def relinked_def)
qed

section \<open>Traversal never leaves a level\<close>

lemma fold_closer_in: "fold (closer ix v) ns c \<in> insert c (set ns)"
proof (induction ns arbitrary: c)
  case (Cons n ns)
  have "closer ix v n c \<in> {n, c}" by (simp add: closer_def)
  then show ?case using Cons [of "closer ix v n c"] by auto
qed simp

text \<open>What a step of a traversal at a level can reach.\<close>

definition adjacent :: "('i::linorder, 'i node) btree \<Rightarrow> nat \<Rightarrow> 'i \<Rightarrow> 'i set" where
  "adjacent nodes l i = nbrs nodes l i \<union> (if l = 0 then bb nodes i else {})"

definition closed_level :: "('i::linorder, 'i node) btree \<Rightarrow> nat \<Rightarrow> bool" where
  "closed_level nodes l \<longleftrightarrow> (\<forall>i j. at_level nodes l i \<longrightarrow> j \<in> adjacent nodes l i \<longrightarrow> at_level nodes l j)"

lemma greedy_next_in:
  assumes "bt_get (hx_nodes ix) i = Some node" "l < length (nd_neighbours node)"
  shows "greedy_next ix v l i node \<in> insert i (adjacent (hx_nodes ix) l i)"
proof -
  let ?next = "fold (closer ix v) (bs_list (nd_neighbours node ! l)) i"
  have "?next \<in> insert i (nbrs (hx_nodes ix) l i)"
    using fold_closer_in [of ix v "bs_list (nd_neighbours node ! l)" i] assms by (simp add: nbrs_def)
  moreover have "fold (closer ix v) (bs_list (nd_backbone node)) ?next \<in> insert ?next (bb (hx_nodes ix) i)"
    using fold_closer_in [of ix v "bs_list (nd_backbone node)" ?next] assms(1) by (simp add: bb_def)
  ultimately show ?thesis by (auto simp: greedy_next_def Let_def adjacent_def)
qed

lemma greedy_stays:
  assumes "closed_level (hx_nodes ix) l" "at_level (hx_nodes ix) l i"
  shows "\<exists>j. greedy_at_level ix v l budget i = Some j \<and> at_level (hx_nodes ix) l j"
  using assms(2)
proof (induction budget arbitrary: i)
  case (Suc budget)
  then obtain node where node: "bt_get (hx_nodes ix) i = Some node" "l < length (nd_neighbours node)"
    by (auto simp: at_level_def)
  then have "at_level (hx_nodes ix) l (greedy_next ix v l i node)"
    using greedy_next_in [OF node, of v] assms(1) Suc.prems by (auto simp: closed_level_def)
  with node Suc show ?case by (simp add: Let_def)
qed simp

lemma expand_in:
  assumes "at_level (hx_nodes ix) l i"
  shows "\<exists>found. expand ix l i visited = Some found \<and>
    set found = {j \<in> adjacent (hx_nodes ix) l i. \<not> bs_mem j visited}"
  using assms by (auto simp: at_level_def expand_def unvisited_def adjacent_def nbrs_def bb_def)

lemma keep_best_in: "set (keep_best ix v retained i results) \<subseteq> insert i (set results)"
  by (auto simp: keep_best_def Let_def dest!: in_set_butlastD)

lemma search_stays:
  assumes "closed_level (hx_nodes ix) l"
    and "\<forall>i \<in> set frontier \<union> set results. at_level (hx_nodes ix) l i"
  shows "\<exists>out. search_loop ix v l retained budget visited frontier results = Some out \<and>
    (\<forall>i \<in> set out. at_level (hx_nodes ix) l i)"
  using assms
proof (induction ix v l retained budget visited frontier results rule: search_loop.induct)
  case (1 ix v l retained budget visited frontier results)
  show ?case
  proof (cases "frontier = [] \<or> budget \<le> bt_len visited")
    case True
    with "1.prems" show ?thesis by (subst search_loop.simps) auto
  next
    case open_loop: False
    show ?thesis
    proof (cases "sort_key (dist_key ix v) frontier")
      case Nil
      then have "length frontier = 0" by (metis length_0_conv length_sort)
      with open_loop show ?thesis by simp
    next
      case (Cons current rest)
      then have in_frontier: "insert current (set rest) = set frontier"
        by (metis list.simps(15) set_sort)
      show ?thesis
      proof (cases "bs_mem current visited")
        case True
        have "\<forall>i \<in> set rest \<union> set results. at_level (hx_nodes ix) l i"
          using "1.prems"(2) in_frontier by auto
        from "1.IH"(1) [OF open_loop Cons True "1.prems"(1) this] show ?thesis
          using open_loop Cons True by (subst search_loop.simps) simp
      next
        case fresh: False
        show ?thesis
        proof (cases "beyond ix v retained current results")
          case True
          with open_loop Cons fresh "1.prems" show ?thesis by (subst search_loop.simps) auto
        next
          case inside: False
          have lev: "at_level (hx_nodes ix) l current" using "1.prems"(2) in_frontier by auto
          obtain found where found: "expand ix l current (bs_insert current visited) = Some found"
            "set found = {j \<in> adjacent (hx_nodes ix) l current. \<not> bs_mem j (bs_insert current visited)}"
            using expand_in [OF lev] by blast
          have "\<forall>i \<in> set (rest @ found) \<union> set (keep_best ix v retained current results).
              at_level (hx_nodes ix) l i"
            using "1.prems" in_frontier lev found(2) keep_best_in [of ix v retained current results]
            by (auto simp: closed_level_def)
          from "1.IH"(2) [OF open_loop Cons fresh inside found(1) "1.prems"(1) this] show ?thesis
            using open_loop Cons fresh inside found(1) by (subst search_loop.simps) simp
        qed
      qed
    qed
  qed
qed

lemma search_layer_stays:
  assumes "closed_level (hx_nodes ix) l" "at_level (hx_nodes ix) l entry"
  shows "\<exists>out. search_layer ix v [entry] l retained budget = Some out \<and>
    (\<forall>i \<in> set out. at_level (hx_nodes ix) l i)"
  unfolding search_layer_def by (rule search_stays) (use assms in auto)

end
