(* ===== verification/Hnsw_Backbone.thy ===== *)
theory Hnsw_Backbone
  imports Hnsw_Links
begin

text \<open>
  The backbone of the HNSW graph: a single cycle through every node (an edge for two nodes,
  nothing for one). Splicing a node into it and bypassing a removed one keep it a cycle.
\<close>

section \<open>Cycles\<close>

definition edges :: "('i \<Rightarrow> 'i set) \<Rightarrow> ('i \<times> 'i) set" where
  "edges b = {(x, y). y \<in> b x}"

lemma edges_iff [simp]: "(x, y) \<in> edges b \<longleftrightarrow> y \<in> b x"
  by (simp add: edges_def)

text \<open>Symmetric and irreflexive on the nodes, of the expected degree everywhere, connected.\<close>

definition ring :: "'i set \<Rightarrow> ('i \<Rightarrow> 'i set) \<Rightarrow> bool" where
  "ring D b \<longleftrightarrow> finite D \<and> (\<forall>x y. y \<in> b x \<longrightarrow> x \<in> b y \<and> x \<noteq> y \<and> x \<in> D \<and> y \<in> D) \<and>
     (\<forall>x \<in> D. card (b x) = expected_degree (card D)) \<and>
     (\<forall>x \<in> D. \<forall>y \<in> D. (x, y) \<in> (edges b)\<^sup>*)"

lemma ring_sub: "ring D b \<Longrightarrow> b x \<subseteq> D"
  by (auto simp: ring_def)

lemma ring_dom: "ring D b \<Longrightarrow> y \<in> b x \<Longrightarrow> x \<in> D"
  by (auto simp: ring_def)

lemma ring_finite:
  assumes "ring D b"
  shows "finite (b x)"
  by (rule finite_subset [OF ring_sub [OF assms]]) (use assms in \<open>simp add: ring_def\<close>)

lemma ring_sym: "ring D b \<Longrightarrow> y \<in> b x \<Longrightarrow> x \<in> b y"
  by (auto simp: ring_def)

lemma ring_irrefl: "ring D b \<Longrightarrow> x \<notin> b x"
  by (auto simp: ring_def)

lemma ring_outside: "ring D b \<Longrightarrow> x \<notin> D \<Longrightarrow> b x = {}"
  by (auto simp: ring_def)

lemma ring_single: "ring {i} (\<lambda>_. {})"
  by (simp add: ring_def expected_degree_def)

text \<open>A relation that covers every old edge by a path connects what the old one connected.\<close>

lemma connected_cover:
  assumes "\<And>x y. y \<in> b x \<Longrightarrow> (x, y) \<in> (edges b')\<^sup>*" "(x, y) \<in> (edges b)\<^sup>*"
  shows "(x, y) \<in> (edges b')\<^sup>*"
proof -
  have "edges b \<subseteq> (edges b')\<^sup>*" using assms(1) by (auto simp: edges_def)
  then have "(edges b)\<^sup>* \<subseteq> ((edges b')\<^sup>*)\<^sup>*" by (rule rtrancl_mono)
  then show ?thesis using assms(2) by (auto simp: rtrancl_idemp)
qed

subsection \<open>Splicing a node in\<close>

definition spliced :: "'i \<Rightarrow> 'i \<Rightarrow> 'i \<Rightarrow> ('i \<Rightarrow> 'i set) \<Rightarrow> 'i \<Rightarrow> 'i set" where
  "spliced i a s b =
     (if card (b a) = 1 then b(i := {a, s}, a := insert i (b a), s := insert i (b s))
      else b(i := {a, s}, a := insert i (b a - {s}), s := insert i (b s - {a})))"

lemma ring_splice_single:
  assumes "ring D b" "a \<in> D" "i \<notin> D" "b a = {}"
  shows "ring (insert i D) (b(i := {a}, a := {i}))"
proof -
  have "D = {a}"
  proof -
    have "y = a" if "y \<in> D" for y
    proof -
      have "(a, y) \<in> (edges b)\<^sup>*" using assms(1,2) that by (simp add: ring_def)
      then show ?thesis by (induction rule: rtrancl_induct) (use assms(4) in auto)
    qed
    with assms(2) show ?thesis by blast
  qed
  have none: "b x = {}" for x using assms(4) ring_outside [OF assms(1), of x] \<open>D = {a}\<close> by (cases "x = a") simp_all
  have "i \<noteq> a" using assms(2,3) by auto
  let ?b = "b(i := {a}, a := {i})"
  have "(i, a) \<in> (edges ?b)\<^sup>*" "(a, i) \<in> (edges ?b)\<^sup>*" using \<open>i \<noteq> a\<close> by (auto intro!: r_into_rtrancl)
  then show ?thesis using \<open>D = {a}\<close> \<open>i \<noteq> a\<close> none
    by (auto simp: ring_def expected_degree_def)
qed

lemma ring_splice:
  assumes ring: "ring D b" and a: "a \<in> D" and i: "i \<notin> D" and s: "s \<in> b a"
  shows "ring (insert i D) (spliced i a s b)"
proof -
  let ?b = "spliced i a s b" and ?n = "card D"
  have sD: "s \<in> D" using ring_sub [OF ring] s by auto
  have sa: "a \<in> b s" "s \<noteq> a" using ring s by (auto simp: ring_def)
  have ia: "i \<noteq> a" "i \<noteq> s" using a i sD by auto
  have i_not: "i \<notin> b x" for x using ring_sub [OF ring, of x] i by auto
  have bi: "b i = {}" using ring_outside [OF ring i] .
  have deg: "card (b x) = expected_degree ?n" if "x \<in> D" for x using ring that by (simp add: ring_def)
  have finD: "finite D" using ring by (simp add: ring_def)
  have n2: "2 \<le> ?n"
    using card_mono [of D "{a, s}"] finD a sD sa(2) by simp
  have card_new: "card (insert i D) = Suc ?n" using ring i by (simp add: ring_def)
  have fin: "finite (b x)" for x using ring_finite [OF ring] .
  have sym: "x \<in> ?b y" "x \<noteq> y" "x \<in> insert i D" "y \<in> insert i D" if "y \<in> ?b x" for x y
    using that ring_sym [OF ring, of y x] ring_sym [OF ring, of x y] ring_irrefl [OF ring, of x] ring_dom [OF ring, of y x]
      ring_dom [OF ring, of x y] s sa a sD ia i_not bi
    by (auto simp: spliced_def split: if_splits)
  have new_deg: "card (?b x) = expected_degree (Suc ?n)" if "x \<in> insert i D" for x
  proof (cases "?n = 2")
    case True
    have D2: "D = {a, s}"
      using card_subset_eq [of D "{a, s}"] finD a sD sa(2) True by simp
    have "card (b a) = 1" using deg [OF a] True by (simp add: expected_degree_def)
    then have "b a = {s}" using s by (metis card_1_singletonE singletonD)
    moreover have "card (b s) = 1" using deg [OF sD] True by (simp add: expected_degree_def)
    then have "b s = {a}" using sa(1) by (metis card_1_singletonE singletonD)
    ultimately show ?thesis
      using that D2 ia sa(2) by (auto simp: spliced_def expected_degree_def)
  next
    case False
    then have deg2: "card (b x) = 2" if "x \<in> D" for x
      using deg [OF that] n2 by (simp add: expected_degree_def)
    then show ?thesis
      using that False n2 a sD s sa ia i_not fin
      by (auto simp: spliced_def expected_degree_def card_insert_if card_Diff_singleton)
  qed
  have step: "(x, y) \<in> (edges ?b)\<^sup>*" if "y \<in> b x" for x y
  proof (cases "y \<in> ?b x")
    case True
    then show ?thesis by (auto intro: r_into_rtrancl)
  next
    case False
    then have "x = a \<and> y = s \<or> x = s \<and> y = a"
      using that ia bi sa by (auto simp: spliced_def split: if_splits)
    moreover have "i \<in> ?b a" "a \<in> ?b i" "i \<in> ?b s" "s \<in> ?b i"
      using ia sa(2) by (auto simp: spliced_def)
    ultimately show ?thesis
      by (auto intro: rtrancl_trans [OF r_into_rtrancl r_into_rtrancl, of _ i])
  qed
  have old: "(x, y) \<in> (edges ?b)\<^sup>*" if "x \<in> D" "y \<in> D" for x y
  proof (rule connected_cover [OF step])
    show "(x, y) \<in> (edges b)\<^sup>*" using ring that unfolding ring_def by blast
  qed
  have "i \<in> ?b a" "a \<in> ?b i" using ia sa(2) by (auto simp: spliced_def)
  then have "(i, a) \<in> (edges ?b)\<^sup>*" "(a, i) \<in> (edges ?b)\<^sup>*" by (auto intro: r_into_rtrancl)
  then have conn: "(x, y) \<in> (edges ?b)\<^sup>*" if "x \<in> insert i D" "y \<in> insert i D" for x y
    using that old a by (auto intro: rtrancl_trans)
  show ?thesis
    using ring sym new_deg conn unfolding ring_def card_new by auto
qed

subsection \<open>Bypassing a node\<close>

definition bypassed :: "'i \<Rightarrow> ('i \<Rightarrow> 'i set) \<Rightarrow> 'i \<Rightarrow> 'i set" where
  "bypassed i b x =
     (if x = i then {}
      else (b x - {i}) \<union> (if x \<in> b i then b i - {x} else {}))"

lemma ring_bypass:
  assumes ring: "ring D b" and i: "i \<in> D"
  shows "ring (D - {i}) (bypassed i b)"
proof -
  let ?b = "bypassed i b" and ?n = "card D"
  have sym: "x \<in> ?b y" "x \<noteq> y" "x \<in> D - {i}" "y \<in> D - {i}" if "y \<in> ?b x" for x y
    using that ring_sym [OF ring, of y x] ring_irrefl [OF ring, of x] ring_dom [OF ring, of y x]
      ring_dom [OF ring, of x y] ring_sub [OF ring, of i] ring_irrefl [OF ring, of i]
    by (auto simp: bypassed_def split: if_splits)
  have fin: "finite D" "\<And>x. finite (b x)" using ring ring_finite [OF ring] by (auto simp: ring_def)
  have deg: "card (b x) = expected_degree ?n" if "x \<in> D" for x using ring that by (simp add: ring_def)
  have card_new: "card (D - {i}) = ?n - 1" using fin i by simp
  have new_deg: "card (?b x) = expected_degree (?n - 1)" if x: "x \<in> D" "x \<noteq> i" for x
  proof (cases "?n \<le> 2")
    case True
    then have D2: "D = {x, i}"
      using card_seteq [of D "{x, i}"] fin i x by auto
    then have "?b x = {}"
      using ring_sub [OF ring] ring_irrefl [OF ring] x by (auto simp: bypassed_def)
    then show ?thesis using True by (simp add: expected_degree_def)
  next
    case False
    then have deg2: "card (b y) = 2" if "y \<in> D" for y
      using deg [OF that] by (simp add: expected_degree_def)
    show ?thesis
    proof (cases "x \<in> b i")
      case out: False
      then have "?b x = b x" using x ring_sym [OF ring, of i x] by (auto simp: bypassed_def)
      moreover have "?n \<noteq> 3"
      proof
        assume "?n = 3"
        have "insert x (insert i (b i)) \<subseteq> D" using ring_sub [OF ring] i x by auto
        moreover have "card (insert x (insert i (b i))) = 4"
          using out x ring_irrefl [OF ring, of i] deg2 [OF i] fin by (simp add: card_insert_if)
        ultimately show False
          using card_mono [OF fin(1), of "insert x (insert i (b i))"] \<open>?n = 3\<close> by linarith
      qed
      ultimately show ?thesis using deg2 [OF x(1)] False by (simp add: expected_degree_def) arith
    next
      case anchor: True
      obtain p q where pq: "b i = {p, q}" "p \<noteq> q" using deg2 [OF i] by (auto simp: card_2_iff)
      define r where "r = (if x = p then q else p)"
      have r: "b i = {x, r}" "r \<noteq> x" using pq anchor by (auto simp: r_def)
      have rD: "r \<in> D" "r \<noteq> i" using ring_sub [OF ring, of i] ring_irrefl [OF ring, of i] r by auto
      have i_in: "i \<in> b x" "i \<in> b r" using ring_sym [OF ring, of x i] ring_sym [OF ring, of r i] r by auto
      have b': "?b x = insert r (b x - {i})" using x r anchor by (auto simp: bypassed_def)
      have one: "card (b x - {i}) = 1" using deg2 [OF x(1)] i_in fin by simp
      show ?thesis
      proof (cases "?n = 3")
        case True
        have "b x - {i} \<subseteq> {r}"
        proof -
          have "D = {x, r, i}"
            using card_subset_eq [of D "{x, r, i}"] fin(1) i x rD r(2) True by simp
          then show ?thesis using ring_sub [OF ring, of x] ring_irrefl [OF ring, of x] by blast
        qed
        then have "?b x = {r}" using b' by auto
        then show ?thesis using True by (simp add: expected_degree_def)
      next
        case big: False
        have "r \<notin> b x"
        proof
          assume "r \<in> b x"
          then have bx: "b x = {i, r}"
            using deg2 [OF x(1)] i_in(1) rD card_seteq [of "b x" "{i, r}"] fin by auto
          have "x \<in> b r" using ring_sym [OF ring] \<open>r \<in> b x\<close> .
          then have br: "b r = {i, x}"
            using deg2 [OF rD(1)] i_in(2) x card_seteq [of "b r" "{i, x}"] fin by auto
          have "y \<in> {x, r, i}" if "y \<in> D" for y
          proof -
            have "(i, y) \<in> (edges b)\<^sup>*" using ring i that by (simp add: ring_def)
            then show ?thesis by (induction rule: rtrancl_induct) (use r bx br in auto)
          qed
          then have "card D \<le> card {x, r, i}" by (intro card_mono) auto
          then show False using big \<open>\<not> ?n \<le> 2\<close> by (simp add: card_insert_if split: if_splits)
        qed
        then show ?thesis
          using b' one fin big \<open>\<not> ?n \<le> 2\<close> by (simp add: card_insert_if expected_degree_def) arith
      qed
    qed
  qed
  have conn: "(x, y) \<in> (edges ?b)\<^sup>*" if x: "x \<in> D" "x \<noteq> i" and y: "y \<in> D" "y \<noteq> i" for x y
  proof -
    have "(x, y) \<in> (edges b)\<^sup>*" using ring x y by (simp add: ring_def)
    then have "if y = i then (\<forall>a \<in> b i. (x, a) \<in> (edges ?b)\<^sup>*) else (x, y) \<in> (edges ?b)\<^sup>*"
    proof (induction rule: rtrancl_induct)
      case (step y z)
      have across: "(a, c) \<in> (edges ?b)\<^sup>*" if "a \<in> b i" "c \<in> b i" for a c
      proof (cases "a = c")
        case False
        then have "c \<in> ?b a" using that ring_irrefl [OF ring, of i] by (auto simp: bypassed_def)
        then show ?thesis by (auto intro: r_into_rtrancl)
      qed simp
      have yz: "z \<in> b y" using step.hyps(2) by simp
      show ?case
      proof (cases "y = i")
        case True
        then show ?thesis using step.IH yz ring_irrefl [OF ring, of i] by auto
      next
        case False
        show ?thesis
        proof (cases "z = i")
          case True
          then have "y \<in> b i" using yz ring_sym [OF ring] by simp
          then show ?thesis using True False step.IH across by (auto intro: rtrancl_trans)
        next
          case zi: False
          then have "z \<in> ?b y" using False yz by (simp add: bypassed_def)
          then show ?thesis using False zi step.IH by (auto intro: rtrancl_into_rtrancl)
        qed
      qed
    qed (use x in simp)
    then show ?thesis using y by simp
  qed
  show ?thesis
    using fin sym new_deg conn unfolding ring_def card_new by auto
qed

section \<open>The code's operations on the backbone\<close>

text \<open>What operations on the backbone keep: everything else of every node.\<close>

definition flesh :: "('i::linorder, 'i node) btree \<Rightarrow> 'i \<Rightarrow> (f32 list \<times> nat \<times> 'i bset list) option" where
  "flesh nodes i = map_option (\<lambda>n. (nd_vector n, nd_level n, nd_neighbours n)) (bt_get nodes i)"

lemma flesh_dom: "flesh nodes = flesh nodes' \<Longrightarrow> bt_get nodes i = None \<longleftrightarrow> bt_get nodes' i = None"
  by (drule fun_cong [of _ _ i]) (auto simp: flesh_def map_option_case split: option.splits)

lemma flesh_nbrs: "flesh nodes = flesh nodes' \<Longrightarrow> nbrs nodes l i = nbrs nodes' l i"
  by (drule fun_cong [of _ _ i]) (auto simp: flesh_def nbrs_def map_option_case split: option.splits)

lemma flesh_at_level: "flesh nodes = flesh nodes' \<Longrightarrow> at_level nodes l i = at_level nodes' l i"
  by (drule fun_cong [of _ _ i]) (auto simp: flesh_def at_level_def map_option_case split: option.splits)

lemma add_backbone_bb:
  "bt_get nodes i \<noteq> None \<Longrightarrow>
     bb (add_backbone i other nodes) x = (if x = i then insert other (bb nodes x) else bb nodes x)"
  "flesh (add_backbone i other nodes) = flesh nodes"
  by (auto simp: bb_def flesh_def add_backbone_def btree_simps fun_eq_iff split: option.splits)

lemma drop_backbone_bb:
  "bb (drop_backbone other i nodes) x = (if x = i then bb nodes x - {other} else bb nodes x)"
  "flesh (drop_backbone other i nodes) = flesh nodes"
  by (auto simp: bb_def flesh_def drop_backbone_def btree_simps fun_eq_iff split: option.splits)

lemma add_backbone_dom [simp]: "bt_get (add_backbone i other nodes) x = None \<longleftrightarrow> bt_get nodes x = None"
  using flesh_dom [OF add_backbone_bb(2)] .

lemma drop_backbone_dom [simp]: "bt_get (drop_backbone other i nodes) x = None \<longleftrightarrow> bt_get nodes x = None"
  using flesh_dom [OF drop_backbone_bb(2)] .

lemma connect_backbone_bb:
  assumes "bt_get nodes a \<noteq> None" "bt_get nodes b \<noteq> None" "a \<noteq> b"
  shows "bb (connect_backbone a b nodes) x =
    (if x = a then insert b (bb nodes x) else if x = b then insert a (bb nodes x) else bb nodes x)"
  using assms by (simp add: connect_backbone_def add_backbone_bb)

lemma connect_backbone_flesh [simp]: "flesh (connect_backbone a b nodes) = flesh nodes"
  by (simp add: connect_backbone_def add_backbone_bb)

lemma connect_backbone_dom [simp]: "bt_get (connect_backbone a b nodes) x = None \<longleftrightarrow> bt_get nodes x = None"
  by (simp add: connect_backbone_def)

lemma disconnect_backbone_bb:
  "bb (disconnect_backbone a b nodes) x =
     (if x = b then bb nodes x - {a} else if x = a then bb nodes x - {b} else bb nodes x)" if "a \<noteq> b"
  using that by (auto simp: disconnect_backbone_def drop_backbone_bb)

lemma disconnect_backbone_flesh [simp]: "flesh (disconnect_backbone a b nodes) = flesh nodes"
  by (simp add: disconnect_backbone_def drop_backbone_bb)

lemma disconnect_backbone_dom [simp]: "bt_get (disconnect_backbone a b nodes) x = None \<longleftrightarrow> bt_get nodes x = None"
  by (simp add: disconnect_backbone_def)

definition node_ids :: "('i::linorder, 'i node) btree \<Rightarrow> 'i set" where
  "node_ids nodes = {i. bt_get nodes i \<noteq> None}"

lemma finite_node_ids [simp]: "finite (node_ids nodes)"
  unfolding node_ids_def by (rule finite_bt_dom)

lemma card_node_ids: "card (node_ids nodes) = bt_len nodes"
  by (simp only: node_ids_def bt_len_card)

lemma bb_list: "bt_get nodes a = Some node \<Longrightarrow> set (bs_list (nd_backbone node)) = bb nodes a"
  by (simp add: bb_def)

text \<open>
  A node without a backbone, spliced in at an anchor of a cycle through the others, joins
  the cycle.
\<close>

lemma splice_backbone_ring:
  assumes ring: "ring (node_ids nodes - {i}) (bb nodes)"
    and i: "i \<in> node_ids nodes" and a: "a \<in> node_ids nodes" "a \<noteq> i"
  shows "\<exists>nodes'. splice_backbone i a nodes = Some nodes' \<and> flesh nodes' = flesh nodes \<and>
    ring (node_ids nodes') (bb nodes')"
proof -
  let ?D = "node_ids nodes - {i}"
  obtain node where node: "bt_get nodes a = Some node" using a by (auto simp: node_ids_def)
  have aD: "a \<in> ?D" "i \<notin> ?D" "insert i ?D = node_ids nodes" using a i by auto
  have dom: "bt_get nodes x \<noteq> None" if "x \<in> node_ids nodes" for x using that by (simp add: node_ids_def)
  have bi: "bb nodes i = {}" using ring_outside [OF ring aD(2)] .
  have list: "set (bs_list (nd_backbone node)) = bb nodes a" "distinct (bs_list (nd_backbone node))"
    using bb_list [OF node] by simp_all
  show ?thesis
  proof (cases "bs_list (nd_backbone node)")
    case Nil
    then have empty: "bb nodes a = {}" using list by simp
    let ?new = "connect_backbone i a nodes"
    have "bb ?new = (bb nodes)(i := {a}, a := {i})"
      using connect_backbone_bb [OF dom [OF i] dom [OF a(1)]] a(2) bi empty by (auto simp: fun_eq_iff)
    moreover have "node_ids ?new = insert i ?D" using aD(3) by (simp add: node_ids_def del: not_None_eq)
    ultimately show ?thesis using ring_splice_single [OF ring aD(1,2) empty] node Nil
      by (simp add: splice_backbone_def)
  next
    case (Cons s rest)
    have s: "s \<in> bb nodes a" using Cons list(1) by auto
    then have sD: "s \<in> node_ids nodes" "s \<noteq> i" using ring_sub [OF ring, of a] by auto
    have "s \<noteq> a" using s ring_irrefl [OF ring, of a] by auto
    note ne = a(2) sD(2) \<open>s \<noteq> a\<close>
    define new where "new = (if rest = [] then connect_backbone i s (connect_backbone a i nodes)
      else connect_backbone i s (connect_backbone a i (disconnect_backbone a s nodes)))"
    have "card (bb nodes a) = 1 \<longleftrightarrow> rest = []"
      using list Cons by (simp add: distinct_card [symmetric] flip: list(1))
    then have "bb new = spliced i a s (bb nodes)"
      using ne dom [OF i] dom [OF a(1)] dom [OF sD(1)] bi
      by (auto simp: new_def spliced_def connect_backbone_bb disconnect_backbone_bb fun_eq_iff simp del: not_None_eq)
    moreover have "node_ids new = insert i ?D" "flesh new = flesh nodes"
      using aD(3) by (simp_all add: new_def node_ids_def del: not_None_eq)
    moreover have "splice_backbone i a nodes = Some new"
      using node Cons by (auto simp: splice_backbone_def new_def split: list.splits)
    ultimately show ?thesis using ring_splice [OF ring aD(1,2) s] by auto
  qed
qed

text \<open>Removing a node of the cycle and bypassing it leaves a cycle through the others.\<close>

lemma drop_backbones_bb:
  "bb (fold (drop_backbone i) anchors nodes) x = (if x \<in> set anchors then bb nodes x - {i} else bb nodes x)"
  "flesh (fold (drop_backbone i) anchors nodes) = flesh nodes"
  by (induction anchors arbitrary: nodes) (auto simp: drop_backbone_bb)

lemma bypass_backbone_ring:
  assumes ring: "ring (insert i (node_ids nodes)) b" and i: "i \<notin> node_ids nodes"
    and b: "\<And>x. x \<noteq> i \<Longrightarrow> bb nodes x = b x" "set (bs_list s) = b i"
  shows "flesh (bypass_backbone i s nodes) = flesh nodes \<and>
    ring (node_ids (bypass_backbone i s nodes)) (bb (bypass_backbone i s nodes))"
proof -
  let ?mid = "fold (drop_backbone i) (bs_list s) nodes"
  have dom: "bt_get ?mid x = None \<longleftrightarrow> bt_get nodes x = None" for x
    using flesh_dom [OF drop_backbones_bb(2)] .
  have bbi: "bb nodes i = {}" using i by (simp add: bb_def node_ids_def)
  have i_not: "i \<notin> b i" using ring_irrefl [OF ring] .
  have mid: "bb ?mid x = (if x = i then {} else b x - {i})" for x
  proof (cases "x \<in> b i")
    case False
    then have "i \<notin> b x" using ring_sym [OF ring, of i x] by blast
    with False show ?thesis using b bbi by (simp add: drop_backbones_bb)
  next
    case True
    with i_not have "x \<noteq> i" by auto
    with True show ?thesis using b by (simp add: drop_backbones_bb)
  qed
  have anchors: "x \<in> node_ids nodes" if "x \<in> b i" for x
    using that ring_sub [OF ring, of i] i_not by auto
  have card2: "card (b i) \<le> 2"
    using ring by (simp add: ring_def expected_degree_def split: if_splits)
  have len: "length (bs_list s) = card (b i)" by (metis b(2) bs_list_distinct distinct_card)
  have result: "bb (bypass_backbone i s nodes) = bypassed i b"
  proof (cases "card (b i) = 2")
    case True
    then obtain l r where lr: "bs_list s = [l, r]"
      using len by (metis (no_types, lifting) Suc_length_conv length_0_conv numeral_2_eq_2)
    then have "l \<noteq> r" "b i = {l, r}" using bs_list_distinct [of s] b(2) by (simp, simp)
    moreover have "bt_get ?mid l \<noteq> None" "bt_get ?mid r \<noteq> None"
      using anchors calculation(2) by (simp_all add: dom node_ids_def)
    ultimately show ?thesis
      using lr i_not connect_backbone_bb [of ?mid l r] mid
      by (auto simp: bypass_backbone_def Let_def bypassed_def fun_eq_iff)
  next
    case False
    then have short: "card (b i) \<le> 1" using card2 by simp
    then have "bypass_backbone i s nodes = ?mid"
      using len by (cases "bs_list s"; cases "tl (bs_list s)") (auto simp: bypass_backbone_def Let_def)
    moreover have "b i - {x} = {}" if "x \<in> b i" for x
      using short that card_le_Suc0_iff_eq [of "b i"] ring_finite [OF ring] by auto
    ultimately show ?thesis using mid by (auto simp: bypassed_def fun_eq_iff)
  qed
  have flesh: "flesh (bypass_backbone i s nodes) = flesh nodes"
    by (auto simp: bypass_backbone_def Let_def drop_backbone_bb drop_backbones_bb split: list.splits)
  then have "node_ids (bypass_backbone i s nodes) = insert i (node_ids nodes) - {i}"
    using flesh_dom [OF flesh] i by (auto simp: node_ids_def simp del: not_None_eq)
  then show ?thesis using ring_bypass [OF ring, of i] result flesh by simp
qed

end
