(* ===== verification/Hnsw_Wf.thy ===== *)
theory Hnsw_Wf
  imports Hnsw_Backbone
begin

text \<open>
  The invariant of the HNSW engine, that insertion and removal keep it and never index out of
  bounds, and that it is exactly what the checks of a decoded snapshot accept.
\<close>

section \<open>The invariant\<close>

definition node_shape :: "hnsw_config \<Rightarrow> 'i::linorder node \<Rightarrow> bool" where
  "node_shape config node \<longleftrightarrow>
     length (nd_vector node) = dimensions config \<and> list_all f32_is_finite (nd_vector node) \<and>
     nd_level node \<le> 16 \<and> length (nd_neighbours node) = nd_level node + 1"

definition shapes :: "hnsw_config \<Rightarrow> ('i::linorder, 'i node) btree \<Rightarrow> bool" where
  "shapes config nodes \<longleftrightarrow> (\<forall>i node. bt_get nodes i = Some node \<longrightarrow> node_shape config node)"

definition links_ok :: "hnsw_config \<Rightarrow> ('i::linorder, 'i node) btree \<Rightarrow> bool" where
  "links_ok config nodes \<longleftrightarrow> (\<forall>l. linked_at nodes l \<and> bounded_at config nodes l)"

text \<open>The canonical entry: the least identity among the nodes of the highest level.\<close>

definition entry_ok :: "('i::linorder, 'i node) btree \<Rightarrow> 'i option \<Rightarrow> nat \<Rightarrow> bool" where
  "entry_ok nodes entry highest \<longleftrightarrow>
     (case entry of
        None \<Rightarrow> node_ids nodes = {} \<and> highest = 0
      | Some e \<Rightarrow> (\<exists>node. bt_get nodes e = Some node \<and> nd_level node = highest) \<and>
          (\<forall>i node. bt_get nodes i = Some node \<longrightarrow> nd_level node \<le> highest \<and> (nd_level node = highest \<longrightarrow> e \<le> i)))"

definition hnsw_wf :: "'i::linorder hnsw \<Rightarrow> bool" where
  "hnsw_wf ix \<longleftrightarrow>
     validate_config (hx_config ix) = Inr () \<and> hx_state ix \<noteq> 0 \<and>
     entry_ok (hx_nodes ix) (hx_entry ix) (hx_max_level ix) \<and>
     shapes (hx_config ix) (hx_nodes ix) \<and> links_ok (hx_config ix) (hx_nodes ix) \<and>
     ring (node_ids (hx_nodes ix)) (bb (hx_nodes ix))"

subsection \<open>What each part depends on\<close>

lemma skeleton_get:
  "skeleton nodes' = skeleton nodes \<Longrightarrow> bt_get nodes' i = Some n' \<Longrightarrow>
     \<exists>n. bt_get nodes i = Some n \<and> nd_vector n' = nd_vector n \<and> nd_level n' = nd_level n \<and>
       length (nd_neighbours n') = length (nd_neighbours n) \<and> nd_backbone n' = nd_backbone n"
  by (drule fun_cong [of _ _ i]) (auto simp: skeleton_def map_option_case split: option.splits)

lemma flesh_get:
  "flesh nodes' = flesh nodes \<Longrightarrow> bt_get nodes' i = Some n' \<Longrightarrow>
     \<exists>n. bt_get nodes i = Some n \<and> nd_vector n' = nd_vector n \<and> nd_level n' = nd_level n \<and>
       nd_neighbours n' = nd_neighbours n"
  by (drule fun_cong [of _ _ i]) (auto simp: flesh_def map_option_case split: option.splits)

lemma shapes_skeleton: "skeleton nodes' = skeleton nodes \<Longrightarrow> shapes config nodes \<Longrightarrow> shapes config nodes'"
  by (fastforce simp: shapes_def node_shape_def dest: skeleton_get)

lemma shapes_flesh: "flesh nodes' = flesh nodes \<Longrightarrow> shapes config nodes \<Longrightarrow> shapes config nodes'"
  by (fastforce simp: shapes_def node_shape_def dest: flesh_get)

lemma links_ok_flesh: "flesh nodes' = flesh nodes \<Longrightarrow> links_ok config nodes \<Longrightarrow> links_ok config nodes'"
  using flesh_nbrs [of nodes' nodes] by (simp add: links_ok_def linked_at_def bounded_at_def)

lemma node_ids_skeleton: "skeleton nodes' = skeleton nodes \<Longrightarrow> node_ids nodes' = node_ids nodes"
  using dom_skeleton [of nodes' nodes] by (simp add: node_ids_def del: not_None_eq)

lemma node_ids_flesh: "flesh nodes' = flesh nodes \<Longrightarrow> node_ids nodes' = node_ids nodes"
  using flesh_dom [of nodes' nodes] by (simp add: node_ids_def del: not_None_eq)

text \<open>Entry and levels depend on the identities and their levels only.\<close>

definition levels :: "('i::linorder, 'i node) btree \<Rightarrow> 'i \<Rightarrow> nat option" where
  "levels nodes i = map_option nd_level (bt_get nodes i)"

lemma levels_of_skeleton: "levels nodes = (\<lambda>i. map_option (fst \<circ> snd) (skeleton nodes i))"
  by (auto simp: levels_def skeleton_def option.map_comp comp_def)

lemma levels_of_flesh: "levels nodes = (\<lambda>i. map_option (fst \<circ> snd) (flesh nodes i))"
  by (auto simp: levels_def flesh_def option.map_comp comp_def)

lemma levels_skeleton: "skeleton nodes' = skeleton nodes \<Longrightarrow> levels nodes' = levels nodes"
  by (simp add: levels_of_skeleton)

lemma levels_flesh: "flesh nodes' = flesh nodes \<Longrightarrow> levels nodes' = levels nodes"
  by (simp add: levels_of_flesh)

lemma entry_ok_levels:
  "entry_ok nodes entry highest \<longleftrightarrow>
     (case entry of
        None \<Rightarrow> (\<forall>i. levels nodes i = None) \<and> highest = 0
      | Some e \<Rightarrow> levels nodes e = Some highest \<and>
          (\<forall>i l. levels nodes i = Some l \<longrightarrow> l \<le> highest \<and> (l = highest \<longrightarrow> e \<le> i)))"
  by (auto simp: entry_ok_def levels_def node_ids_def split: option.splits)

section \<open>Entry selection\<close>

lemma fold_max: "fold max xs (a :: nat) = Max (insert a (set xs))"
proof (induction xs arbitrary: a)
  case (Cons x xs)
  have "fold max (x # xs) a = Max (insert (max x a) (set xs))" using Cons by simp
  also have "\<dots> = Max (insert a (set (x # xs)))"
    by (cases "set xs = {}") (simp_all add: insert_commute max.commute max.left_commute)
  finally show ?case .
qed simp

lemma top_level_bound: "bt_get nodes i = Some node \<Longrightarrow> nd_level node \<le> top_level nodes"
  unfolding top_level_def fold_max by (rule Max_ge) (auto simp: bt_values_iff intro!: imageI)

lemma top_level_attained:
  assumes "node_ids nodes \<noteq> {}"
  shows "\<exists>i node. bt_get nodes i = Some node \<and> nd_level node = top_level nodes"
proof -
  let ?S = "nd_level ` set (bt_values nodes)"
  have "top_level nodes \<in> insert 0 ?S"
    unfolding top_level_def fold_max set_map by (rule Max_in) simp_all
  moreover obtain i node where node: "bt_get nodes i = Some node" using assms by (auto simp: node_ids_def)
  ultimately show ?thesis using top_level_bound [OF node]
    by (fastforce simp: bt_values_iff image_iff)
qed

lemma select_entry_ok: "entry_ok nodes (select_entry nodes) (top_level nodes)"
proof (cases "node_ids nodes = {}")
  case True
  then have "bt_is_empty nodes" by (auto simp: node_ids_def bt_is_empty_iff)
  then have "bt_entries nodes = []" by (simp add: bt_is_empty_def)
  then show ?thesis using True by (simp add: entry_ok_def select_entry_def top_level_def bt_values_def)
next
  case False
  let ?f = "filter (\<lambda>(_, node). nd_level node = top_level nodes) (bt_entries nodes)"
  obtain i node where "bt_get nodes i = Some node" "nd_level node = top_level nodes"
    using top_level_attained [OF False] by blast
  then have "(i, node) \<in> set ?f" by (simp add: bt_entries_iff)
  then obtain e n rest where f: "?f = (e, n) # rest" by (cases ?f) auto
  then have e: "bt_get nodes e = Some n" "nd_level n = top_level nodes"
    using list.set_intros(1) [of "(e, n)" rest] unfolding f [symmetric] by (auto simp: bt_entries_iff)
  have sorted: "sorted_wrt (\<lambda>a b. fst a < fst b) ?f"
    using bt_entries_sorted [of nodes] by (simp add: sorted_wrt_map sorted_wrt_filter)
  have "e \<le> j" if "bt_get nodes j = Some m" "nd_level m = top_level nodes" for j m
  proof -
    have "(j, m) \<in> set ?f" using that by (simp add: bt_entries_iff)
    then show ?thesis using sorted unfolding f by auto
  qed
  then show ?thesis using e f top_level_bound [of nodes] by (auto simp: entry_ok_def select_entry_def)
qed

lemma entry_ok_unique:
  assumes "entry_ok nodes e t" "entry_ok nodes e' t'"
  shows "e = e' \<and> t = t'"
proof (cases e)
  case None
  with assms show ?thesis by (cases e') (simp_all add: entry_ok_levels)
next
  case e: (Some a)
  show ?thesis
  proof (cases e')
    case None
    with e assms show ?thesis by (simp add: entry_ok_levels)
  next
    case e': (Some b)
    have a: "levels nodes a = Some t" "\<And>i l. levels nodes i = Some l \<Longrightarrow> l \<le> t \<and> (l = t \<longrightarrow> a \<le> i)"
      using assms(1) by (auto simp: e entry_ok_levels)
    have b: "levels nodes b = Some t'" "\<And>i l. levels nodes i = Some l \<Longrightarrow> l \<le> t' \<and> (l = t' \<longrightarrow> b \<le> i)"
      using assms(2) by (auto simp: e' entry_ok_levels)
    have "t = t'" using a(2) [OF b(1)] b(2) [OF a(1)] by simp
    then have "a = b" using a(2) [OF b(1)] b(2) [OF a(1)] by auto
    with \<open>t = t'\<close> show ?thesis by (simp add: e e')
  qed
qed

lemma entry_ok_iff: "entry_ok nodes entry highest \<longleftrightarrow> entry = select_entry nodes \<and> highest = top_level nodes"
  using entry_ok_unique select_entry_ok by metis

section \<open>The level generator\<close>

lemma xor_eq_zero: "(a XOR b :: 'a::len word) = 0 \<longleftrightarrow> a = b"
  by (metis xor.left_neutral xor.right_neutral xor_self_eq xor.assoc)

lemma xor_left_nonzero: "0 < n \<Longrightarrow> xor_left n s = 0 \<Longrightarrow> s = 0"
proof (rule bit_word_eqI)
  fix k
  assume n: "0 < n" and "xor_left n s = 0"
  then have s: "s = push_bit n s" by (simp add: xor_left_def xor_eq_zero)
  have "\<not> bit s k"
  proof (induction k rule: less_induct)
    case (less k)
    have "bit s k \<longleftrightarrow> n \<le> k \<and> k < 64 \<and> bit s (k - n)"
      by (subst s) (auto simp: bit_push_bit_iff)
    then show ?case using less [of "k - n"] n by auto
  qed
  then show "bit s k \<longleftrightarrow> bit 0 k" by simp
qed

lemma xor_right_nonzero: "0 < n \<Longrightarrow> xor_right n s = 0 \<Longrightarrow> s = 0"
proof (rule bit_word_eqI)
  fix k
  assume n: "0 < n" and "xor_right n s = 0"
  then have s: "s = drop_bit n s" by (simp add: xor_right_def xor_eq_zero)
  have "\<not> bit s k" if "64 - k \<le> m" for m k
    using that
  proof (induction m arbitrary: k)
    case 0
    then show ?case using bit_imp_le_length [of s k] by auto
  next
    case (Suc m)
    have "bit s k \<longleftrightarrow> bit s (n + k)" by (subst s) (simp add: bit_drop_bit_eq)
    moreover have "64 - (n + k) \<le> m" using Suc.prems n by simp
    ultimately show ?case using Suc.IH by simp
  qed
  then show "bit s k \<longleftrightarrow> bit 0 k" by auto
qed

lemma advance_nonzero: "s \<noteq> 0 \<Longrightarrow> advance s \<noteq> 0"
  unfolding advance_def using xor_left_nonzero xor_right_nonzero by (metis zero_less_numeral)

lemma count_levels_bound: "count_levels n s \<le> n"
  by (induction n s rule: count_levels.induct) auto

section \<open>Removal\<close>

lemma shape_at_level: "shapes config nodes \<Longrightarrow> level_at_least nodes l i \<Longrightarrow> at_level nodes l i"
  by (fastforce simp: shapes_def node_shape_def level_at_least_def at_level_def split: option.splits)

lemma at_level_levels:
  "shapes config nodes \<Longrightarrow> at_level nodes l i \<longleftrightarrow> (\<exists>m. levels nodes i = Some m \<and> l \<le> m)"
  by (fastforce simp: shapes_def node_shape_def at_level_def levels_def)

lemma relink_kept:
  assumes kept: "level_kept l ix ix'" and shapes: "shapes (hx_config ix) (hx_nodes ix)"
  shows "\<exists>ix''. relink l p ix' = Some ix'' \<and> level_kept l ix ix''"
proof (cases "level_at_least (hx_nodes ix') l (fst p) \<and> level_at_least (hx_nodes ix') l (snd p)")
  case True
  have sk: "skeleton (hx_nodes ix') = skeleton (hx_nodes ix)" using kept by (simp add: level_kept_def relinked_def)
  have "at_level (hx_nodes ix) l q" if "level_at_least (hx_nodes ix') l q" for q
    using shape_at_level [OF shapes_skeleton [OF sk shapes] that] at_level_skeleton [OF sk] by simp
  with True obtain ix'' where "link (fst p) l (snd p) ix' = Some ix''" "level_kept l ix ix''"
    using level_kept_link [OF kept] by blast
  with True show ?thesis by (simp add: relink_def)
next
  case False
  with kept show ?thesis by (auto simp: relink_def)
qed

lemma unlink_level_ok:
  assumes shapes: "shapes (hx_config ix) (hx_nodes ix)"
    and nbrs: "\<And>x. nbrs (hx_nodes ix) l x = (if x = i then {} else N x)"
    and N: "\<And>x y. y \<in> N x \<Longrightarrow> x \<in> N y \<and> x \<noteq> y" "\<And>x. card (N x) \<le> degree_limit (hx_config ix) l" "\<And>x. finite (N x)"
    and s: "set (bs_list s) = N i"
  shows "\<exists>ix'. unlink_level i (l, s) ix = Some ix' \<and> level_kept l ix ix'"
proof -
  have lev: "at_level (hx_nodes ix) l x" if "x \<in> set (bs_list s)" for x
  proof -
    have "i \<in> N x" "x \<noteq> i" using that s N(1) by auto
    then have "i \<in> nbrs (hx_nodes ix) l x" by (simp add: nbrs)
    then show ?thesis by (rule nbrs_at_level)
  qed
  then obtain nodes where nodes: "fold_opt (drop_neighbour l i) (bs_list s) (hx_nodes ix) = Some nodes"
    "skeleton nodes = skeleton (hx_nodes ix)"
    "\<And>l' x. nbrs nodes l' x = (if l' = l \<and> x \<in> set (bs_list s) then nbrs (hx_nodes ix) l x - {i} else nbrs (hx_nodes ix) l' x)"
    using drop_neighbours_links [of "bs_list s" "hx_nodes ix" l i] by blast
  have clean: "nbrs nodes l x = (if x = i then {} else N x - {i})" for x
    using N(1) s by (auto simp: nodes(3) nbrs)
  have "level_kept l ix (ix\<lparr>hx_nodes := nodes\<rparr>)"
  proof -
    have "relinked l ix (ix\<lparr>hx_nodes := nodes\<rparr>)" using nodes(2,3) by (simp add: relinked_def)
    moreover have "linked_at nodes l" using N(1) by (auto simp: linked_at_def clean)
    moreover have "card (nbrs nodes l x) \<le> degree_limit (hx_config ix) l" for x
    proof -
      have "card (N x - {i}) \<le> card (N x)" by (rule card_mono [OF N(3)]) auto
      then show ?thesis using N(2) [of x] by (simp add: clean)
    qed
    ultimately show ?thesis by (simp add: level_kept_def bounded_at_def)
  qed
  then have "\<exists>ix'. fold_opt (relink l) (ordered_pairs (bs_list s)) (ix\<lparr>hx_nodes := nodes\<rparr>) = Some ix' \<and>
      level_kept l ix ix'"
    using relink_kept [OF _ shapes] by (intro links_fold [where P = "level_kept l ix"]) blast+
  then obtain ix' where "fold_opt (relink l) (ordered_pairs (bs_list s)) (ix\<lparr>hx_nodes := nodes\<rparr>) = Some ix'"
    "level_kept l ix ix'" by blast
  with nodes(1) show ?thesis by (auto simp: unlink_level_def)
qed

text \<open>The levels below \<open>m\<close> are repaired, the others are as they were.\<close>

definition repaired :: "nat \<Rightarrow> 'i::linorder hnsw \<Rightarrow> 'i hnsw \<Rightarrow> bool" where
  "repaired m ix ix' \<longleftrightarrow>
     hx_config ix' = hx_config ix \<and> hx_entry ix' = hx_entry ix \<and> hx_max_level ix' = hx_max_level ix \<and>
     hx_state ix' = hx_state ix \<and> skeleton (hx_nodes ix') = skeleton (hx_nodes ix) \<and>
     (\<forall>l < m. linked_at (hx_nodes ix') l \<and> bounded_at (hx_config ix) (hx_nodes ix') l) \<and>
     (\<forall>l x. m \<le> l \<longrightarrow> nbrs (hx_nodes ix') l x = nbrs (hx_nodes ix) l x)"

lemma linked_at_cong: "(\<And>x. nbrs a l x = nbrs b l x) \<Longrightarrow> linked_at a l = linked_at b l"
  by (simp add: linked_at_def)

lemma bounded_at_cong: "(\<And>x. nbrs a l x = nbrs b l x) \<Longrightarrow> bounded_at c a l = bounded_at c b l"
  by (simp add: bounded_at_def)

lemma repaired_Suc: "repaired m ix ix' \<Longrightarrow> level_kept m ix' ix'' \<Longrightarrow> repaired (Suc m) ix ix''"
proof -
  assume rep: "repaired m ix ix'" and kept: "level_kept m ix' ix''"
  have other: "nbrs (hx_nodes ix'') l x = nbrs (hx_nodes ix') l x" if "l \<noteq> m" for l x
    using kept that by (auto simp: level_kept_def relinked_def)
  have "linked_at (hx_nodes ix'') l \<and> bounded_at (hx_config ix) (hx_nodes ix'') l" if "l < Suc m" for l
  proof (cases "l = m")
    case True
    have "hx_config ix'' = hx_config ix" using kept rep by (simp add: level_kept_def relinked_def repaired_def)
    with kept True show ?thesis by (simp add: level_kept_def)
  next
    case False
    with that have "l < m" by simp
    with rep have "linked_at (hx_nodes ix') l \<and> bounded_at (hx_config ix) (hx_nodes ix') l"
      by (simp add: repaired_def)
    then show ?thesis using linked_at_cong [OF other [OF False]] bounded_at_cong [OF other [OF False]] by simp
  qed
  with rep kept other show ?thesis by (simp add: repaired_def level_kept_def relinked_def)
qed

lemma unlink_levels_ok:
  assumes shapes: "shapes (hx_config ix) (hx_nodes ix)"
    and nbrs: "\<And>l x. nbrs (hx_nodes ix) l x = (if x = i then {} else N l x)"
    and N: "\<And>l x y. y \<in> N l x \<Longrightarrow> x \<in> N l y \<and> x \<noteq> y"
      "\<And>l x. card (N l x) \<le> degree_limit (hx_config ix) l" "\<And>l x. finite (N l x)"
    and s: "\<And>k. k < length ns \<Longrightarrow> set (bs_list (ns ! k)) = N (m + k) i"
    and rep: "repaired m ix ix'"
  shows "\<exists>ix''. fold_opt (unlink_level i) (enumerate m ns) ix' = Some ix'' \<and> repaired (m + length ns) ix ix''"
  using s rep
proof (induction ns arbitrary: m ix')
  case (Cons t ns)
  have sk: "skeleton (hx_nodes ix') = skeleton (hx_nodes ix)" "hx_config ix' = hx_config ix"
    using Cons.prems(2) by (simp_all add: repaired_def)
  have "\<exists>ix''. unlink_level i (m, t) ix' = Some ix'' \<and> level_kept m ix' ix''"
  proof (rule unlink_level_ok [where N = "N m"])
    show "shapes (hx_config ix') (hx_nodes ix')" using shapes_skeleton [OF sk(1) shapes] sk(2) by simp
    show "nbrs (hx_nodes ix') m x = (if x = i then {} else N m x)" for x
      using Cons.prems(2) nbrs by (simp add: repaired_def)
    show "set (bs_list t) = N m i" using Cons.prems(1) [of 0] by simp
  qed (use N sk(2) in auto)
  then obtain mid where mid: "unlink_level i (m, t) ix' = Some mid" "level_kept m ix' mid" by blast
  have "\<exists>ix''. fold_opt (unlink_level i) (enumerate (Suc m) ns) mid = Some ix'' \<and> repaired (Suc m + length ns) ix ix''"
  proof (rule Cons.IH)
    show "set (bs_list (ns ! k)) = N (Suc m + k) i" if "k < length ns" for k
      using Cons.prems(1) [of "Suc k"] that by simp
    show "repaired (Suc m) ix mid" using repaired_Suc [OF Cons.prems(2) mid(2)] .
  qed
  with mid(1) show ?case by simp
qed simp

end
