(* ===== verification/Hnsw_Ops.thy ===== *)
theory Hnsw_Ops
  imports Hnsw_Wf
begin

text \<open>
  Removal and insertion on the HNSW graph: on an index within the invariant neither indexes
  out of bounds, and both leave an index within the invariant.
\<close>

section \<open>Removal\<close>

lemma nbrs_remove: "nbrs (bt_remove i nodes) l x = (if x = i then {} else nbrs nodes l x)"
  by (simp add: nbrs_def btree_simps)

lemma bb_remove: "bb (bt_remove i nodes) x = (if x = i then {} else bb nodes x)"
  by (simp add: bb_def btree_simps)

lemma node_ids_remove: "node_ids (bt_remove i nodes) = node_ids nodes - {i}"
  by (auto simp: node_ids_def btree_simps)

lemma shapes_remove: "shapes config nodes \<Longrightarrow> shapes config (bt_remove i nodes)"
  by (simp add: shapes_def btree_simps)

lemma levels_remove: "levels (bt_remove i nodes) x = (if x = i then None else levels nodes x)"
  by (simp add: levels_def btree_simps)

lemma entry_ok_remove:
  assumes "entry_ok nodes (Some e) t" "e \<noteq> i"
  shows "entry_ok (bt_remove i nodes) (Some e) t"
  using assms by (auto simp: entry_ok_levels levels_remove)

text \<open>The levels a removed node was linked at are repaired; above them it had no links.\<close>

lemma repaired_links:
  assumes links: "links_ok (hx_config ix) (hx_nodes ix)" and node: "bt_get (hx_nodes ix) i = Some node"
    and rep: "repaired (length (nd_neighbours node)) (ix\<lparr>hx_nodes := bt_remove i (hx_nodes ix)\<rparr>) ix'"
  shows "links_ok (hx_config ix) (hx_nodes ix')"
  unfolding links_ok_def
proof
  fix l
  let ?N = "nbrs (hx_nodes ix)"
  show "linked_at (hx_nodes ix') l \<and> bounded_at (hx_config ix) (hx_nodes ix') l"
  proof (cases "l < length (nd_neighbours node)")
    case True
    then show ?thesis using rep by (simp add: repaired_def)
  next
    case False
    then have none: "?N l i = {}" using node by (simp add: nbrs_def)
    have l: "linked_at (hx_nodes ix) l" "bounded_at (hx_config ix) (hx_nodes ix) l"
      using links by (auto simp: links_ok_def)
    have "nbrs (hx_nodes ix') l x = ?N l x" for x
      using rep False none by (simp add: repaired_def nbrs_remove)
    then show ?thesis using l linked_at_cong [of "hx_nodes ix'" l "hx_nodes ix"]
        bounded_at_cong [of "hx_nodes ix'" l "hx_nodes ix"] by simp
  qed
qed

lemma unlink_node:
  assumes wf: "hnsw_wf ix" and node: "bt_get (hx_nodes ix) i = Some node"
  shows "\<exists>ix'. fold_opt (unlink_level i) (enumerate 0 (nd_neighbours node))
      (ix\<lparr>hx_nodes := bt_remove i (hx_nodes ix)\<rparr>) = Some ix' \<and>
    repaired (length (nd_neighbours node)) (ix\<lparr>hx_nodes := bt_remove i (hx_nodes ix)\<rparr>) ix'"
proof -
  let ?ix = "ix\<lparr>hx_nodes := bt_remove i (hx_nodes ix)\<rparr>" and ?N = "nbrs (hx_nodes ix)"
  have links: "linked_at (hx_nodes ix) l" "bounded_at (hx_config ix) (hx_nodes ix) l" for l
    using wf by (auto simp: hnsw_wf_def links_ok_def)
  have "\<exists>ix''. fold_opt (unlink_level i) (enumerate 0 (nd_neighbours node)) ?ix = Some ix'' \<and>
      repaired (0 + length (nd_neighbours node)) ?ix ix''"
  proof (rule unlink_levels_ok [where N = ?N])
    show "shapes (hx_config ?ix) (hx_nodes ?ix)" using wf by (simp add: hnsw_wf_def shapes_remove)
    show "x \<in> ?N l y \<and> x \<noteq> y" if "y \<in> ?N l x" for l x y using links(1) that by (auto simp: linked_at_def)
    show "card (?N l x) \<le> degree_limit (hx_config ?ix) l" for l x using links(2) by (simp add: bounded_at_def)
    show "set (bs_list (nd_neighbours node ! k)) = ?N (0 + k) i" if "k < length (nd_neighbours node)" for k
      using node that by (simp add: nbrs_def)
  qed (simp_all add: nbrs_remove repaired_def)
  then show ?thesis by simp
qed

text \<open>What removal guarantees: the invariant, and every other node at its vector and level.\<close>

definition kept_nodes :: "'i::linorder set \<Rightarrow> ('i, 'i node) btree \<Rightarrow> ('i, 'i node) btree \<Rightarrow> bool" where
  "kept_nodes D nodes nodes' \<longleftrightarrow>
     (\<forall>x \<in> D. map_option (\<lambda>n. (nd_vector n, nd_level n)) (bt_get nodes' x) =
              map_option (\<lambda>n. (nd_vector n, nd_level n)) (bt_get nodes x))"

lemma kept_skeleton: "skeleton nodes' = skeleton nodes \<Longrightarrow> kept_nodes D nodes nodes'"
  unfolding kept_nodes_def
  by (intro ballI, drule fun_cong) (auto simp: skeleton_def map_option_case split: option.splits)

lemma kept_flesh: "flesh nodes' = flesh nodes \<Longrightarrow> kept_nodes D nodes nodes'"
  unfolding kept_nodes_def
  by (intro ballI, drule fun_cong) (auto simp: flesh_def map_option_case split: option.splits)

lemma kept_trans: "kept_nodes D a b \<Longrightarrow> kept_nodes D b c \<Longrightarrow> kept_nodes D a c"
  by (simp add: kept_nodes_def)

lemma kept_levels: "kept_nodes D nodes nodes' \<Longrightarrow> x \<in> D \<Longrightarrow> levels nodes' x = levels nodes x"
  by (drule (1) bspec [OF kept_nodes_def [THEN iffD1]])
     (auto simp: levels_def map_option_case split: option.splits)

lemma remove_node_ok:
  assumes wf: "hnsw_wf ix"
  shows "\<exists>ix'. remove_node i ix = Some ix' \<and> hnsw_wf ix' \<and> hx_config ix' = hx_config ix \<and>
    hx_state ix' = hx_state ix \<and> node_ids (hx_nodes ix') = node_ids (hx_nodes ix) - {i} \<and>
    kept_nodes (- {i}) (hx_nodes ix) (hx_nodes ix')"
proof (cases "bt_get (hx_nodes ix) i")
  case None
  then show ?thesis using wf by (auto simp: remove_node_def kept_nodes_def node_ids_def)
next
  case (Some node)
  let ?removed = "bt_remove i (hx_nodes ix)"
  obtain ix1 where ix1: "fold_opt (unlink_level i) (enumerate 0 (nd_neighbours node)) (ix\<lparr>hx_nodes := ?removed\<rparr>) = Some ix1"
    and rep: "repaired (length (nd_neighbours node)) (ix\<lparr>hx_nodes := ?removed\<rparr>) ix1"
    using unlink_node [OF wf Some] by blast
  have sk: "skeleton (hx_nodes ix1) = skeleton ?removed" and same: "hx_config ix1 = hx_config ix"
    "hx_entry ix1 = hx_entry ix" "hx_max_level ix1 = hx_max_level ix" "hx_state ix1 = hx_state ix"
    using rep by (simp_all add: repaired_def)
  have links1: "links_ok (hx_config ix) (hx_nodes ix1)"
    using repaired_links [OF _ Some rep] wf by (simp add: hnsw_wf_def)
  let ?nodes = "bypass_backbone i (nd_backbone node) (hx_nodes ix1)"
  have ids1: "node_ids (hx_nodes ix1) = node_ids (hx_nodes ix) - {i}"
    using node_ids_skeleton [OF sk] by (simp add: node_ids_remove)
  have i: "i \<in> node_ids (hx_nodes ix)" using Some by (simp add: node_ids_def)
  have "flesh ?nodes = flesh (hx_nodes ix1) \<and> ring (node_ids ?nodes) (bb ?nodes)"
  proof (rule bypass_backbone_ring [where b = "bb (hx_nodes ix)"])
    show "ring (insert i (node_ids (hx_nodes ix1))) (bb (hx_nodes ix))"
      using wf i by (simp add: hnsw_wf_def ids1 insert_absorb)
    show "bb (hx_nodes ix1) x = bb (hx_nodes ix) x" if "x \<noteq> i" for x
      using bb_skeleton [OF sk, of x] that by (simp add: bb_remove)
    show "set (bs_list (nd_backbone node)) = bb (hx_nodes ix) i" using Some by (simp add: bb_def)
  qed (simp add: ids1)
  then have fl: "flesh ?nodes = flesh (hx_nodes ix1)" and ring: "ring (node_ids ?nodes) (bb ?nodes)" by auto
  have ids: "node_ids ?nodes = node_ids (hx_nodes ix) - {i}" using node_ids_flesh [OF fl] ids1 by simp
  have shapes: "shapes (hx_config ix) ?nodes"
    using wf shapes_flesh [OF fl shapes_skeleton [OF sk shapes_remove]] by (simp add: hnsw_wf_def)
  have links: "links_ok (hx_config ix) ?nodes" using links_ok_flesh [OF fl links1] .
  have lev: "levels ?nodes = levels ?removed" using levels_flesh [OF fl] levels_skeleton [OF sk] by simp
  have kept: "kept_nodes (- {i}) (hx_nodes ix) ?nodes"
    using kept_trans [OF kept_trans [OF _ kept_skeleton [OF sk]] kept_flesh [OF fl], of "- {i}" "hx_nodes ix"]
    by (auto simp: kept_nodes_def btree_simps)
  define ix2 where "ix2 = ix1\<lparr>hx_nodes := ?nodes\<rparr>"
  define out where "out = (if bt_is_empty ?nodes then ix2\<lparr>hx_max_level := 0, hx_entry := None\<rparr>
    else if hx_entry ix = Some i then reselect_entry ix2 else ix2)"
  have out: "remove_node i ix = Some out"
    using Some ix1 same by (simp add: remove_node_def out_def ix2_def Let_def)
  have fields: "hx_nodes out = ?nodes" "hx_config out = hx_config ix" "hx_state out = hx_state ix"
    by (simp_all add: out_def ix2_def same reselect_entry_def)
  have "entry_ok ?nodes (hx_entry out) (hx_max_level out)"
  proof (cases "bt_is_empty ?nodes")
    case True
    then show ?thesis by (auto simp: out_def entry_ok_def node_ids_def bt_is_empty_iff)
  next
    case False
    show ?thesis
    proof (cases "hx_entry ix = Some i")
      case True
      then show ?thesis using False select_entry_ok [of ?nodes] by (simp add: out_def reselect_entry_def ix2_def)
    next
      case keep: False
      have "hx_entry ix \<noteq> None"
        using wf i by (cases "hx_entry ix") (auto simp: hnsw_wf_def entry_ok_def)
      then obtain e where e: "hx_entry ix = Some e" "e \<noteq> i" using keep by auto
      then have "entry_ok ?removed (Some e) (hx_max_level ix)"
        using wf by (intro entry_ok_remove) (simp_all add: hnsw_wf_def)
      then show ?thesis using False keep e by (simp add: out_def ix2_def same entry_ok_levels lev)
    qed
  qed
  then have "hnsw_wf out"
    using wf shapes links ring by (simp add: hnsw_wf_def fields)
  then show ?thesis using out fields ids kept by auto
qed

section \<open>Insertion\<close>

text \<open>A graph within the invariant, apart from its entry point.\<close>

definition graph_ok :: "'i::linorder hnsw \<Rightarrow> bool" where
  "graph_ok ix \<longleftrightarrow> shapes (hx_config ix) (hx_nodes ix) \<and> links_ok (hx_config ix) (hx_nodes ix) \<and>
     ring (node_ids (hx_nodes ix)) (bb (hx_nodes ix))"

lemma hnsw_wf_graph:
  "hnsw_wf ix \<longleftrightarrow> validate_config (hx_config ix) = Inr () \<and> hx_state ix \<noteq> 0 \<and>
     entry_ok (hx_nodes ix) (hx_entry ix) (hx_max_level ix) \<and> graph_ok ix"
  by (auto simp: hnsw_wf_def graph_ok_def)

lemma at_level_down: "at_level nodes l i \<Longrightarrow> l' \<le> l \<Longrightarrow> at_level nodes l' i"
  by (auto simp: at_level_def)

lemma node_at_base: "shapes config nodes \<Longrightarrow> at_level nodes 0 i \<longleftrightarrow> i \<in> node_ids nodes"
  by (fastforce simp: shapes_def node_shape_def at_level_def node_ids_def)

lemma graph_ok_closed: "graph_ok ix \<Longrightarrow> closed_level (hx_nodes ix) l"
  unfolding closed_level_def
proof (intro allI impI)
  fix x y
  assume ok: "graph_ok ix" and "at_level (hx_nodes ix) l x" and y: "y \<in> adjacent (hx_nodes ix) l x"
  consider "y \<in> nbrs (hx_nodes ix) l x" | "l = 0" "y \<in> bb (hx_nodes ix) x"
    using y by (auto simp: adjacent_def split: if_splits)
  then show "at_level (hx_nodes ix) l y"
  proof cases
    case 1
    have "linked_at (hx_nodes ix) l" using ok by (simp add: graph_ok_def links_ok_def)
    from linked_at_level [OF this 1] show ?thesis .
  next
    case 2
    have "y \<in> node_ids (hx_nodes ix)"
      using ring_sub [of "node_ids (hx_nodes ix)" "bb (hx_nodes ix)" x] ok 2 by (auto simp: graph_ok_def)
    then show ?thesis using node_at_base ok 2 by (auto simp: graph_ok_def)
  qed
qed

lemma level_kept_graph:
  assumes ok: "graph_ok ix" and kept: "level_kept l ix ix'"
  shows "graph_ok ix'"
proof -
  have sk: "skeleton (hx_nodes ix') = skeleton (hx_nodes ix)" and config: "hx_config ix' = hx_config ix"
    using kept by (simp_all add: level_kept_def relinked_def)
  have "linked_at (hx_nodes ix') l' \<and> bounded_at (hx_config ix) (hx_nodes ix') l'" for l'
  proof (cases "l' = l")
    case True
    then show ?thesis using kept config by (simp add: level_kept_def)
  next
    case False
    then have "nbrs (hx_nodes ix') l' x = nbrs (hx_nodes ix) l' x" for x
      using kept by (simp add: level_kept_def relinked_def)
    then show ?thesis
      using ok linked_at_cong [of "hx_nodes ix'" l' "hx_nodes ix"] bounded_at_cong [of "hx_nodes ix'" l' "hx_nodes ix"]
      by (simp add: graph_ok_def links_ok_def)
  qed
  moreover have "bb (hx_nodes ix') = bb (hx_nodes ix)" using bb_skeleton [OF sk] by (simp add: fun_eq_iff)
  ultimately show ?thesis
    using ok shapes_skeleton [OF sk] node_ids_skeleton [OF sk] by (simp add: graph_ok_def links_ok_def config)
qed

lemma descend_stays:
  assumes "graph_ok ix" "sorted (rev ls)" "\<forall>l \<in> set ls. at_level (hx_nodes ix) l entry"
  shows "\<exists>e. descend ix v budget ls entry = Some e \<and>
    (\<forall>l. (\<forall>l' \<in> set ls. l \<le> l') \<longrightarrow> at_level (hx_nodes ix) l entry \<longrightarrow> at_level (hx_nodes ix) l e)"
  using assms(2,3)
proof (induction ls arbitrary: entry)
  case (Cons m ls)
  obtain e1 where e1: "greedy_at_level ix v m budget entry = Some e1" "at_level (hx_nodes ix) m e1"
    using greedy_stays [OF graph_ok_closed [OF assms(1)], of m entry v budget] Cons.prems by auto
  have le: "l \<le> m" if "l \<in> set ls" for l using Cons.prems(1) that by (auto simp: sorted_append)
  have "\<exists>e. descend ix v budget ls e1 = Some e \<and>
      (\<forall>l. (\<forall>l' \<in> set ls. l \<le> l') \<longrightarrow> at_level (hx_nodes ix) l e1 \<longrightarrow> at_level (hx_nodes ix) l e)"
    using Cons.prems(1) le at_level_down [OF e1(2)] by (intro Cons.IH) (auto simp: sorted_append)
  then obtain e where "descend ix v budget ls e1 = Some e"
    "\<And>l. (\<forall>l' \<in> set ls. l \<le> l') \<Longrightarrow> at_level (hx_nodes ix) l e1 \<Longrightarrow> at_level (hx_nodes ix) l e" by blast
  then show ?case using e1 at_level_down [OF e1(2)] by auto
qed simp

text \<open>The links of one level of a new node.\<close>

lemma connect_level_ok:
  assumes ok: "graph_ok ix" and lev: "at_level (hx_nodes ix) l i" "at_level (hx_nodes ix) l entry"
  shows "\<exists>candidates ix'. search_layer ix v [entry] l b b' = Some candidates \<and>
    fold_opt (link i l) (take n candidates) ix = Some ix' \<and> level_kept l ix ix'"
proof -
  obtain candidates where c: "search_layer ix v [entry] l b b' = Some candidates"
    "\<forall>c \<in> set candidates. at_level (hx_nodes ix) l c"
    using search_layer_stays [OF graph_ok_closed [OF ok] lev(2)] by blast
  have "\<exists>ix''. link i l c ix' = Some ix'' \<and> level_kept l ix ix''"
    if "c \<in> set (take n candidates)" "level_kept l ix ix'" for c ix'
    using level_kept_link [OF that(2) lev(1)] c(2) in_set_takeD [OF that(1)] by blast
  moreover have "level_kept l ix ix" using ok by (simp add: level_kept_def graph_ok_def links_ok_def)
  ultimately have "\<exists>ix'. fold_opt (link i l) (take n candidates) ix = Some ix' \<and> level_kept l ix ix'"
    by (intro links_fold [where P = "level_kept l ix"]) auto
  with c(1) show ?thesis by blast
qed

text \<open>What linking a node in leaves: the same identities, vectors, levels and entry point.\<close>

definition same_frame :: "'i::linorder hnsw \<Rightarrow> 'i hnsw \<Rightarrow> bool" where
  "same_frame ix ix' \<longleftrightarrow>
     hx_config ix' = hx_config ix \<and> hx_entry ix' = hx_entry ix \<and> hx_max_level ix' = hx_max_level ix \<and>
     hx_state ix' = hx_state ix \<and> skeleton (hx_nodes ix') = skeleton (hx_nodes ix)"

lemma connect_levels_ok:
  assumes "graph_ok ix" "sorted (rev ls)"
    and "\<forall>l \<in> set ls. at_level (hx_nodes ix) l i \<and> at_level (hx_nodes ix) l entry"
  shows "\<exists>ix'. connect_levels i v budget ls entry ix = Some ix' \<and> graph_ok ix' \<and> same_frame ix ix'"
  using assms
proof (induction ls arbitrary: entry ix)
  case (Cons l ls)
  have lev: "at_level (hx_nodes ix) l i" "at_level (hx_nodes ix) l entry" using Cons.prems by auto
  obtain candidates ix1 where c: "search_layer ix v [entry] l budget budget = Some candidates"
    "fold_opt (link i l) (take (degree_limit (hx_config ix) l) candidates) ix = Some ix1" "level_kept l ix ix1"
    using connect_level_ok [OF Cons.prems(1) lev] by blast
  have ok1: "graph_ok ix1" using level_kept_graph [OF Cons.prems(1) c(3)] .
  have frame1: "same_frame ix ix1" using c(3) by (simp add: level_kept_def relinked_def same_frame_def)
  then have lev1: "at_level (hx_nodes ix1) m x = at_level (hx_nodes ix) m x" for m x
    using at_level_skeleton by (auto simp: same_frame_def)
  obtain e where e: "greedy_at_level ix1 v l budget entry = Some e" "at_level (hx_nodes ix1) l e"
    using greedy_stays [OF graph_ok_closed [OF ok1], of l entry v budget] lev(2) lev1 by auto
  have le: "m \<le> l" if "m \<in> set ls" for m using Cons.prems(2) that by (auto simp: sorted_append)
  have "\<exists>ix'. connect_levels i v budget ls e ix1 = Some ix' \<and> graph_ok ix' \<and> same_frame ix1 ix'"
    using ok1 Cons.prems lev1 le at_level_down [OF e(2)] by (intro Cons.IH) (auto simp: sorted_append)
  then show ?case using c e frame1 by (auto simp: same_frame_def)
qed (simp add: same_frame_def)

text \<open>A node added without links yet.\<close>

definition fresh_node :: "f32 list \<Rightarrow> nat \<Rightarrow> 'i::linorder node" where
  "fresh_node vector level = \<lparr>nd_vector = vector, nd_level = level,
     nd_neighbours = replicate (Suc level) bs_empty, nd_backbone = bs_empty\<rparr>"

lemma fresh_node_graph:
  fixes nodes :: "('i::linorder, 'i node) btree"
  assumes "i \<notin> node_ids nodes"
  shows "nbrs (bt_insert i (fresh_node v l) nodes) m x = nbrs nodes m x"
    and "bb (bt_insert i (fresh_node v l) nodes) x = bb nodes x"
    and "node_ids (bt_insert i (fresh_node v l) nodes) = insert i (node_ids nodes)"
    and "levels (bt_insert i (fresh_node v l) nodes) x = (if x = i then Some l else levels nodes x)"
  using assms
  by (auto simp: nbrs_def bb_def node_ids_def levels_def btree_simps fresh_node_def nth_append
    simp del: replicate_Suc)

lemma fresh_node_shapes:
  assumes "shapes config nodes" "length v = dimensions config" "list_all f32_is_finite v" "l \<le> 16"
  shows "shapes config (bt_insert i (fresh_node v l) nodes)"
  using assms by (auto simp: shapes_def node_shape_def fresh_node_def btree_simps)

lemma new_entry_ok:
  assumes "entry_ok nodes entry t" "i \<notin> node_ids nodes"
    and "levels nodes' = (levels nodes)(i := Some l)" "hx_entry ix = entry" "hx_max_level ix = t" "hx_nodes ix = nodes'"
  shows "entry_ok nodes' (hx_entry (consider_new_entry i l ix)) (hx_max_level (consider_new_entry i l ix))"
proof -
  have "levels nodes i = None" using assms(2) by (simp add: levels_def node_ids_def)
  then show ?thesis using assms
    by (cases entry) (fastforce simp: entry_ok_levels consider_new_entry_def)+
qed

lemma add_node_ok:
  assumes wf: "hnsw_wf ix" and i: "i \<notin> node_ids (hx_nodes ix)"
    and v: "length v = dimensions (hx_config ix)" "list_all f32_is_finite v" and l: "l \<le> 16"
  shows "\<exists>ix'. add_node i v l ix = Some ix' \<and> hnsw_wf ix' \<and> hx_config ix' = hx_config ix \<and>
    hx_state ix' = hx_state ix \<and> node_ids (hx_nodes ix') = insert i (node_ids (hx_nodes ix)) \<and>
    kept_nodes (- {i}) (hx_nodes ix) (hx_nodes ix') \<and>
    map_option nd_vector (bt_get (hx_nodes ix') i) = Some v"
proof -
  define nodes where "nodes = bt_insert i (fresh_node v l) (hx_nodes ix)"
  note fresh = fresh_node_graph [OF i, of v l, folded nodes_def]
  have shapes: "shapes (hx_config ix) nodes"
    unfolding nodes_def by (rule fresh_node_shapes [OF _ v l]) (use wf in \<open>simp add: hnsw_wf_def\<close>)
  have links: "links_ok (hx_config ix) nodes"
    using wf by (simp add: hnsw_wf_def links_ok_def linked_at_def bounded_at_def fresh(1))
  have ring: "ring (node_ids nodes - {i}) (bb nodes)"
  proof -
    have "node_ids nodes - {i} = node_ids (hx_nodes ix)" using i fresh(3) by auto
    moreover have "bb nodes = bb (hx_nodes ix)" using fresh(2) by (simp add: fun_eq_iff)
    ultimately show ?thesis using wf by (simp add: hnsw_wf_def)
  qed
  have entry: "entry_ok (hx_nodes ix) (hx_entry ix) (hx_max_level ix)" using wf by (simp add: hnsw_wf_def)
  have lev: "levels nodes = (levels (hx_nodes ix))(i := Some l)" using fresh(4) by (simp add: fun_eq_iff)
  have kept: "kept_nodes (- {i}) (hx_nodes ix) nodes"
    by (simp add: kept_nodes_def nodes_def btree_simps)
  have vec: "map_option (\<lambda>n. (nd_vector n, nd_level n)) (bt_get nodes i) = Some (v, l)"
    by (simp add: nodes_def btree_simps fresh_node_def)
  show ?thesis
  proof (cases "hx_entry ix")
    case None
    then have "node_ids (hx_nodes ix) = {}" using entry by (simp add: entry_ok_def)
    then have ids: "node_ids nodes = {i}" using fresh(3) by simp
    have "ring {i} (bb nodes)"
    proof -
      have "bb nodes x = {}" for x using ring_outside [OF ring, of x] ids by simp
      then have "bb nodes = (\<lambda>_. {})" by (simp add: fun_eq_iff)
      then show ?thesis using ring_single by simp
    qed
    define out where "out = consider_new_entry i l (ix\<lparr>hx_nodes := nodes\<rparr>)"
    have "add_node i v l ix = Some out"
      using None by (simp add: add_node_def Let_def out_def consider_new_entry_def nodes_def fresh_node_def)
    moreover have fields: "hx_nodes out = nodes" "hx_config out = hx_config ix" "hx_state out = hx_state ix"
      by (simp_all add: out_def consider_new_entry_def)
    moreover have "entry_ok nodes (hx_entry out) (hx_max_level out)"
      unfolding out_def by (rule new_entry_ok [OF entry i lev]) simp_all
    then have "hnsw_wf out"
      using wf shapes links \<open>ring {i} (bb nodes)\<close> by (simp add: hnsw_wf_def fields ids)
    ultimately show ?thesis using kept vec \<open>node_ids (hx_nodes ix) = {}\<close> ids by auto
  next
    case (Some e)
    have e: "e \<in> node_ids (hx_nodes ix)" "levels (hx_nodes ix) e = Some (hx_max_level ix)"
      using entry Some by (auto simp: entry_ok_levels levels_def node_ids_def)
    then have "e \<noteq> i" "e \<in> node_ids nodes" "i \<in> node_ids nodes" using i fresh(3) by auto
    then obtain nodes1 where nodes1: "splice_backbone i e nodes = Some nodes1" "flesh nodes1 = flesh nodes"
      "ring (node_ids nodes1) (bb nodes1)"
      using splice_backbone_ring [OF ring] by blast
    define ix1 where "ix1 = ix\<lparr>hx_nodes := nodes1\<rparr>"
    let ?max = "hx_max_level ix" and ?b = "construction_budget (hx_config ix)"
    have fields: "hx_nodes ix1 = nodes1" "hx_config ix1 = hx_config ix" "hx_entry ix1 = hx_entry ix"
      "hx_max_level ix1 = ?max" "hx_state ix1 = hx_state ix" by (simp_all add: ix1_def)
    have ok1: "graph_ok ix1"
      using shapes_flesh [OF nodes1(2) shapes] links_ok_flesh [OF nodes1(2) links] nodes1(3)
      by (simp add: graph_ok_def fields)
    have lev1: "levels nodes1 = (levels (hx_nodes ix))(i := Some l)" using levels_flesh [OF nodes1(2)] lev by simp
    have at: "at_level nodes1 m x \<longleftrightarrow> (\<exists>k. levels nodes1 x = Some k \<and> m \<le> k)" for m x
      using at_level_levels [OF shapes_flesh [OF nodes1(2) shapes]] .
    have at_e: "at_level nodes1 m e \<longleftrightarrow> m \<le> ?max" and at_i: "at_level nodes1 m i \<longleftrightarrow> m \<le> l" for m
      using e(2) \<open>e \<noteq> i\<close> by (auto simp: at lev1)
    obtain e1 where e1: "descend ix1 v ?b (rev [Suc l..<Suc ?max]) e = Some e1"
      "\<And>m. (\<forall>m' \<in> set (rev [Suc l..<Suc ?max]). m \<le> m') \<Longrightarrow> at_level nodes1 m e \<Longrightarrow> at_level nodes1 m e1"
      using descend_stays [OF ok1, of "rev [Suc l..<Suc ?max]" e v ?b] by (auto simp: fields at_e simp del: upt_Suc)
    have "\<exists>ix2. connect_levels i v ?b (rev [0..<Suc (min l ?max)]) e1 ix1 = Some ix2 \<and> graph_ok ix2 \<and> same_frame ix1 ix2"
    proof (rule connect_levels_ok [OF ok1])
      show "\<forall>m \<in> set (rev [0..<Suc (min l ?max)]). at_level (hx_nodes ix1) m i \<and> at_level (hx_nodes ix1) m e1"
      proof
        fix m
        assume "m \<in> set (rev [0..<Suc (min l ?max)])"
        then have "m \<le> l" "m \<le> ?max" by auto
        then show "at_level (hx_nodes ix1) m i \<and> at_level (hx_nodes ix1) m e1"
          using e1(2) [of m] by (auto simp: fields at_e at_i simp del: upt_Suc)
      qed
    qed (simp del: upt_Suc)
    then obtain ix2 where ix2: "connect_levels i v ?b (rev [0..<Suc (min l ?max)]) e1 ix1 = Some ix2"
      "graph_ok ix2" "same_frame ix1 ix2" by blast
    define out where "out = consider_new_entry i l ix2"
    have out: "add_node i v l ix = Some out"
      using Some nodes1(1) e1(1) ix2(1)
      by (simp add: add_node_def insert_linked_def Let_def out_def nodes_def fresh_node_def ix1_def del: upt_Suc)
    have sk: "skeleton (hx_nodes ix2) = skeleton nodes1" and same: "hx_config ix2 = hx_config ix"
      "hx_entry ix2 = hx_entry ix" "hx_max_level ix2 = ?max" "hx_state ix2 = hx_state ix"
      using ix2(3) by (simp_all add: same_frame_def fields)
    have fout: "hx_nodes out = hx_nodes ix2" "hx_config out = hx_config ix" "hx_state out = hx_state ix"
      by (simp_all add: out_def consider_new_entry_def same)
    have "entry_ok (hx_nodes ix2) (hx_entry out) (hx_max_level out)"
      unfolding out_def using same levels_skeleton [OF sk] lev1 by (intro new_entry_ok [OF entry i]) simp_all
    then have "hnsw_wf out" using wf ix2(2) by (simp add: hnsw_wf_graph graph_ok_def fout same)
    moreover have "node_ids (hx_nodes out) = insert i (node_ids (hx_nodes ix))"
      using node_ids_skeleton [OF sk] node_ids_flesh [OF nodes1(2)] fresh(3) by (simp add: fout)
    moreover have k: "kept_nodes D nodes (hx_nodes out)" for D
      using kept_trans [OF kept_flesh [OF nodes1(2)] kept_skeleton [OF sk]] by (simp add: fout)
    have "kept_nodes (- {i}) (hx_nodes ix) (hx_nodes out)" using kept_trans [OF kept k] .
    moreover have "map_option nd_vector (bt_get (hx_nodes out) i) = Some v"
      using k [of "{i}"] vec by (auto simp: kept_nodes_def)
    ultimately show ?thesis using out fout by auto
  qed
qed

section \<open>The public operations\<close>

lemma check_vector_ok:
  "check_vector config v = Inr () \<longleftrightarrow>
     validate_config config = Inr () \<and> length v = dimensions config \<and> list_all f32_is_finite v"
  by (auto simp: check_vector_def check_config_def check_finite_def and_then_def map_err_def
    split: sum.splits if_splits)

lemma hnsw_new_wf: "validate_config config = Inr () \<Longrightarrow> hnsw_wf (hnsw_new config)"
  by (simp add: hnsw_wf_def hnsw_new_def entry_ok_def node_ids_def shapes_def links_ok_def linked_at_def
    bounded_at_def nbrs_def bb_def ring_def)

text \<open>The abstract state: the vector of each member.\<close>

definition hnsw_vectors :: "'i::linorder hnsw \<Rightarrow> 'i \<Rightarrow> f32 list option" where
  "hnsw_vectors ix i = map_option nd_vector (bt_get (hx_nodes ix) i)"

lemma hnsw_vectors_dom: "dom (hnsw_vectors ix) = node_ids (hx_nodes ix)"
  by (auto simp: hnsw_vectors_def node_ids_def)

lemma hnsw_member_ids_set: "set (hnsw_member_ids ix) = dom (hnsw_vectors ix)"
  by (auto simp: hnsw_member_ids_def hnsw_vectors_def bt_keys_iff)

lemma hnsw_len_vectors: "hnsw_len ix = card (dom (hnsw_vectors ix))"
  by (simp add: hnsw_len_def hnsw_vectors_dom card_node_ids)

lemma kept_vectors:
  "kept_nodes D (hx_nodes ix) (hx_nodes ix') \<Longrightarrow> x \<in> D \<Longrightarrow> hnsw_vectors ix' x = hnsw_vectors ix x"
  by (drule (1) bspec [OF kept_nodes_def [THEN iffD1]])
     (auto simp: hnsw_vectors_def map_option_case split: option.splits)

lemma hnsw_remove_ok:
  assumes "hnsw_wf ix"
  shows "\<exists>ix'. remove_node i ix = Some ix' \<and> hnsw_wf ix' \<and> hx_config ix' = hx_config ix \<and>
    hx_state ix' = hx_state ix \<and> hnsw_vectors ix' = (hnsw_vectors ix)(i := None)"
proof -
  obtain ix' where ix': "remove_node i ix = Some ix'" "hnsw_wf ix'" "hx_config ix' = hx_config ix"
    "hx_state ix' = hx_state ix" "node_ids (hx_nodes ix') = node_ids (hx_nodes ix) - {i}"
    "kept_nodes (- {i}) (hx_nodes ix) (hx_nodes ix')"
    using remove_node_ok [OF assms] by blast
  have "hnsw_vectors ix' i = None" using ix'(5) hnsw_vectors_dom [of ix'] by auto
  then have "hnsw_vectors ix' = (hnsw_vectors ix)(i := None)"
    using kept_vectors [OF ix'(6)] by (auto simp: fun_eq_iff)
  with ix' show ?thesis by blast
qed

lemma next_level_wf:
  assumes "hnsw_wf ix" "next_level ix = (l, ix')"
  shows "hnsw_wf ix' \<and> l \<le> 16 \<and> hx_config ix' = hx_config ix \<and> hx_nodes ix' = hx_nodes ix"
  using assms advance_nonzero count_levels_bound by (auto simp: next_level_def hnsw_wf_def)

lemma hnsw_insert_ok:
  assumes wf: "hnsw_wf ix" and v: "check_vector (hx_config ix) v = Inr ()"
  shows "\<exists>ix'. hnsw_insert i v ix = Inr ix' \<and> hnsw_wf ix' \<and> hx_config ix' = hx_config ix \<and>
    hnsw_vectors ix' = (hnsw_vectors ix)(i \<mapsto> v)"
proof -
  obtain ix1 where ix1: "remove_node i ix = Some ix1" "hnsw_wf ix1" "hx_config ix1 = hx_config ix"
    "hnsw_vectors ix1 = (hnsw_vectors ix)(i := None)" using hnsw_remove_ok [OF wf] by blast
  obtain l ix2 where l: "next_level ix1 = (l, ix2)" by fastforce
  note ix2 = next_level_wf [OF ix1(2) l]
  have "hnsw_vectors ix2 = hnsw_vectors ix1" using ix2 by (simp add: hnsw_vectors_def fun_eq_iff)
  moreover have "i \<notin> node_ids (hx_nodes ix2)"
    using ix1(4) ix2 hnsw_vectors_dom [of ix1] by auto
  moreover have "length v = dimensions (hx_config ix2)" "list_all f32_is_finite v"
    using v ix1(3) ix2 by (auto simp: check_vector_ok)
  ultimately obtain ix3 where ix3: "add_node i v l ix2 = Some ix3" "hnsw_wf ix3" "hx_config ix3 = hx_config ix2"
    "kept_nodes (- {i}) (hx_nodes ix2) (hx_nodes ix3)" "map_option nd_vector (bt_get (hx_nodes ix3) i) = Some v"
    using add_node_ok [of ix2 i v l] ix2 by blast
  have "hnsw_vectors ix3 = (hnsw_vectors ix)(i \<mapsto> v)"
    using kept_vectors [OF ix3(4)] ix3(5) ix1(4) \<open>hnsw_vectors ix2 = hnsw_vectors ix1\<close>
    by (auto simp: fun_eq_iff hnsw_vectors_def)
  moreover have "hnsw_insert i v ix = Inr ix3" using v ix1(1) l ix3(1) by (simp add: hnsw_insert_def)
  ultimately show ?thesis using ix3 ix1(3) ix2 by auto
qed

section \<open>Histories\<close>

datatype 'i hnsw_write = HInsert 'i "f32 list" | HRemove 'i

fun hnsw_step :: "'i::linorder hnsw_write \<Rightarrow> 'i hnsw \<Rightarrow> 'i hnsw res" where
  "hnsw_step (HInsert i v) ix = hnsw_insert i v ix"
| "hnsw_step (HRemove i) ix = hnsw_remove i ix"

text \<open>What a write does to the vectors held; an insertion of a vector that fails its checks is refused.\<close>

fun spec_vectors :: "hnsw_config \<Rightarrow> 'i hnsw_write \<Rightarrow> ('i \<Rightarrow> f32 list option) \<Rightarrow> ('i \<Rightarrow> f32 list option) res" where
  "spec_vectors config (HInsert i v) m =
     and_then (map_err Err (check_vector config v)) (\<lambda>_. Inr (m(i \<mapsto> v)))"
| "spec_vectors config (HRemove i) m = Inr (m(i := None))"

lemma hnsw_write_refines:
  assumes "hnsw_wf ix"
  shows "(case hnsw_step w ix of
      Inl e \<Rightarrow> spec_vectors (hx_config ix) w (hnsw_vectors ix) = Inl e
    | Inr ix' \<Rightarrow> hnsw_wf ix' \<and> hx_config ix' = hx_config ix \<and>
        spec_vectors (hx_config ix) w (hnsw_vectors ix) = Inr (hnsw_vectors ix'))"
proof (cases w)
  case (HInsert i v)
  show ?thesis
  proof (cases "check_vector (hx_config ix) v")
    case (Inl e)
    then show ?thesis using HInsert by (simp add: hnsw_insert_def)
  next
    case (Inr u)
    then have v: "check_vector (hx_config ix) v = Inr ()" by simp
    show ?thesis using hnsw_insert_ok [OF assms v, of i] HInsert v by auto
  qed
next
  case (HRemove i)
  then show ?thesis using hnsw_remove_ok [OF assms, of i] by (auto simp: hnsw_remove_def)
qed

lemma hnsw_history_refines:
  assumes "hnsw_wf ix"
  shows "(case fold_res hnsw_step ws ix of
      Inl e \<Rightarrow> fold_res (spec_vectors (hx_config ix)) ws (hnsw_vectors ix) = Inl e
    | Inr ix' \<Rightarrow> hnsw_wf ix' \<and> hx_config ix' = hx_config ix \<and>
        fold_res (spec_vectors (hx_config ix)) ws (hnsw_vectors ix) = Inr (hnsw_vectors ix'))"
  using assms
proof (induction ws arbitrary: ix)
  case (Cons w ws)
  note step = hnsw_write_refines [OF Cons.prems, of w]
  show ?case
  proof (cases "hnsw_step w ix")
    case (Inl e)
    then show ?thesis using step by simp
  next
    case (Inr ix')
    then show ?thesis using step Cons.IH [of ix'] by (auto split: sum.splits)
  qed
qed simp

lemma spec_vectors_no_panic: "spec_vectors config w m \<noteq> Inl Panic"
  by (cases w) (auto simp: and_then_Inl_iff map_err_def split: sum.splits)

lemma spec_history_no_panic: "fold_res (spec_vectors config) ws m \<noteq> Inl Panic"
  by (induction ws arbitrary: m) (auto simp: and_then_Inl_iff spec_vectors_no_panic)

lemma hnsw_vectors_new: "hnsw_vectors (hnsw_new config) = (\<lambda>_. None)"
  by (simp add: hnsw_vectors_def hnsw_new_def fun_eq_iff)

text \<open>
  C3: Every history of insertions and removals on a new index of a valid configuration ends
  as it does on a map from identities to vectors: with the same refusal, or with an index that
  holds exactly the vectors the map holds. It never panics, and the index it leaves has the
  layered links symmetric, irreflexive and within the degree limits, the canonical entry point,
  and a backbone that is one cycle through all nodes.
\<close>
theorem hnsw_history_refines_map:
  assumes "validate_config config = Inr ()"
  shows "(case fold_res hnsw_step ws (hnsw_new config) of
      Inl e \<Rightarrow> e \<noteq> Panic \<and> fold_res (spec_vectors config) ws (\<lambda>_. None) = Inl e
    | Inr ix \<Rightarrow> hnsw_wf ix \<and> hx_config ix = config \<and>
        fold_res (spec_vectors config) ws (\<lambda>_. None) = Inr (hnsw_vectors ix))"
proof -
  have "hx_config (hnsw_new config) = config" by (simp add: hnsw_new_def)
  then show ?thesis
    using hnsw_history_refines [OF hnsw_new_wf [OF assms], of ws] spec_history_no_panic [of config ws]
    by (auto simp: hnsw_vectors_new split: sum.splits)
qed

definition sample_config :: hnsw_config where
  "sample_config = \<lparr>dimensions = 1, distance_mode = L2, ef_construction = 8, m_neighbours = 2\<rparr>"

lemma sample_config_valid: "validate_config sample_config = Inr ()"
  by (simp add: sample_config_def validate_config_def)

lemma sample_vectors: "check_vector sample_config [0] = Inr ()" "check_vector sample_config [0x3f800000] = Inr ()"
  by code_simp+

lemma hnsw_history_refines_map_witness:
  "\<exists>ix. fold_res hnsw_step [HInsert 1 [0x3f800000], HInsert 2 [0], HInsert 3 [0], HRemove (1 :: nat)]
      (hnsw_new sample_config) = Inr ix \<and> hnsw_wf ix \<and> hnsw_vectors ix = [2 \<mapsto> [0], 3 \<mapsto> [0]]"
  using hnsw_history_refines_map [OF sample_config_valid,
      of "[HInsert 1 [0x3f800000], HInsert 2 [0], HInsert 3 [0], HRemove (1 :: nat)]"]
  by (simp add: sample_vectors fun_upd_twist split: sum.splits)

end
