(* ===== verification/Hnsw_Snapshot.thy ===== *)
theory Hnsw_Snapshot
  imports Hnsw_Ops
begin

text \<open>
  Decoding a graph: the checks of \<open>TryFrom<RawHnswIndex>\<close> accept exactly the indexes within the
  invariant, and what a panicking decode looks like.
\<close>

section \<open>The walk of the backbone\<close>

text \<open>What is seen already is closed under the backbone, up to what is still pending.\<close>

lemma reach_loop_covers:
  assumes "reach_loop nodes seen pending = Some out"
    and "\<forall>x y. bs_mem x seen \<longrightarrow> y \<in> bb nodes x \<longrightarrow> bs_mem y seen \<or> y \<in> set pending"
  shows "(\<forall>x. bs_mem x seen \<or> x \<in> set pending \<longrightarrow> bs_mem x out) \<and>
    (\<forall>x y. bs_mem x out \<longrightarrow> y \<in> bb nodes x \<longrightarrow> bs_mem y out)"
  using assms
proof (induction nodes seen pending rule: reach_loop.induct)
  case (2 nodes seen i pending)
  show ?case
  proof (cases "bs_mem i seen")
    case True
    then show ?thesis using "2.IH"(1) "2.prems" by auto
  next
    case False
    then obtain node where node: "bt_get nodes i = Some node" using "2.prems"(1) by (cases "bt_get nodes i") auto
    have bb: "set (bs_list (nd_backbone node)) = bb nodes i" using bb_list [OF node] .
    have "\<forall>x y. bs_mem x (bs_insert i seen) \<longrightarrow> y \<in> bb nodes x \<longrightarrow>
        bs_mem y (bs_insert i seen) \<or> y \<in> set (rev (bs_list (nd_backbone node)) @ pending)"
      using "2.prems"(2) bb by auto
    from "2.IH"(2) [OF False node _ this] show ?thesis using "2.prems"(1) False node by auto
  qed
qed auto

lemma reach_loop_within:
  assumes "reach_loop nodes seen pending = Some out" "bs_mem x out"
  shows "bs_mem x seen \<or> (\<exists>p \<in> set pending. (p, x) \<in> (edges (bb nodes))\<^sup>*)"
  using assms
proof (induction nodes seen pending rule: reach_loop.induct)
  case (2 nodes seen i pending)
  show ?case
  proof (cases "bs_mem i seen")
    case True
    then show ?thesis using 2 by auto
  next
    case False
    then obtain node where node: "bt_get nodes i = Some node" using "2.prems"(1) by (cases "bt_get nodes i") auto
    have bb: "set (bs_list (nd_backbone node)) = bb nodes i" using bb_list [OF node] .
    have "bs_mem x (bs_insert i seen) \<or>
        (\<exists>p \<in> set (rev (bs_list (nd_backbone node)) @ pending). (p, x) \<in> (edges (bb nodes))\<^sup>*)"
      using "2.IH"(2) [OF False node] "2.prems" False node by simp
    then consider "bs_mem x seen" | "x = i" | p where "p \<in> bb nodes i" "(p, x) \<in> (edges (bb nodes))\<^sup>*"
      | p where "p \<in> set pending" "(p, x) \<in> (edges (bb nodes))\<^sup>*"
      using bb by auto
    then show ?thesis
      by cases (auto intro: converse_rtrancl_into_rtrancl)
  qed
qed auto

lemma reach_loop_total:
  assumes "\<forall>x y. y \<in> bb nodes x \<longrightarrow> y \<in> node_ids nodes" "set pending \<subseteq> node_ids nodes"
  shows "\<exists>out. reach_loop nodes seen pending = Some out"
  using assms
proof (induction nodes seen pending rule: reach_loop.induct)
  case (2 nodes seen i pending)
  then obtain node where node: "bt_get nodes i = Some node" by (auto simp: node_ids_def)
  show ?case
  proof (cases "bs_mem i seen")
    case True
    then show ?thesis using 2 by auto
  next
    case False
    have "set (rev (bs_list (nd_backbone node)) @ pending) \<subseteq> node_ids nodes"
      using "2.prems" bb_list [OF node] by auto
    from "2.IH"(2) [OF False node "2.prems"(1) this] show ?thesis using False node by simp
  qed
qed simp

lemma reach_loop_reachable:
  assumes dom: "\<forall>x y. y \<in> bb nodes x \<longrightarrow> y \<in> node_ids nodes" and s: "s \<in> node_ids nodes"
  shows "\<exists>out. reach_loop nodes bs_empty [s] = Some out \<and> (\<forall>x. bs_mem x out \<longleftrightarrow> (s, x) \<in> (edges (bb nodes))\<^sup>*)"
proof -
  obtain out where out: "reach_loop nodes bs_empty [s] = Some out"
    using reach_loop_total [OF dom, of "[s]" bs_empty] s by auto
  have closed: "bs_mem s out" "\<And>x y. bs_mem x out \<Longrightarrow> y \<in> bb nodes x \<Longrightarrow> bs_mem y out"
    using reach_loop_covers [OF out] by auto
  have "bs_mem x out" if "(s, x) \<in> (edges (bb nodes))\<^sup>*" for x
    using that by (induction rule: rtrancl_induct) (use closed in auto)
  moreover have "(s, x) \<in> (edges (bb nodes))\<^sup>*" if "bs_mem x out" for x
    using reach_loop_within [OF out that] by auto
  ultimately show ?thesis using out by blast
qed

section \<open>The checks of the nodes\<close>

text \<open>The backbone as relations: symmetric and irreflexive.\<close>

definition backbone_links :: "('i::linorder, 'i node) btree \<Rightarrow> bool" where
  "backbone_links nodes \<longleftrightarrow> (\<forall>x y. y \<in> bb nodes x \<longrightarrow> x \<in> bb nodes y \<and> x \<noteq> y)"

lemma check_backbone_link_ok:
  "check_backbone_link nodes i j = Inr () \<longleftrightarrow> j \<noteq> i \<and> i \<in> bb nodes j"
  by (auto simp: check_backbone_link_def bb_def split: option.splits)

lemma check_level_links_ok:
  assumes "shapes config nodes"
  shows "check_level_links config nodes i (l, s) = Inr () \<longleftrightarrow>
    card {j. bs_mem j s} \<le> degree_limit config l \<and> (\<forall>j. bs_mem j s \<longrightarrow> j \<noteq> i \<and> i \<in> nbrs nodes l j)"
proof -
  have len: "length (nd_neighbours other) = nd_level other + 1" if "bt_get nodes j = Some other" for j other
    using assms that by (auto simp: shapes_def node_shape_def)
  have each: "(if j = i then Inl (Refused ''HNSW snapshot has a self-neighbour'')
       else case bt_get nodes j of
              None \<Rightarrow> Inl (Refused ''HNSW snapshot has a dangling neighbour'')
            | Some other \<Rightarrow>
                if nd_level other < l
                then Inl (Refused ''HNSW snapshot has a non-reciprocal neighbour'')
                else if length (nd_neighbours other) \<le> l then Inl DecodePanic
                else if \<not> bs_mem i (nd_neighbours other ! l)
                then Inl (Refused ''HNSW snapshot has a non-reciprocal neighbour'') else Inr ()) = Inr ()
      \<longleftrightarrow> j \<noteq> i \<and> i \<in> nbrs nodes l j" for j
    using len by (cases "bt_get nodes j") (auto simp: nbrs_def)
  show ?thesis
    unfolding check_level_links_def fst_conv snd_conv and_then_Inr_iff try_for_each_Inr_iff each
    by (simp add: bs_len_card)
qed

lemma ball_enumerate: "(\<forall>x \<in> set (enumerate 0 xs). P x) \<longleftrightarrow> (\<forall>l < length xs. P (l, xs ! l))"
  by (force simp: in_set_enumerate_eq)

lemma check_node_shape: "check_node config nodes (i, node) = Inr () \<Longrightarrow> node_shape config node"
  by (auto simp: check_node_def and_then_Inr_iff node_shape_def)

lemma check_nodes_ok:
  "try_for_each (check_node config nodes) (bt_entries nodes) = Inr () \<longleftrightarrow>
     shapes config nodes \<and> links_ok config nodes \<and> backbone_links nodes"
  (is "?checks \<longleftrightarrow> _")
proof -
  have all: "?checks \<longleftrightarrow> (\<forall>i node. bt_get nodes i = Some node \<longrightarrow> check_node config nodes (i, node) = Inr ())"
    by (auto simp: try_for_each_Inr_iff bt_entries_iff)
  have shapes: "?checks \<Longrightarrow> shapes config nodes" unfolding all shapes_def by (blast intro: check_node_shape)
  have node: "check_node config nodes (i, node) = Inr () \<longleftrightarrow>
      (\<forall>l < length (nd_neighbours node). card (nbrs nodes l i) \<le> degree_limit config l \<and>
        (\<forall>j \<in> nbrs nodes l i. j \<noteq> i \<and> i \<in> nbrs nodes l j)) \<and> (\<forall>j \<in> bb nodes i. j \<noteq> i \<and> i \<in> bb nodes j)"
    if sh: "shapes config nodes" and get: "bt_get nodes i = Some node" for i node
  proof -
    have "node_shape config node" using sh get by (auto simp: shapes_def)
    moreover have "nbrs nodes l i = {j. bs_mem j (nd_neighbours node ! l)}" if "l < length (nd_neighbours node)" for l
      using get that by (simp add: nbrs_def)
    moreover have "bb nodes i = {j. bs_mem j (nd_backbone node)}" using get by (simp add: bb_def)
    ultimately show ?thesis
      by (auto simp: check_node_def and_then_Inr_iff try_for_each_Inr_iff node_shape_def ball_enumerate
        check_level_links_ok [OF sh] check_backbone_link_ok)
  qed
  show ?thesis
  proof (cases "shapes config nodes")
    case True
    have none: "nbrs nodes l i = {}" if "bt_get nodes i = Some node" "\<not> l < length (nd_neighbours node)" for i node l
      using that by (simp add: nbrs_def)
    have gone: "nbrs nodes l i = {}" "bb nodes i = {}" if "bt_get nodes i = None" for i l
      using that by (simp_all add: nbrs_def bb_def)
    have "?checks \<longleftrightarrow> (\<forall>i l. card (nbrs nodes l i) \<le> degree_limit config l \<and>
        (\<forall>j \<in> nbrs nodes l i. j \<noteq> i \<and> i \<in> nbrs nodes l j)) \<and> (\<forall>i. \<forall>j \<in> bb nodes i. j \<noteq> i \<and> i \<in> bb nodes j)"
      (is "_ \<longleftrightarrow> ?A \<and> ?B")
    proof
      assume c: ?checks
      have "card (nbrs nodes l i) \<le> degree_limit config l \<and> (\<forall>j \<in> nbrs nodes l i. j \<noteq> i \<and> i \<in> nbrs nodes l j)" for i l
        using c all node [OF True] none gone
        by (cases "bt_get nodes i"; cases "nbrs nodes l i = {}") (simp, simp, simp, metis)
      moreover have "\<forall>j \<in> bb nodes i. j \<noteq> i \<and> i \<in> bb nodes j" for i
        using c all node [OF True] gone by (cases "bt_get nodes i") auto
      ultimately show "?A \<and> ?B" by blast
    next
      assume "?A \<and> ?B"
      then show ?checks unfolding all using node [OF True] by simp
    qed
    then show ?thesis using True
      by (auto simp: links_ok_def linked_at_def bounded_at_def backbone_links_def)
  next
    case False
    then show ?thesis using shapes by blast
  qed
qed

section \<open>The checks of the backbone\<close>

lemma backbone_links_dom: "backbone_links nodes \<Longrightarrow> \<forall>x y. y \<in> bb nodes x \<longrightarrow> y \<in> node_ids nodes"
  by (fastforce simp: backbone_links_def bb_def node_ids_def split: option.splits)

lemma backbone_ring_iff:
  assumes "backbone_links nodes"
  shows "ring (node_ids nodes) (bb nodes) \<longleftrightarrow>
    (\<forall>x \<in> node_ids nodes. card (bb nodes x) = expected_degree (bt_len nodes)) \<and>
    (\<forall>x \<in> node_ids nodes. \<forall>y \<in> node_ids nodes. (x, y) \<in> (edges (bb nodes))\<^sup>*)"
  using assms backbone_links_dom [OF assms]
  by (auto simp: ring_def backbone_links_def card_node_ids)

lemma connected_from:
  assumes links: "backbone_links nodes" and s: "s \<in> node_ids nodes"
  shows "(\<forall>x \<in> node_ids nodes. \<forall>y \<in> node_ids nodes. (x, y) \<in> (edges (bb nodes))\<^sup>*) \<longleftrightarrow>
    (\<forall>y \<in> node_ids nodes. (s, y) \<in> (edges (bb nodes))\<^sup>*)"
proof
  assume reach: "\<forall>y \<in> node_ids nodes. (s, y) \<in> (edges (bb nodes))\<^sup>*"
  have "(edges (bb nodes))\<inverse> = edges (bb nodes)" using links by (auto simp: edges_def backbone_links_def)
  then have "(x, s) \<in> (edges (bb nodes))\<^sup>*" if "x \<in> node_ids nodes" for x
    using reach that by (metis rtrancl_converseI)
  then show "\<forall>x \<in> node_ids nodes. \<forall>y \<in> node_ids nodes. (x, y) \<in> (edges (bb nodes))\<^sup>*"
    using reach by (blast intro: rtrancl_trans)
qed (use s in blast)

lemma degree_sum:
  assumes "\<forall>node \<in> set (bt_values nodes). bt_len (nd_backbone node) = expected_degree (bt_len nodes)"
    and "\<not> bt_is_empty nodes"
  shows "sum_list (map (\<lambda>node. bt_len (nd_backbone node)) (bt_values nodes)) div 2 = expected_edges (bt_len nodes)"
proof -
  have "map (\<lambda>node. bt_len (nd_backbone node)) (bt_values nodes) = map (\<lambda>_. expected_degree (bt_len nodes)) (bt_values nodes)"
    using assms(1) by simp
  moreover have "length (bt_values nodes) = bt_len nodes" by (simp add: bt_values_def bt_len_def)
  ultimately have "sum_list (map (\<lambda>node. bt_len (nd_backbone node)) (bt_values nodes)) =
      bt_len nodes * expected_degree (bt_len nodes)" by (simp only: sum_list_triv) simp
  moreover have "bt_len nodes \<noteq> 0" using assms(2) by (simp add: bt_len_def bt_is_empty_def)
  ultimately show ?thesis by (simp add: expected_degree_def expected_edges_def)
qed

lemma check_backbone_ok:
  assumes links: "backbone_links nodes"
  shows "check_backbone nodes = Inr () \<longleftrightarrow> ring (node_ids nodes) (bb nodes)"
proof (cases "bt_is_empty nodes")
  case True
  then have "node_ids nodes = {}" by (auto simp: node_ids_def bt_is_empty_iff)
  then show ?thesis using True backbone_ring_iff [OF links] by (simp add: check_backbone_def)
next
  case False
  let ?degrees = "\<forall>node \<in> set (bt_values nodes). bt_len (nd_backbone node) = expected_degree (bt_len nodes)"
  have keys: "set (bt_keys nodes) = node_ids nodes" by (auto simp: bt_keys_iff node_ids_def)
  have degrees: "?degrees \<longleftrightarrow> (\<forall>x \<in> node_ids nodes. card (bb nodes x) = expected_degree (bt_len nodes))"
  proof -
    have "card (bb nodes k) = bt_len (nd_backbone node)" if "bt_get nodes k = Some node" for k node
      using that by (simp add: bb_def bs_len_card)
    then show ?thesis by (fastforce simp: bt_values_iff node_ids_def)
  qed
  have "bt_keys nodes \<noteq> []" using False by (simp add: bt_is_empty_def bt_keys_def)
  then obtain s rest where start: "bt_keys nodes = s # rest" by (cases "bt_keys nodes") auto
  then have s: "s \<in> node_ids nodes" using keys by auto
  obtain out where out: "reach_loop nodes bs_empty [s] = Some out"
    "\<And>x. bs_mem x out \<longleftrightarrow> (s, x) \<in> (edges (bb nodes))\<^sup>*"
    using reach_loop_reachable [OF backbone_links_dom [OF links] s] by blast
  have sub: "{x. bs_mem x out} \<subseteq> node_ids nodes"
  proof
    fix x
    assume "x \<in> {x. bs_mem x out}"
    then have "(s, x) \<in> (edges (bb nodes))\<^sup>*" using out(2) by simp
    then show "x \<in> node_ids nodes"
      by (induction rule: rtrancl_induct) (use s backbone_links_dom [OF links] in auto)
  qed
  have "bt_len out = bt_len nodes \<longleftrightarrow> {x. bs_mem x out} = node_ids nodes"
    unfolding bs_len_card card_node_ids [symmetric] using card_subset_eq [OF finite_node_ids sub] by metis
  also have "\<dots> \<longleftrightarrow> (\<forall>y \<in> node_ids nodes. (s, y) \<in> (edges (bb nodes))\<^sup>*)"
    using sub unfolding out(2) [symmetric] by blast
  finally have conn: "bt_len out = bt_len nodes \<longleftrightarrow>
      (\<forall>x \<in> node_ids nodes. \<forall>y \<in> node_ids nodes. (x, y) \<in> (edges (bb nodes))\<^sup>*)"
    using connected_from [OF links s] by blast
  show ?thesis
  proof (cases ?degrees)
    case True
    have "check_backbone nodes = ensure (bt_len out = bt_len nodes) (Refused ''HNSW snapshot backbone is disconnected'')"
      by (simp only: check_backbone_def start False if_False degree_sum [OF True False] eqTrueI [OF True]
        ensure_simps(1) and_then_simps(2) list.case out(1) option.case simp_thms)
    then have "check_backbone nodes = Inr () \<longleftrightarrow> bt_len out = bt_len nodes" by (simp only: ensure_simps)
    then show ?thesis using True conn degrees backbone_ring_iff [OF links] by blast
  next
    case no: False
    have "check_backbone nodes = Inl (Refused ''HNSW snapshot backbone does not have its bounded cycle degree'')"
      by (simp only: check_backbone_def False if_False no simp_thms ensure_simps(2) and_then_simps(1))
    then show ?thesis using no degrees backbone_ring_iff [OF links] by simp
  qed
qed

section \<open>Decoding\<close>

lemma hnsw_try_from_iff:
  "hnsw_try_from raw = Inr ix \<longleftrightarrow> ix = raw \<and> hnsw_wf raw"
proof -
  let ?nodes = "hx_nodes raw" and ?config = "hx_config raw"
  have ring_links: "ring (node_ids ?nodes) (bb ?nodes) \<Longrightarrow> backbone_links ?nodes"
    using ring_sym ring_irrefl by (fastforce simp: backbone_links_def)
  have "try_for_each (check_node ?config ?nodes) (bt_entries ?nodes) = Inr () \<and> check_backbone ?nodes = Inr () \<longleftrightarrow>
      graph_ok raw"
    using check_nodes_ok [of ?config ?nodes] check_backbone_ok [of ?nodes] ring_links
    by (auto simp: graph_ok_def)
  then show ?thesis
    unfolding hnsw_wf_graph entry_ok_iff
    by (auto simp: hnsw_try_from_def and_then_Inr_iff)
qed

text \<open>
  C27: Decoding accepts exactly the graphs within the invariant, unchanged: a valid
  configuration, a non-zero generator state, the canonical entry point and highest level, every
  node of the configured dimension with one link set per level, links reciprocal and within
  the degree limits, and a backbone that is a single cycle through all nodes.
\<close>
theorem hnsw_snapshot_checks_exact:
  "hnsw_try_from raw = Inr ix \<longleftrightarrow> ix = raw \<and> hnsw_wf raw"
  by (rule hnsw_try_from_iff)

text \<open>
  Every graph that a history of insertions and removals on a new index leaves decodes
  from its own serialized form, unchanged.
\<close>
theorem hnsw_history_decodes:
  assumes "validate_config config = Inr ()" "fold_res hnsw_step ws (hnsw_new config) = Inr ix"
  shows "hnsw_try_from ix = Inr ix"
  using hnsw_history_refines [OF hnsw_new_wf [OF assms(1)], of ws] assms(2)
  by (simp add: hnsw_try_from_iff)

lemma hnsw_history_decodes_witness:
  "\<exists>ix. fold_res hnsw_step [HInsert (1 :: nat) [0], HRemove 1] (hnsw_new sample_config) = Inr ix \<and>
     hnsw_try_from ix = Inr ix"
proof -
  obtain ix where ix: "fold_res hnsw_step [HInsert (1 :: nat) [0], HRemove 1] (hnsw_new sample_config) = Inr ix"
    using hnsw_history_refines [OF hnsw_new_wf [OF sample_config_valid], of "[HInsert (1 :: nat) [0], HRemove 1]"]
    by (simp add: hnsw_new_def sample_vectors split: sum.splits)
  then show ?thesis using hnsw_history_decodes [OF sample_config_valid ix] by blast
qed

text \<open>A graph of two nodes: the second claims level 1 and is linked there, but has one link set only.\<close>

definition short_node :: "nat node" where
  "short_node = \<lparr>nd_vector = [0], nd_level = 1, nd_neighbours = [bs_of_list [1]], nd_backbone = bs_of_list [1]\<rparr>"

definition full_node :: "nat node" where
  "full_node = \<lparr>nd_vector = [0], nd_level = 1, nd_neighbours = [bs_of_list [2], bs_of_list [2]],
     nd_backbone = bs_of_list [2]\<rparr>"

definition short_graph :: "nat hnsw" where
  "short_graph = \<lparr>hx_config = sample_config, hx_nodes = bt_insert 2 short_node (bt_insert 1 full_node bt_empty),
     hx_entry = Some 1, hx_max_level = 1, hx_state = 1\<rparr>"

lemma short_graph_head:
  "validate_config (hx_config short_graph) = Inr ()" "hx_state short_graph \<noteq> 0"
  "hx_entry short_graph = select_entry (hx_nodes short_graph)"
  "hx_max_level short_graph = top_level (hx_nodes short_graph)"
  by code_simp+

lemma short_graph_entries: "bt_entries (hx_nodes short_graph) = [(1, full_node), (2, short_node)]"
  by code_simp

lemma short_graph_links:
  "check_level_links (hx_config short_graph) (hx_nodes short_graph) 1 (0, bs_of_list [2]) = Inr ()"
  "check_level_links (hx_config short_graph) (hx_nodes short_graph) 1 (1, bs_of_list [2]) = Inl DecodePanic"
proof -
  have "degree_limit (hx_config short_graph) 0 = 4" "degree_limit (hx_config short_graph) 1 = 2"
    by (simp_all add: degree_limit_def short_graph_def sample_config_def usize_saturating_mul_def usize_max_def)
  moreover have "bs_list (bs_of_list [2 :: nat]) = [2]" "bt_len (bs_of_list [2 :: nat]) = 1"
    "bt_get (hx_nodes short_graph) 2 = Some short_node"
    "nd_level short_node = 1" "nd_neighbours short_node = [bs_of_list [1]]"
    by code_simp+
  ultimately show "check_level_links (hx_config short_graph) (hx_nodes short_graph) 1 (0, bs_of_list [2]) = Inr ()"
    "check_level_links (hx_config short_graph) (hx_nodes short_graph) 1 (1, bs_of_list [2]) = Inl DecodePanic"
    by (simp_all add: check_level_links_def)
qed

lemma short_graph_shape: "node_shape (hx_config short_graph) full_node"
  by code_simp

lemma short_graph_first_node:
  "check_node (hx_config short_graph) (hx_nodes short_graph) (1, full_node) = Inl DecodePanic"
proof -
  have "enumerate 0 (nd_neighbours full_node) = [(0, bs_of_list [2]), (1, bs_of_list [2])]"
    by (simp add: full_node_def)
  then show ?thesis
    using short_graph_shape short_graph_links by (simp add: check_node_def node_shape_def)
qed

text \<open>
  C30: Decoding can panic instead of refusing: in a graph whose second node has fewer link
  sets than its level asks for, the reciprocity check of the first node indexes the second
  node's missing link set before the second node's own shape is checked.
\<close>
theorem hnsw_decode_can_panic: "hnsw_try_from short_graph = Inl DecodePanic"
  by (simp add: hnsw_try_from_def short_graph_head short_graph_entries short_graph_first_node
    del: One_nat_def)

end
