(* ===== verification/Hnsw_Query.thy ===== *)
theory Hnsw_Query
  imports Hnsw_Snapshot
begin

text \<open>
  Queries on the HNSW graph: they never panic, return members with their scores in order, and
  on a graph no larger than the query beam they return the exact nearest members.
\<close>

section \<open>Results of a layer search\<close>

lemma mset_keep_best:
  "keep_best ix v retained current results =
     (if Suc (length results) > retained then butlast (sort_key (dist_key ix v) (results @ [current]))
      else sort_key (dist_key ix v) (results @ [current]))"
  by (simp add: keep_best_def Let_def)

lemma keep_best_distinct:
  "distinct results \<Longrightarrow> current \<notin> set results \<Longrightarrow> distinct (keep_best ix v retained current results)"
  by (simp add: mset_keep_best distinct_butlast)

lemma keep_best_all: "length results < retained \<Longrightarrow> set (keep_best ix v retained current results) = insert current (set results)"
  by (simp add: mset_keep_best)

lemma keep_best_length: "length results \<le> retained \<Longrightarrow> length (keep_best ix v retained current results) \<le> retained"
  by (simp add: mset_keep_best)

lemma search_loop_distinct:
  assumes "search_loop ix v l retained budget visited frontier results = Some out"
    and "distinct results" "\<forall>i \<in> set results. bs_mem i visited" "length results \<le> retained"
  shows "distinct out \<and> length out \<le> retained"
  using assms
proof (induction ix v l retained budget visited frontier results rule: search_loop.induct)
  case (1 ix v l retained budget visited frontier results)
  show ?case
  proof (cases "frontier = [] \<or> budget \<le> bt_len visited")
    case True
    with "1.prems" show ?thesis by (subst (asm) search_loop.simps) auto
  next
    case open_loop: False
    show ?thesis
    proof (cases "sort_key (dist_key ix v) frontier")
      case Nil
      then show ?thesis using "1.prems" open_loop by (subst (asm) search_loop.simps) simp
    next
      case (Cons current rest)
      show ?thesis
      proof (cases "bs_mem current visited")
        case True
        have "search_loop ix v l retained budget visited rest results = Some out"
          using "1.prems"(1) open_loop Cons True by (subst (asm) search_loop.simps) simp
        from "1.IH"(1) [OF open_loop Cons True this "1.prems"(2-4)] show ?thesis .
      next
        case fresh: False
        show ?thesis
        proof (cases "beyond ix v retained current results")
          case True
          then have "out = results"
            using "1.prems"(1) open_loop Cons fresh by (subst (asm) search_loop.simps) simp
          then show ?thesis using "1.prems" by simp
        next
          case inside: False
          obtain found where found: "expand ix l current (bs_insert current visited) = Some found"
            and more: "search_loop ix v l retained budget (bs_insert current visited) (rest @ found)
              (keep_best ix v retained current results) = Some out"
            using "1.prems"(1) open_loop Cons fresh inside
            by (subst (asm) search_loop.simps) (auto split: option.splits)
          have "current \<notin> set results" using "1.prems"(3) fresh by auto
          moreover have "\<forall>i \<in> set (keep_best ix v retained current results). bs_mem i (bs_insert current visited)"
            using keep_best_in [of ix v retained current results] "1.prems"(3) by auto
          ultimately show ?thesis
            using "1.IH"(2) [OF open_loop Cons fresh inside found more] "1.prems"(2,4)
              keep_best_distinct keep_best_length by blast
        qed
      qed
    qed
  qed
qed

section \<open>Small graphs are searched exhaustively\<close>

text \<open>The loop on a graph within the beam: everything visited is a result and has its neighbours seen.\<close>

definition covering :: "'i::linorder hnsw \<Rightarrow> 'i bset \<Rightarrow> 'i list \<Rightarrow> 'i list \<Rightarrow> bool" where
  "covering ix visited frontier results \<longleftrightarrow>
     (\<forall>i. bs_mem i visited \<longleftrightarrow> i \<in> set results) \<and> distinct results \<and>
     set results \<union> set frontier \<subseteq> node_ids (hx_nodes ix) \<and>
     (\<forall>x y. x \<in> set results \<longrightarrow> y \<in> bb (hx_nodes ix) x \<longrightarrow> y \<in> set results \<union> set frontier)"

lemma covering_length: "covering ix visited frontier results \<Longrightarrow> bt_len visited = length results"
  by (simp add: covering_def bs_len_card distinct_card)

lemma covering_bound:
  assumes "covering ix visited frontier results"
  shows "length results \<le> bt_len (hx_nodes ix)"
proof -
  have "card (set results) \<le> card (node_ids (hx_nodes ix))"
    using assms by (intro card_mono finite_node_ids) (simp add: covering_def)
  then show ?thesis using assms by (simp add: covering_def distinct_card card_node_ids)
qed

lemma covering_step:
  assumes cov: "covering ix visited frontier results" and cur: "set frontier = insert current (set rest)"
    and fresh: "\<not> bs_mem current visited" and small: "bt_len (hx_nodes ix) \<le> retained"
    and found: "set found = {j \<in> adjacent (hx_nodes ix) 0 current. \<not> bs_mem j (bs_insert current visited)}"
    and closed: "closed_level (hx_nodes ix) 0" "shapes config (hx_nodes ix)"
  shows "\<not> beyond ix v retained current results \<and>
    covering ix (bs_insert current visited) (rest @ found) (keep_best ix v retained current results)"
proof -
  have node: "current \<in> node_ids (hx_nodes ix)" "current \<notin> set results"
    using cov cur fresh by (auto simp: covering_def)
  have "card (set (current # results)) \<le> card (node_ids (hx_nodes ix))"
    using cov node by (intro card_mono finite_node_ids) (auto simp: covering_def)
  moreover have "distinct (current # results)" using cov node(2) by (simp add: covering_def)
  then have "card (set (current # results)) = length (current # results)" by (rule distinct_card)
  ultimately have short: "length results < retained"
    using small unfolding card_node_ids by simp
  have "set found \<subseteq> node_ids (hx_nodes ix)"
    using closed found node(1) node_at_base [OF closed(2)] by (auto simp: closed_level_def)
  moreover have "y \<in> set (keep_best ix v retained current results) \<union> set (rest @ found)"
    if x: "x \<in> set (keep_best ix v retained current results)" and y: "y \<in> bb (hx_nodes ix) x" for x y
  proof -
    have keep: "set (keep_best ix v retained current results) = insert current (set results)"
      using keep_best_all [OF short] .
    consider "x = current" | "x \<in> set results" using x unfolding keep by blast
    then show ?thesis
    proof cases
      case 1
      then have "y \<in> adjacent (hx_nodes ix) 0 current" using y by (simp add: adjacent_def)
      then have "y \<in> set found \<or> bs_mem y (bs_insert current visited)" unfolding found by blast
      moreover have "bs_mem y visited \<Longrightarrow> y \<in> set results" using cov by (simp add: covering_def)
      ultimately show ?thesis unfolding keep by auto
    next
      case 2
      then have "y \<in> set results \<union> set frontier" using cov y unfolding covering_def by blast
      then show ?thesis unfolding keep cur by auto
    qed
  qed
  ultimately show ?thesis
    using cov cur short keep_best_all [OF short] keep_best_distinct node
    unfolding covering_def beyond_def by (intro conjI) (force, auto)
qed

lemma search_covers:
  assumes "graph_ok ix" "bt_len (hx_nodes ix) \<le> retained" "bt_len (hx_nodes ix) \<le> budget"
    and "covering ix visited frontier results" "e \<in> set results \<union> set frontier"
  shows "\<exists>out. search_loop ix v 0 retained budget visited frontier results = Some out \<and>
    distinct out \<and> set out = node_ids (hx_nodes ix)"
  using assms
proof (induction ix v "0 :: nat" retained budget visited frontier results rule: search_loop.induct)
  case (1 ix v retained budget visited frontier results)
  note cov = "1.prems"(4)
  show ?case
  proof (cases "frontier = [] \<or> budget \<le> bt_len visited")
    case finished: True
    have "set results = node_ids (hx_nodes ix)"
    proof (cases "budget \<le> bt_len visited")
      case True
      then have "card (node_ids (hx_nodes ix)) \<le> card (set results)"
        using covering_length [OF cov] "1.prems"(3) cov by (simp add: card_node_ids covering_def distinct_card)
      moreover have "set results \<subseteq> node_ids (hx_nodes ix)" using cov by (simp add: covering_def)
      ultimately show ?thesis by (intro card_seteq) simp_all
    next
      case False
      then have "frontier = []" using finished by simp
      then have closed: "e \<in> set results" "\<And>x y. x \<in> set results \<Longrightarrow> y \<in> bb (hx_nodes ix) x \<Longrightarrow> y \<in> set results"
        using cov "1.prems"(5) by (auto simp: covering_def)
      have "x \<in> set results" if "(e, x) \<in> (edges (bb (hx_nodes ix)))\<^sup>*" for x
        using that by (induction rule: rtrancl_induct) (use closed in auto)
      moreover have "e \<in> node_ids (hx_nodes ix)" using closed(1) cov by (auto simp: covering_def)
      ultimately have "node_ids (hx_nodes ix) \<subseteq> set results"
        using "1.prems"(1) by (auto simp: graph_ok_def ring_def)
      then show ?thesis using cov by (auto simp: covering_def)
    qed
    then show ?thesis using finished cov by (subst search_loop.simps) (auto simp: covering_def)
  next
    case open_loop: False
    show ?thesis
    proof (cases "sort_key (dist_key ix v) frontier")
      case Nil
      then have "length frontier = 0" by (metis length_0_conv length_sort)
      with open_loop show ?thesis by simp
    next
      case (Cons current rest)
      then have cur: "set frontier = insert current (set rest)" by (metis list.simps(15) set_sort)
      show ?thesis
      proof (cases "bs_mem current visited")
        case True
        then have "covering ix visited rest results" "e \<in> set results \<union> set rest"
          using cov cur "1.prems"(5) by (auto simp: covering_def)
        from "1.hyps"(1) [OF open_loop Cons True "1.prems"(1-3) this] show ?thesis
          using open_loop Cons True by (subst search_loop.simps) simp
      next
        case fresh: False
        have closed: "closed_level (hx_nodes ix) 0" "shapes (hx_config ix) (hx_nodes ix)"
          using graph_ok_closed "1.prems"(1) by (auto simp: graph_ok_def)
        have "at_level (hx_nodes ix) 0 current"
          using node_at_base [OF closed(2)] cov cur by (auto simp: covering_def)
        then obtain found where found: "expand ix 0 current (bs_insert current visited) = Some found"
          "set found = {j \<in> adjacent (hx_nodes ix) 0 current. \<not> bs_mem j (bs_insert current visited)}"
          using expand_in by blast
        note step = covering_step [OF cov cur fresh "1.prems"(2) found(2) closed, of v]
        have "e \<in> set (keep_best ix v retained current results) \<union> set (rest @ found)"
        proof -
          have "current \<notin> set results" using cov fresh by (auto simp: covering_def)
          then have "length results < retained"
            using covering_bound [OF step [THEN conjunct2]] "1.prems"(2) cov
              covering_length [OF step [THEN conjunct2]] covering_length [OF cov] bt_len_bs_insert [OF fresh] by simp
          then show ?thesis using "1.prems"(5) cur by (auto simp: keep_best_all)
        qed
        from "1.hyps"(2) [OF open_loop Cons fresh step [THEN conjunct1] found(1) "1.prems"(1-3) step [THEN conjunct2] this]
        show ?thesis using open_loop Cons fresh step found(1) by (subst search_loop.simps) simp
      qed
    qed
  qed
qed

section \<open>Queries\<close>

text \<open>The distance of a member to a query, and the score the query returns for it.\<close>

definition member_distance :: "'i::linorder hnsw \<Rightarrow> f32 list \<Rightarrow> 'i \<Rightarrow> f64" where
  "member_distance ix v i =
     (case hnsw_vectors ix i of None \<Rightarrow> f64_inf | Some w \<Rightarrow> distance (distance_mode (hx_config ix)) v w)"

definition member_hit :: "'i::linorder hnsw \<Rightarrow> f32 list \<Rightarrow> 'i \<Rightarrow> 'i \<times> f32" where
  "member_hit ix v i = (i, f32_of_f64 (member_distance ix v i))"

lemma node_distance_member:
  "i \<in> node_ids (hx_nodes ix) \<Longrightarrow> node_distance ix v i = Some (member_distance ix v i)"
  by (auto simp: node_ids_def node_distance_def member_distance_def hnsw_vectors_def)

lemma score_candidates_eq:
  assumes "set cs \<subseteq> node_ids (hx_nodes ix)"
  shows "score_candidates ix v cs = map_res (\<lambda>i. public_distance i (member_distance ix v i)) cs"
proof -
  have "List.map_filter (\<lambda>i. map_option (Pair i) (node_distance ix v i)) cs = map (\<lambda>i. (i, member_distance ix v i)) cs"
    using assms by (induction cs) (simp_all add: map_filter_simps node_distance_member)
  moreover have "map_res (\<lambda>(i, d). public_distance i d) (map (\<lambda>i. (i, f i)) xs) =
      map_res (\<lambda>i. public_distance i (f i)) xs" for f xs
    by (induction xs) simp_all
  ultimately show ?thesis by (simp add: score_candidates_def)
qed

lemma map_res_Inr_map:
  assumes f: "\<And>x y. f x = Inr y \<Longrightarrow> y = g x" and "map_res f xs = Inr ys"
  shows "ys = map g xs \<and> (\<forall>x \<in> set xs. f x = Inr (g x))"
  using assms(2)
proof (induction xs arbitrary: ys)
  case (Cons x xs)
  then obtain y zs where "f x = Inr y" "map_res f xs = Inr zs" "ys = y # zs" by (auto simp: and_then_Inr_iff)
  then show ?case using Cons.IH f [of x y] by auto
qed simp

lemma map_res_Inl: "map_res f xs = Inl e \<Longrightarrow> \<exists>x \<in> set xs. f x = Inl e"
  by (induction xs) (auto simp: and_then_Inl_iff)

lemma public_distance_hit:
  "public_distance i (member_distance ix v i) = Inr y \<Longrightarrow> y = member_hit ix v i"
  by (simp add: public_distance_def member_hit_def split: if_splits)

lemma hit_key_inj: "inj_on hit_key A"
  by (auto simp: inj_on_def hit_key_def)

lemma query_candidates:
  assumes wf: "hnsw_wf ix" and some: "\<not> bt_is_empty (hx_nodes ix)"
  shows "\<exists>e e' cs. hx_entry ix = Some e \<and>
    descend ix v b (rev [1..<Suc (hx_max_level ix)]) e = Some e' \<and> search_layer ix v [e'] 0 b b = Some cs \<and>
    distinct cs \<and> set cs \<subseteq> node_ids (hx_nodes ix) \<and>
    (bt_len (hx_nodes ix) \<le> b \<longrightarrow> set cs = node_ids (hx_nodes ix))"
proof -
  have ok: "graph_ok ix" and shapes: "shapes (hx_config ix) (hx_nodes ix)"
    and entry: "entry_ok (hx_nodes ix) (hx_entry ix) (hx_max_level ix)"
    using wf by (auto simp: hnsw_wf_graph graph_ok_def)
  have "node_ids (hx_nodes ix) \<noteq> {}" using some by (auto simp: node_ids_def bt_is_empty_iff)
  then obtain e where e: "hx_entry ix = Some e" "levels (hx_nodes ix) e = Some (hx_max_level ix)"
    using entry by (cases "hx_entry ix") (auto simp: entry_ok_def levels_def)
  then have at: "at_level (hx_nodes ix) l e \<longleftrightarrow> l \<le> hx_max_level ix" for l
    by (simp add: at_level_levels [OF shapes])
  obtain e' where e': "descend ix v b (rev [1..<Suc (hx_max_level ix)]) e = Some e'" "at_level (hx_nodes ix) 0 e'"
    using descend_stays [OF ok, of "rev [1..<Suc (hx_max_level ix)]" e v b] at by (auto simp del: upt_Suc)
  obtain cs where cs: "search_layer ix v [e'] 0 b b = Some cs" "\<forall>i \<in> set cs. at_level (hx_nodes ix) 0 i"
    using search_layer_stays [OF graph_ok_closed [OF ok] e'(2)] by blast
  have "distinct cs" using search_loop_distinct cs(1) by (fastforce simp: search_layer_def)
  moreover have "set cs \<subseteq> node_ids (hx_nodes ix)" using cs(2) node_at_base [OF shapes] by auto
  moreover have "set cs = node_ids (hx_nodes ix)" if "bt_len (hx_nodes ix) \<le> b"
  proof -
    have "covering ix bs_empty [e'] []" using e'(2) node_at_base [OF shapes] by (simp add: covering_def)
    from search_covers [OF ok that that this, of e' v] show ?thesis using cs(1) by (auto simp: search_layer_def)
  qed
  ultimately show ?thesis using e e' cs by auto
qed

text \<open>What a query comes to.\<close>

lemma hnsw_query_outcome:
  assumes "hnsw_wf ix"
  shows "(case hnsw_query v k ix of
      Inl e \<Rightarrow> (\<exists>err. e = Err err \<and> check_vector (hx_config ix) v = Inl err) \<or>
        (\<exists>i \<in> dom (hnsw_vectors ix). e = Err (DistanceNotRepresentable (member_distance ix v i)) \<and>
           \<not> f32_is_finite (snd (member_hit ix v i)))
    | Inr hits \<Rightarrow> length hits \<le> k \<and> sorted_wrt (\<lambda>a b. hit_key a < hit_key b) hits \<and> distinct (map fst hits) \<and>
        (\<forall>hit \<in> set hits. fst hit \<in> dom (hnsw_vectors ix) \<and> hit = member_hit ix v (fst hit) \<and>
           f32_is_finite (snd hit)))"
proof (cases "check_vector (hx_config ix) v")
  case (Inl e)
  then show ?thesis by (simp add: hnsw_query_def)
next
  case (Inr u)
  show ?thesis
  proof (cases "k = 0 \<or> bt_is_empty (hx_nodes ix)")
    case True
    then show ?thesis using Inr by (simp add: hnsw_query_def)
  next
    case False
    let ?b = "query_beam (hx_config ix) k"
    obtain e e' cs where c: "hx_entry ix = Some e" "descend ix v ?b (rev [1..<Suc (hx_max_level ix)]) e = Some e'"
      "search_layer ix v [e'] 0 ?b ?b = Some cs" "distinct cs" "set cs \<subseteq> node_ids (hx_nodes ix)"
      using query_candidates [OF assms, of v ?b] False by blast
    have query: "hnsw_query v k ix = and_then (map_err Err (score_candidates ix v cs)) (\<lambda>results.
        Inr (take k (sort_key hit_key results)))"
      using Inr False c by (simp add: hnsw_query_def Let_def del: upt_Suc)
    show ?thesis
    proof (cases "score_candidates ix v cs")
      case (Inl err)
      then obtain i where "i \<in> set cs" "public_distance i (member_distance ix v i) = Inl err"
        unfolding score_candidates_eq [OF c(5)] using map_res_Inl by fast
      then have "i \<in> dom (hnsw_vectors ix)" "err = DistanceNotRepresentable (member_distance ix v i)"
        "\<not> f32_is_finite (snd (member_hit ix v i))"
        using c(5) by (auto simp: hnsw_vectors_dom public_distance_def member_hit_def split: if_splits)
      then show ?thesis using Inl by (auto simp: query)
    next
      case (Inr results)
      then have results: "results = map (member_hit ix v) cs"
        "\<forall>i \<in> set cs. public_distance i (member_distance ix v i) = Inr (member_hit ix v i)"
        using map_res_Inr_map [of "\<lambda>i. public_distance i (member_distance ix v i)" "member_hit ix v" cs results,
            OF public_distance_hit] unfolding score_candidates_eq [OF c(5)] by blast+
      let ?hits = "sort_key hit_key results"
      have fst: "fst (member_hit ix v i) = i" for i by (simp add: member_hit_def)
      have hit: "fst h \<in> dom (hnsw_vectors ix)" "h = member_hit ix v (fst h)" "f32_is_finite (snd h)"
        if "h \<in> set ?hits" for h
        using that results c(5) by (auto simp: fst hnsw_vectors_dom public_distance_def member_hit_def split: if_splits)
      have "map fst results = cs" using results(1) by (simp add: fst comp_def)
      then have dist: "distinct (map fst results)" using c(4) by simp
      then have "distinct results" by (simp add: distinct_map)
      then have sorted: "sorted_wrt (\<lambda>a b. hit_key a < hit_key b) ?hits" by (intro sort_key_strict hit_key_inj)
      have "distinct (map fst ?hits)"
        using dist by (simp add: distinct_map)
      then have "distinct (map fst (take k ?hits))" by (simp add: take_map [symmetric])
      moreover have "\<forall>h \<in> set (take k ?hits). fst h \<in> dom (hnsw_vectors ix) \<and> h = member_hit ix v (fst h) \<and>
          f32_is_finite (snd h)"
        using hit in_set_takeD by metis
      ultimately show ?thesis using Inr sorted by (simp add: query sorted_wrt_take)
    qed
  qed
qed


text \<open>
  C19: A query on an index within the invariant never panics. It refuses an unusable
  vector, or a member whose distance no \<open>f32\<close> holds; otherwise it returns at most \<open>k\<close> distinct
  members with their scores, strictly ascending by score and then identity.
\<close>
theorem hnsw_query_contract:
  assumes "hnsw_wf ix"
  shows "(case hnsw_query v k ix of
      Inl e \<Rightarrow> (\<exists>err. e = Err err \<and> check_vector (hx_config ix) v = Inl err) \<or>
        (\<exists>i \<in> dom (hnsw_vectors ix). e = Err (DistanceNotRepresentable (member_distance ix v i)) \<and>
           \<not> f32_is_finite (snd (member_hit ix v i)))
    | Inr hits \<Rightarrow> length hits \<le> k \<and> sorted_wrt (\<lambda>a b. hit_key a < hit_key b) hits \<and> distinct (map fst hits) \<and>
        (\<forall>hit \<in> set hits. fst hit \<in> dom (hnsw_vectors ix) \<and> hit = member_hit ix v (fst hit) \<and>
           f32_is_finite (snd hit)))"
  using assms by (rule hnsw_query_outcome)

text \<open>
  C18: On an index with no more members than the query beam, so always when \<open>k\<close> is at least
  the number of members, a query is exact: it returns the \<open>k\<close> best of all members.
\<close>
theorem hnsw_query_exact:
  assumes "hnsw_wf ix" "check_vector (hx_config ix) v = Inr ()"
    and "hnsw_len ix \<le> query_beam (hx_config ix) k"
    and "\<And>i. i \<in> dom (hnsw_vectors ix) \<Longrightarrow> f32_is_finite (snd (member_hit ix v i))"
  shows "hnsw_query v k ix = Inr (take k (sort_key hit_key (map (member_hit ix v) (hnsw_member_ids ix))))"
proof (cases "k = 0 \<or> bt_is_empty (hx_nodes ix)")
  case True
  then have "k = 0 \<or> hnsw_member_ids ix = []" by (auto simp: hnsw_member_ids_def bt_is_empty_def bt_keys_def)
  then show ?thesis using True assms(2) by (auto simp: hnsw_query_def)
next
  case False
  let ?b = "query_beam (hx_config ix) k"
  obtain e e' cs where c: "hx_entry ix = Some e" "descend ix v ?b (rev [1..<Suc (hx_max_level ix)]) e = Some e'"
    "search_layer ix v [e'] 0 ?b ?b = Some cs" "distinct cs" "set cs = node_ids (hx_nodes ix)"
    using query_candidates [OF assms(1), of v ?b] False assms(3) unfolding hnsw_len_def by blast
  have "public_distance i (member_distance ix v i) = Inr (member_hit ix v i)" if "i \<in> set cs" for i
    using assms(4) [of i] that c(5) by (simp add: public_distance_def member_hit_def hnsw_vectors_dom)
  then have "score_candidates ix v cs = Inr (map (member_hit ix v) cs)"
    using map_res_all_Inr [of cs "\<lambda>i. public_distance i (member_distance ix v i)" "member_hit ix v"] c(5)
    by (simp add: score_candidates_eq)
  then have query: "hnsw_query v k ix = Inr (take k (sort_key hit_key (map (member_hit ix v) cs)))"
    using False c assms(2) by (simp add: hnsw_query_def Let_def del: upt_Suc)
  have inj: "inj (member_hit ix v)" by (auto simp: inj_def member_hit_def)
  then have on: "inj_on (member_hit ix v) A" for A by (rule inj_on_subset) simp
  have "sort_key hit_key (map (member_hit ix v) cs) = sort_key hit_key (map (member_hit ix v) (hnsw_member_ids ix))"
  proof (rule sort_key_unique)
    show "sorted_wrt (\<lambda>x y. hit_key x < hit_key y) (sort_key hit_key (map (member_hit ix v) cs))"
      using c(4) on by (intro sort_key_strict hit_key_inj) (simp add: distinct_map)
    show "distinct (map (member_hit ix v) (hnsw_member_ids ix))"
      using on by (simp add: distinct_map hnsw_member_ids_def)
  qed (simp_all add: hit_key_inj c(5) hnsw_member_ids_set hnsw_vectors_dom)
  then show ?thesis using query by simp
qed

text \<open>A graph of one node, and the zero query.\<close>

definition one_node :: "nat hnsw" where
  "one_node = \<lparr>hx_config = sample_config, hx_nodes = bt_insert 7 (fresh_node [0] 0) bt_empty,
     hx_entry = Some 7, hx_max_level = 0, hx_state = 1\<rparr>"

lemma one_node_vectors: "hnsw_vectors one_node = [7 \<mapsto> [0]]"
  by (simp add: fun_eq_iff hnsw_vectors_def one_node_def btree_simps fresh_node_def)

lemma one_node_wf: "hnsw_wf one_node"
proof -
  have nbrs: "nbrs (hx_nodes one_node) l x = {}" "bb (hx_nodes one_node) x = {}" for l x
    by (auto simp: nbrs_def bb_def one_node_def btree_simps fresh_node_def split: if_splits)
  have ids: "node_ids (hx_nodes one_node) = {7}" by (simp add: hnsw_vectors_dom [symmetric] one_node_vectors)
  have "bb (hx_nodes one_node) = (\<lambda>_. {})" using nbrs(2) by (simp add: fun_eq_iff)
  then have "ring (node_ids (hx_nodes one_node)) (bb (hx_nodes one_node))" by (simp add: ids ring_single)
  moreover have "shapes (hx_config one_node) (hx_nodes one_node)"
    using sample_vectors(1) fresh_node_shapes [of sample_config bt_empty "[0]" 0 "7 :: nat"]
    by (auto simp: one_node_def check_vector_ok shapes_def)
  moreover have "entry_ok (hx_nodes one_node) (hx_entry one_node) (hx_max_level one_node)"
    by (auto simp: entry_ok_def one_node_def btree_simps fresh_node_def)
  moreover have "validate_config (hx_config one_node) = Inr ()" "hx_state one_node \<noteq> 0"
    by (simp_all add: one_node_def sample_config_valid)
  ultimately show ?thesis by (simp add: hnsw_wf_def links_ok_def linked_at_def bounded_at_def nbrs)
qed

lemma one_node_hit: "member_hit one_node [0] 7 = (7, 0)"
proof -
  have "f32_of_f64 (distance L2 [0] [0]) = 0" by code_simp
  then show ?thesis
    by (simp add: member_hit_def member_distance_def one_node_vectors) (simp add: one_node_def sample_config_def)
qed

lemma hnsw_query_contract_witness:
  "hnsw_query [0] 3 one_node \<noteq> Inl Panic"
  using hnsw_query_contract [OF one_node_wf, of "[0]" 3] by (auto split: sum.splits)

lemma hnsw_query_exact_witness: "hnsw_query [0] 3 one_node = Inr [(7, 0)]"
proof -
  have "check_vector (hx_config one_node) [0] = Inr ()" by (simp add: one_node_def sample_vectors)
  moreover have "hnsw_len one_node \<le> query_beam (hx_config one_node) 3"
    by (simp add: hnsw_len_vectors one_node_vectors query_beam_def)
  moreover have "f32_is_finite (snd (member_hit one_node [0] i))" if "i \<in> dom (hnsw_vectors one_node)" for i
    using that sample_vectors(1) by (auto simp: one_node_vectors one_node_hit check_vector_ok split: if_splits)
  ultimately have "hnsw_query [0] 3 one_node =
      Inr (take 3 (sort_key hit_key (map (member_hit one_node [0]) (hnsw_member_ids one_node))))"
    by (rule hnsw_query_exact [OF one_node_wf])
  moreover have "hnsw_member_ids one_node = [7]" by code_simp
  ultimately show ?thesis by (simp add: one_node_hit)
qed

end
