(* ===== verification/Encoder.thy ===== *)
theory Encoder
  imports Storage_Key Vocabulary
begin

text \<open>
  The canonical item encoder (\<open>crates/heurema/src/lifecycle/digest.rs\<close>): the private
  \<open>serde::Serializer\<close> that writes a value as one tagged, length-prefixed item. A value is the
  tree of serializer calls its \<open>Serialize\<close> implementation makes; a string is its UTF-8 bytes,
  and a \<open>char\<close> the bytes that encode it.
\<close>

section \<open>The serde data model\<close>

type_synonym bytes = "byte list"

datatype serde =
    SBool bool
  | SU8 "8 word" | SU16 "16 word" | SU32 "32 word" | SU64 "64 word" | SU128 "128 word"
  | SI8 "8 word" | SI16 "16 word" | SI32 "32 word" | SI64 "64 word" | SI128 "128 word"
  | SF32 f32 | SF64 f64
  | SChar string | SStr string | SBytes bytes
  | SNone | SSome serde
  | SUnit | SUnitStruct string | SUnitVariant string
  | SNewtypeStruct string serde | SNewtypeVariant string serde
  | SSeq "serde list" | STuple "serde list" | STupleStruct string "serde list" | STupleVariant string "serde list"
  | SMap "map_call list"
  | SStruct string "field list" | SStructVariant string "field list"
  | SCustom string
and map_call = MKey serde | MValue serde
and field = Field string serde

section \<open>Tags\<close>

definition TAG_UNIT :: byte where "TAG_UNIT = 0x00"
definition TAG_NONE :: byte where "TAG_NONE = 0x01"
definition TAG_SOME :: byte where "TAG_SOME = 0x02"
definition TAG_FALSE :: byte where "TAG_FALSE = 0x03"
definition TAG_TRUE :: byte where "TAG_TRUE = 0x04"
definition TAG_U8 :: byte where "TAG_U8 = 0x10"
definition TAG_U16 :: byte where "TAG_U16 = 0x11"
definition TAG_U32 :: byte where "TAG_U32 = 0x12"
definition TAG_U64 :: byte where "TAG_U64 = 0x13"
definition TAG_U128 :: byte where "TAG_U128 = 0x14"
definition TAG_I8 :: byte where "TAG_I8 = 0x18"
definition TAG_I16 :: byte where "TAG_I16 = 0x19"
definition TAG_I32 :: byte where "TAG_I32 = 0x1a"
definition TAG_I64 :: byte where "TAG_I64 = 0x1b"
definition TAG_I128 :: byte where "TAG_I128 = 0x1c"
definition TAG_STR :: byte where "TAG_STR = 0x40"
definition TAG_BYTES :: byte where "TAG_BYTES = 0x41"
definition TAG_SEQ :: byte where "TAG_SEQ = 0x50"
definition TAG_MAP :: byte where "TAG_MAP = 0x51"
definition TAG_VARIANT :: byte where "TAG_VARIANT = 0x60"

lemmas tag_defs = TAG_UNIT_def TAG_NONE_def TAG_SOME_def TAG_FALSE_def TAG_TRUE_def
  TAG_U8_def TAG_U16_def TAG_U32_def TAG_U64_def TAG_U128_def
  TAG_I8_def TAG_I16_def TAG_I32_def TAG_I64_def TAG_I128_def
  TAG_STR_def TAG_BYTES_def TAG_SEQ_def TAG_MAP_def TAG_VARIANT_def

definition is_int_tag :: "byte \<Rightarrow> bool" where
  "is_int_tag t \<longleftrightarrow> TAG_U8 \<le> t \<and> t \<le> TAG_U128 \<or> TAG_I8 \<le> t \<and> t \<le> TAG_I128"

definition describe :: "bytes \<Rightarrow> string" where
  "describe item =
     (case item of
        [] \<Rightarrow> ''an unrecognised item''
      | t # _ \<Rightarrow>
          if t = TAG_UNIT then ''a unit''
          else if t = TAG_NONE then ''an absent option''
          else if t = TAG_SOME then ''a present option''
          else if t = TAG_FALSE \<or> t = TAG_TRUE then ''a bool''
          else if is_int_tag t then ''an integer''
          else if t = TAG_STR then ''a string''
          else if t = TAG_BYTES then ''a byte string''
          else if t = TAG_SEQ then ''a sequence''
          else if t = TAG_MAP then ''a map or struct''
          else if t = TAG_VARIANT then ''an enum variant with data''
          else ''an unrecognised item'')"

definition is_key :: "bytes \<Rightarrow> bool" where
  "is_key item = (case item of [] \<Rightarrow> False | t # _ \<Rightarrow> t = TAG_STR \<or> is_int_tag t)"

section \<open>Bytes\<close>

text \<open>\<open>to_be_bytes\<close> of an unsigned integer of \<open>n\<close> bytes.\<close>

primrec be_bytes :: "nat \<Rightarrow> nat \<Rightarrow> bytes" where
  "be_bytes 0 x = []"
| "be_bytes (Suc n) x = be_bytes n (x div 256) @ [word_of_nat x]"

definition word_bytes :: "'a::len word \<Rightarrow> bytes" where
  "word_bytes w = be_bytes (LENGTH('a) div 8) (unat w)"

text \<open>For evaluation in the kernel, the same on integers.\<close>

primrec be_bytes_int :: "nat \<Rightarrow> int \<Rightarrow> bytes" where
  "be_bytes_int 0 x = []"
| "be_bytes_int (Suc n) x = be_bytes_int n (x div 256) @ [word_of_int x]"

lemma be_bytes_code [code]: "be_bytes n x = be_bytes_int n (int x)"
  by (induction n arbitrary: x) (simp_all add: zdiv_int)

lemma word_bytes_code [code]: "word_bytes (w :: 'a::len word) = be_bytes_int (LENGTH('a) div 8) (uint w)"
  by (simp add: word_bytes_def be_bytes_code)

definition str_bytes :: "string \<Rightarrow> bytes" where
  "str_bytes s = map of_char s"

definition byte_count :: "nat \<Rightarrow> string + bytes" where
  "byte_count len =
     (if len < 2 ^ 64 then Inr (be_bytes 8 len)
      else Inl (''a length of '' @ show_nat len @ '' does not fit the grammar's u64''))"

lemma byte_count_code [code]:
  "byte_count len = (if int len < 18446744073709551616 then Inr (be_bytes 8 len)
     else Inl (''a length of '' @ show_nat len @ '' does not fit the grammar's u64''))"
  by (simp add: byte_count_def)

definition length_prefixed :: "byte \<Rightarrow> bytes \<Rightarrow> string + bytes" where
  "length_prefixed t payload =
     and_then (byte_count (length payload)) (\<lambda>len. Inr (t # len @ payload))"

definition float_refusal :: "string \<Rightarrow> string" where
  "float_refusal what =
     ''a consumer value contains '' @ what @ ''; floating-point numbers have no canonical '' @
     ''encoding, so member identity, provenance, and retention types must encode them as '' @
     ''integers or strings''"

text \<open>A variant item: the tag, the name as a string item, then the item of its data.\<close>

definition open_variant :: "string \<Rightarrow> string + bytes" where
  "open_variant name =
     and_then (byte_count (length name)) (\<lambda>len. Inr (TAG_VARIANT # TAG_STR # len @ str_bytes name))"

definition variant_item :: "string \<Rightarrow> string + bytes \<Rightarrow> string + bytes" where
  "variant_item name body =
     and_then (open_variant name) (\<lambda>head. and_then body (\<lambda>rest. Inr (head @ rest)))"

section \<open>Numbers of serde_json\<close>

definition SERDE_JSON_NUMBER :: string where
  "SERDE_JSON_NUMBER = ''$serde_json::private::Number''"

definition SERDE_JSON_RAW_VALUE :: string where
  "SERDE_JSON_RAW_VALUE = ''$serde_json::private::RawValue''"

text \<open>\<open>str::parse\<close> for \<open>u64\<close> and \<open>i64\<close>: an optional sign, then digits within range.\<close>

definition parse_digits :: "nat \<Rightarrow> string \<Rightarrow> nat option" where
  "parse_digits bound s =
     (if s \<noteq> [] \<and> list_all is_ascii_digit s \<and> dec_value s < bound then Some (dec_value s) else None)"

definition parse_u64 :: "string \<Rightarrow> nat option" where
  "parse_u64 s =
     (case s of [] \<Rightarrow> None | c # d \<Rightarrow> if c = CHR ''+'' then parse_digits (2 ^ 64) d else parse_digits (2 ^ 64) s)"

definition parse_i64 :: "string \<Rightarrow> int option" where
  "parse_i64 s =
     (case s of
        [] \<Rightarrow> None
      | c # d \<Rightarrow>
          if c = CHR ''-'' then map_option (\<lambda>n. - int n) (parse_digits (2 ^ 63 + 1) d)
          else if c = CHR ''+'' then map_option int (parse_digits (2 ^ 63) d)
          else map_option int (parse_digits (2 ^ 63) s))"

definition show_int :: "int \<Rightarrow> string" where
  "show_int i = (if i < 0 then CHR ''-'' # show_nat (nat (- i)) else show_nat (nat i))"

definition is_negative_text :: "string \<Rightarrow> int option \<Rightarrow> bool" where
  "is_negative_text text parsed = (case parsed of None \<Rightarrow> False | Some v \<Rightarrow> v < 0 \<and> show_int v = text)"

definition serde_json_number_item :: "string \<Rightarrow> string + bytes" where
  "serde_json_number_item text =
     (if map_option show_nat (parse_u64 text) = Some text
      then Inr (TAG_U64 # word_bytes (word_of_nat (the (parse_u64 text)) :: 64 word))
      else if is_negative_text text (parse_i64 text)
      then Inr (TAG_I64 # word_bytes (word_of_int (the (parse_i64 text)) :: 64 word))
      else Inl (float_refusal (''the serde_json number '' @ text @ '', which is not a u64 or a negative i64 and so is a float '' @
        ''in serde_json's default build'')))"

definition decoded_str :: "bytes \<Rightarrow> string option" where
  "decoded_str item =
     (case item of
        [] \<Rightarrow> None
      | t # rest \<Rightarrow>
          if t \<noteq> TAG_STR \<or> length rest < 8 then None
          else let text = map (\<lambda>b. char_of (unat b)) (drop 8 rest) in if utf8_valid text then Some text else None)"

section \<open>Maps\<close>

text \<open>A map being written: its encoded entries, and a key still without its value.\<close>

type_synonym map_state = "(bytes \<times> bytes) list \<times> bytes option"

definition map_new :: map_state where
  "map_new = ([], None)"

definition map_key :: "string + bytes \<Rightarrow> map_state \<Rightarrow> string + map_state" where
  "map_key encoded st =
     and_then encoded (\<lambda>item.
     if \<not> is_key item
     then Inl (''a map key encodes as '' @ describe item @ ''; map keys must encode as a string or an integer'')
     else Inr (fst st, Some item))"

definition map_value :: "string + bytes \<Rightarrow> map_state \<Rightarrow> string + map_state" where
  "map_value encoded st =
     (case snd st of
        None \<Rightarrow> Inl ''a map emitted a value before its key''
      | Some key \<Rightarrow> and_then encoded (\<lambda>item. Inr (fst st @ [(key, item)], None)))"

fun adjacent_equal :: "'a list \<Rightarrow> bool" where
  "adjacent_equal (x # y # zs) \<longleftrightarrow> x = y \<or> adjacent_equal (y # zs)"
| "adjacent_equal _ \<longleftrightarrow> False"

definition map_finish :: "map_state \<Rightarrow> string + bytes" where
  "map_finish st =
     (let entries = sort_key fst (fst st) in
      and_then (ensure (snd st = None) ''a map emitted a key without its value'') (\<lambda>_.
      and_then (ensure (\<not> adjacent_equal (map fst entries)) ''a map emits the same key twice'') (\<lambda>_.
      and_then (byte_count (length entries)) (\<lambda>n.
      Inr (TAG_MAP # n @ concat (map (\<lambda>(key, item). key @ item) entries))))))"

definition seq_finish :: "bytes list \<Rightarrow> string + bytes" where
  "seq_finish items = and_then (byte_count (length items)) (\<lambda>n. Inr (TAG_SEQ # n @ concat items))"

text \<open>The field of a serde_json number: its one decimal text.\<close>

definition number_field :: "string \<Rightarrow> string + bytes \<Rightarrow> string option \<Rightarrow> string + string option" where
  "number_field name encoded text =
     and_then encoded (\<lambda>item.
     if name = SERDE_JSON_NUMBER \<and> decoded_str item \<noteq> None \<and> text = None then Inr (decoded_str item)
     else Inl ''a serde_json number did not serialize as one decimal string'')"

definition number_finish :: "string option \<Rightarrow> string + bytes" where
  "number_finish text =
     (case text of
        None \<Rightarrow> Inl ''a serde_json number did not serialize as one decimal string''
      | Some text \<Rightarrow> serde_json_number_item text)"

section \<open>The encoder\<close>

fun encode :: "serde \<Rightarrow> string + bytes"
  and encode_all :: "serde list \<Rightarrow> string + bytes list"
  and encode_calls :: "map_call list \<Rightarrow> map_state \<Rightarrow> string + map_state"
  and encode_fields :: "field list \<Rightarrow> map_state \<Rightarrow> string + map_state"
  and encode_number :: "field list \<Rightarrow> string option \<Rightarrow> string + string option" where
  "encode (SBool b) = Inr [if b then TAG_TRUE else TAG_FALSE]"
| "encode (SU8 w) = Inr (TAG_U8 # word_bytes w)"
| "encode (SU16 w) = Inr (TAG_U16 # word_bytes w)"
| "encode (SU32 w) = Inr (TAG_U32 # word_bytes w)"
| "encode (SU64 w) = Inr (TAG_U64 # word_bytes w)"
| "encode (SU128 w) = Inr (TAG_U128 # word_bytes w)"
| "encode (SI8 w) = Inr (TAG_I8 # word_bytes w)"
| "encode (SI16 w) = Inr (TAG_I16 # word_bytes w)"
| "encode (SI32 w) = Inr (TAG_I32 # word_bytes w)"
| "encode (SI64 w) = Inr (TAG_I64 # word_bytes w)"
| "encode (SI128 w) = Inr (TAG_I128 # word_bytes w)"
| "encode (SF32 _) = Inl (float_refusal ''an f32'')"
| "encode (SF64 _) = Inl (float_refusal ''an f64'')"
| "encode (SChar s) = length_prefixed TAG_STR (str_bytes s)"
| "encode (SStr s) = length_prefixed TAG_STR (str_bytes s)"
| "encode (SBytes b) = length_prefixed TAG_BYTES b"
| "encode SNone = Inr [TAG_NONE]"
| "encode (SSome v) = and_then (encode v) (\<lambda>item. Inr (TAG_SOME # item))"
| "encode SUnit = Inr [TAG_UNIT]"
| "encode (SUnitStruct _) = Inr [TAG_UNIT]"
| "encode (SUnitVariant name) = length_prefixed TAG_STR (str_bytes name)"
| "encode (SNewtypeStruct _ v) = encode v"
| "encode (SNewtypeVariant name v) = variant_item name (encode v)"
| "encode (SSeq vs) = and_then (encode_all vs) seq_finish"
| "encode (STuple vs) = and_then (encode_all vs) seq_finish"
| "encode (STupleStruct _ vs) = and_then (encode_all vs) seq_finish"
| "encode (STupleVariant name vs) = variant_item name (and_then (encode_all vs) seq_finish)"
| "encode (SMap calls) = and_then (encode_calls calls map_new) map_finish"
| "encode (SStruct name fs) =
     (if name = SERDE_JSON_NUMBER then and_then (encode_number fs None) number_finish
      else if name = SERDE_JSON_RAW_VALUE
      then Inl ''a consumer value contains a serde_json RawValue; unparsed JSON text has no canonical encoding''
      else and_then (encode_fields fs map_new) map_finish)"
| "encode (SStructVariant name fs) =
     variant_item name (and_then (encode_fields fs map_new) map_finish)"
| "encode (SCustom message) = Inl message"
| "encode_all [] = Inr []"
| "encode_all (v # vs) = and_then (encode v) (\<lambda>item. and_then (encode_all vs) (\<lambda>items. Inr (item # items)))"
| "encode_calls [] st = Inr st"
| "encode_calls (MKey k # calls) st = and_then (map_key (encode k) st) (encode_calls calls)"
| "encode_calls (MValue v # calls) st = and_then (map_value (encode v) st) (encode_calls calls)"
| "encode_fields [] st = Inr st"
| "encode_fields (Field name v # fs) st =
     and_then (map_key (length_prefixed TAG_STR (str_bytes name)) st) (\<lambda>st.
     and_then (map_value (encode v) st) (encode_fields fs))"
| "encode_number [] text = Inr text"
| "encode_number (Field name v # fs) text =
     and_then (number_field name (encode v) text) (encode_number fs)"

text \<open>Why a value cannot identify a member.\<close>

definition member_identity_refusal :: "serde \<Rightarrow> string option" where
  "member_identity_refusal v =
     (case encode v of
        Inl e \<Rightarrow> Some e
      | Inr item \<Rightarrow>
          if is_key item then None
          else Some (''encodes as '' @ describe item @ ''; a member identity must encode as a string or an integer, '' @
            ''because engine snapshots key members by it''))"

end
