(* ===== verification/Items.thy ===== *)
theory Items
  imports Encoder
begin

text \<open>
  The item grammar that the documentation of \<open>OperationDigest\<close> states
  (\<open>crates/heurema/src/lifecycle/identity.rs\<close>), as a tree of items and their bytes. The bytes of
  items are prefix-free, and whatever the encoder accepts it writes as exactly one item.
\<close>

section \<open>The grammar\<close>

datatype item =
    IUnit | INone | ISome item | IBool bool | IInt byte bytes | IStr bytes | IBytes bytes
  | ISeq "item list" | IMap "entry list" | IVariant bytes item
and entry = Entry item item

fun int_width :: "byte \<Rightarrow> nat" where
  "int_width t =
     (if t = TAG_U8 \<or> t = TAG_I8 then 1 else if t = TAG_U16 \<or> t = TAG_I16 then 2
      else if t = TAG_U32 \<or> t = TAG_I32 then 4 else if t = TAG_U64 \<or> t = TAG_I64 then 8
      else if t = TAG_U128 \<or> t = TAG_I128 then 16 else 0)"

declare int_width.simps [simp del]

definition prefixed :: "bytes \<Rightarrow> bytes" where
  "prefixed payload = be_bytes 8 (length payload) @ payload"

fun item_bytes :: "item \<Rightarrow> bytes" and items_bytes :: "item list \<Rightarrow> bytes" and entries_bytes :: "entry list \<Rightarrow> bytes" where
  "item_bytes IUnit = [TAG_UNIT]"
| "item_bytes INone = [TAG_NONE]"
| "item_bytes (ISome a) = TAG_SOME # item_bytes a"
| "item_bytes (IBool b) = [if b then TAG_TRUE else TAG_FALSE]"
| "item_bytes (IInt t p) = t # p"
| "item_bytes (IStr s) = TAG_STR # prefixed s"
| "item_bytes (IBytes s) = TAG_BYTES # prefixed s"
| "item_bytes (ISeq as) = TAG_SEQ # be_bytes 8 (length as) @ items_bytes as"
| "item_bytes (IMap es) = TAG_MAP # be_bytes 8 (length es) @ entries_bytes es"
| "item_bytes (IVariant name a) = TAG_VARIANT # TAG_STR # prefixed name @ item_bytes a"
| "items_bytes [] = []"
| "items_bytes (a # as) = item_bytes a @ items_bytes as"
| "entries_bytes [] = []"
| "entries_bytes (Entry k v # es) = item_bytes k @ item_bytes v @ entries_bytes es"

fun entry_key :: "entry \<Rightarrow> item" where
  "entry_key (Entry k v) = k"

fun item_is_key :: "item \<Rightarrow> bool" where
  "item_is_key (IInt _ _) = True"
| "item_is_key (IStr _) = True"
| "item_is_key _ = False"

text \<open>Lengths and counts fit a \<open>u64\<close>; map keys are strings or integers, strictly ascending by their bytes.\<close>

fun item_ok :: "item \<Rightarrow> bool" and items_ok :: "item list \<Rightarrow> bool" and entries_ok :: "entry list \<Rightarrow> bool" where
  "item_ok IUnit = True"
| "item_ok INone = True"
| "item_ok (ISome a) = item_ok a"
| "item_ok (IBool _) = True"
| "item_ok (IInt t p) = (int_width t \<noteq> 0 \<and> length p = int_width t)"
| "item_ok (IStr s) = (length s < 2 ^ 64)"
| "item_ok (IBytes s) = (length s < 2 ^ 64)"
| "item_ok (ISeq as) = (length as < 2 ^ 64 \<and> items_ok as)"
| "item_ok (IMap es) = (length es < 2 ^ 64 \<and> entries_ok es \<and>
     sorted_wrt (<) (map (\<lambda>e. item_bytes (entry_key e)) es))"
| "item_ok (IVariant name a) = (length name < 2 ^ 64 \<and> item_ok a)"
| "items_ok [] = True"
| "items_ok (a # as) = (item_ok a \<and> items_ok as)"
| "entries_ok [] = True"
| "entries_ok (Entry k v # es) = (item_is_key k \<and> item_ok k \<and> item_ok v \<and> entries_ok es)"

section \<open>Big-endian integers\<close>

lemma be_bytes_length [simp]: "length (be_bytes n x) = n"
  by (induction n arbitrary: x) simp_all

lemma word_byte_eq: "(word_of_nat x :: 8 word) = word_of_nat y \<longleftrightarrow> x mod 256 = y mod 256"
  by (simp add: word_of_nat_eq_iff take_bit_eq_mod)

lemma be_bytes_eq: "be_bytes n x = be_bytes n y \<longleftrightarrow> x mod 256 ^ n = y mod 256 ^ n"
proof (induction n arbitrary: x y)
  case (Suc n)
  have split: "z mod (256 * m) = 256 * (z div 256 mod m) + z mod 256" for z m :: nat
    by (simp add: mod_mult2_eq)
  have "256 * a + b = 256 * c + d \<longleftrightarrow> a = c \<and> b = d" if "b < 256" "d < 256" for a b c d :: nat
  proof
    assume eq: "256 * a + b = 256 * c + d"
    have "(256 * a + b) div 256 = a" "(256 * a + b) mod 256 = b" "(256 * c + d) div 256 = c" "(256 * c + d) mod 256 = d"
      using that by simp_all
    then show "a = c \<and> b = d" unfolding eq by simp
  qed simp
  then have "x mod 256 ^ Suc n = y mod 256 ^ Suc n \<longleftrightarrow>
      x div 256 mod 256 ^ n = y div 256 mod 256 ^ n \<and> x mod 256 = y mod 256"
    unfolding power_Suc split by simp
  then show ?case using Suc [of "x div 256" "y div 256"] by (auto simp: word_byte_eq)
qed simp

lemma be_bytes_inject: "x < 256 ^ n \<Longrightarrow> y < 256 ^ n \<Longrightarrow> be_bytes n x = be_bytes n y \<longleftrightarrow> x = y"
  by (simp add: be_bytes_eq)

lemma count_inject: "x < 2 ^ 64 \<Longrightarrow> y < 2 ^ 64 \<Longrightarrow> be_bytes 8 x = be_bytes 8 y \<longleftrightarrow> x = y"
  using be_bytes_inject [of x 8 y] by simp

lemma prefixed_split:
  assumes "prefixed s @ x = prefixed t @ y" "length s < 2 ^ 64" "length t < 2 ^ 64"
  shows "s = t \<and> x = y"
proof -
  have "be_bytes 8 (length s) = be_bytes 8 (length t)" "s @ x = t @ y"
    using assms(1) by (simp_all add: prefixed_def append_eq_append_conv)
  then show ?thesis using count_inject [OF assms(2,3)] by (simp add: append_eq_append_conv)
qed

lemma counted_split:
  assumes "be_bytes 8 m @ x = be_bytes 8 n @ y" "m < 2 ^ 64" "n < 2 ^ 64"
  shows "m = n \<and> x = y"
  using assms count_inject [OF assms(2,3)] by (simp add: append_eq_append_conv)

section \<open>Prefix-freeness\<close>

text \<open>The tag of an item tells its kind.\<close>

lemma item_of_tag:
  assumes "item_ok b"
  shows "item_bytes b = TAG_UNIT # r \<Longrightarrow> b = IUnit \<and> r = []"
    and "item_bytes b = TAG_NONE # r \<Longrightarrow> b = INone \<and> r = []"
    and "item_bytes b = TAG_SOME # r \<Longrightarrow> \<exists>c. b = ISome c \<and> r = item_bytes c"
    and "item_bytes b = TAG_TRUE # r \<Longrightarrow> b = IBool True \<and> r = []"
    and "item_bytes b = TAG_FALSE # r \<Longrightarrow> b = IBool False \<and> r = []"
    and "int_width t \<noteq> 0 \<Longrightarrow> item_bytes b = t # r \<Longrightarrow> b = IInt t r"
    and "item_bytes b = TAG_STR # r \<Longrightarrow> \<exists>s. b = IStr s \<and> r = prefixed s"
    and "item_bytes b = TAG_BYTES # r \<Longrightarrow> \<exists>s. b = IBytes s \<and> r = prefixed s"
    and "item_bytes b = TAG_SEQ # r \<Longrightarrow> \<exists>as. b = ISeq as \<and> r = be_bytes 8 (length as) @ items_bytes as"
    and "item_bytes b = TAG_MAP # r \<Longrightarrow> \<exists>es. b = IMap es \<and> r = be_bytes 8 (length es) @ entries_bytes es"
    and "item_bytes b = TAG_VARIANT # r \<Longrightarrow> \<exists>n c. b = IVariant n c \<and> r = TAG_STR # prefixed n @ item_bytes c"
  using assms by (cases b; force simp: tag_defs int_width.simps split: if_splits)+

lemma item_bytes_cons: "\<exists>t r. item_bytes b = t # r"
  by (cases b) simp_all

lemma head_tag: "t # p = item_bytes b @ y \<Longrightarrow> \<exists>r. item_bytes b = t # r \<and> p = r @ y"
  using item_bytes_cons [of b] by auto

lemma item_prefix_free:
  "item_ok a \<Longrightarrow> item_ok b \<Longrightarrow> item_bytes a @ x = item_bytes b @ y \<Longrightarrow> a = b \<and> x = y"
  "items_ok as \<Longrightarrow> items_ok bs \<Longrightarrow> length as = length bs \<Longrightarrow> items_bytes as @ x = items_bytes bs @ y \<Longrightarrow> as = bs \<and> x = y"
  "entries_ok es \<Longrightarrow> entries_ok fs \<Longrightarrow> length es = length fs \<Longrightarrow> entries_bytes es @ x = entries_bytes fs @ y \<Longrightarrow> es = fs \<and> x = y"
proof (induction a and as and es arbitrary: b x y and bs x y and fs x y rule: item_bytes_items_bytes_entries_bytes.induct)
  case 1
  then obtain r where r: "item_bytes b = TAG_UNIT # r" "x = r @ y" using head_tag [of TAG_UNIT x b y] by auto
  show ?case using item_of_tag(1) [OF 1(2) r(1)] r(2) by simp
next
  case 2
  then obtain r where r: "item_bytes b = TAG_NONE # r" "x = r @ y" using head_tag [of TAG_NONE x b y] by auto
  show ?case using item_of_tag(2) [OF 2(2) r(1)] r(2) by simp
next
  case (3 a)
  obtain r where r: "item_bytes b = TAG_SOME # r" "item_bytes a @ x = r @ y"
    using head_tag [of TAG_SOME "item_bytes a @ x" b y] 3(4) by auto
  obtain c where "b = ISome c" "r = item_bytes c" using item_of_tag(3) [OF 3(3) r(1)] by blast
  then show ?case using 3(1) [of c x y] 3(2,3) r(2) by simp
next
  case (4 c)
  obtain r where r: "item_bytes b = (if c then TAG_TRUE else TAG_FALSE) # r" "x = r @ y"
    using head_tag [of "if c then TAG_TRUE else TAG_FALSE" x b y] 4(3) by auto
  then show ?case using item_of_tag(4,5) [OF 4(2), of r] by (cases c) simp_all
next
  case (5 t p)
  obtain r where r: "item_bytes b = t # r" "p @ x = r @ y" using head_tag [of t "p @ x" b y] 5(3) by auto
  have "b = IInt t r" using item_of_tag(6) [OF 5(2) _ r(1)] 5(1) by simp
  then show ?case using 5(1,2) r(2) by (simp add: append_eq_append_conv)
next
  case (6 s)
  obtain r where r: "item_bytes b = TAG_STR # r" "prefixed s @ x = r @ y"
    using head_tag [of TAG_STR "prefixed s @ x" b y] 6(3) by auto
  obtain t where "b = IStr t" "r = prefixed t" using item_of_tag(7) [OF 6(2) r(1)] by blast
  then show ?case using 6(1,2) r(2) prefixed_split [of s x t y] by simp
next
  case (7 s)
  obtain r where r: "item_bytes b = TAG_BYTES # r" "prefixed s @ x = r @ y"
    using head_tag [of TAG_BYTES "prefixed s @ x" b y] 7(3) by auto
  obtain t where "b = IBytes t" "r = prefixed t" using item_of_tag(8) [OF 7(2) r(1)] by blast
  then show ?case using 7(1,2) r(2) prefixed_split [of s x t y] by simp
next
  case (8 as)
  obtain r where r: "item_bytes b = TAG_SEQ # r" "(be_bytes 8 (length as) @ items_bytes as) @ x = r @ y"
    using head_tag [of TAG_SEQ "(be_bytes 8 (length as) @ items_bytes as) @ x" b y] 8(4) by auto
  obtain bs where b: "b = ISeq bs" "r = be_bytes 8 (length bs) @ items_bytes bs"
    using item_of_tag(9) [OF 8(3) r(1)] by blast
  then have "length as = length bs \<and> items_bytes as @ x = items_bytes bs @ y"
    using 8(2,3) r(2) by (intro counted_split) simp_all
  then show ?case using 8(1) [of bs x y] 8(2,3) b(1) by simp
next
  case (9 es)
  obtain r where r: "item_bytes b = TAG_MAP # r" "(be_bytes 8 (length es) @ entries_bytes es) @ x = r @ y"
    using head_tag [of TAG_MAP "(be_bytes 8 (length es) @ entries_bytes es) @ x" b y] 9(4) by auto
  obtain fs where b: "b = IMap fs" "r = be_bytes 8 (length fs) @ entries_bytes fs"
    using item_of_tag(10) [OF 9(3) r(1)] by blast
  then have "length es = length fs \<and> entries_bytes es @ x = entries_bytes fs @ y"
    using 9(2,3) r(2) by (intro counted_split) simp_all
  then show ?case using 9(1) [of fs x y] 9(2,3) b(1) by simp
next
  case (10 name a)
  obtain r where r: "item_bytes b = TAG_VARIANT # r" "(TAG_STR # prefixed name @ item_bytes a) @ x = r @ y"
    using head_tag [of TAG_VARIANT "(TAG_STR # prefixed name @ item_bytes a) @ x" b y] 10(4) by auto
  obtain n c where b: "b = IVariant n c" "r = TAG_STR # prefixed n @ item_bytes c"
    using item_of_tag(11) [OF 10(3) r(1)] by blast
  then have "name = n \<and> item_bytes a @ x = item_bytes c @ y"
    using 10(2,3) r(2) by (intro prefixed_split) simp_all
  then show ?case using 10(1) [of c x y] 10(2,3) b(1) by simp
next
  case 11
  then show ?case by simp
next
  case (12 a as)
  then obtain b' bs' where bs: "bs = b' # bs'" by (cases bs) auto
  have head: "a = b' \<and> items_bytes as @ x = items_bytes bs' @ y"
    by (rule 12(1)) (use 12(3-6) bs in simp_all)
  have "as = bs' \<and> x = y"
    by (rule 12(2)) (use 12(3-6) bs head in simp_all)
  with head bs show ?case by simp
next
  case 13
  then show ?case by simp
next
  case (14 k v es)
  obtain f fs' where "fs = f # fs'" using 14(6) by (cases fs) auto
  then obtain k' v' where fs: "fs = Entry k' v' # fs'" by (cases f) auto
  have key: "k = k' \<and> item_bytes v @ entries_bytes es @ x = item_bytes v' @ entries_bytes fs' @ y"
    by (rule 14(1)) (use 14(4-7) fs in simp_all)
  have val: "v = v' \<and> entries_bytes es @ x = entries_bytes fs' @ y"
    by (rule 14(2)) (use 14(4-7) fs key in simp_all)
  have "es = fs' \<and> x = y"
    by (rule 14(3)) (use 14(4-7) fs val in simp_all)
  with key val fs show ?case by simp
qed

lemma item_bytes_inject: "item_ok a \<Longrightarrow> item_ok b \<Longrightarrow> item_bytes a = item_bytes b \<longleftrightarrow> a = b"
  using item_prefix_free(1) [of a b "[]" "[]"] by auto

section \<open>The encoder writes items\<close>

definition is_item :: "bytes \<Rightarrow> bool" where
  "is_item bs \<longleftrightarrow> (\<exists>a. item_ok a \<and> item_bytes a = bs)"

lemma is_itemI: "item_ok a \<Longrightarrow> item_bytes a = bs \<Longrightarrow> is_item bs"
  by (auto simp: is_item_def)

lemma byte_count_Inr: "byte_count n = Inr b \<longleftrightarrow> n < 2 ^ 64 \<and> b = be_bytes 8 n"
  by (auto simp: byte_count_def)

lemma length_prefixed_Inr: "length_prefixed t p = Inr bs \<longleftrightarrow> length p < 2 ^ 64 \<and> bs = t # prefixed p"
  by (auto simp: length_prefixed_def and_then_Inr_iff byte_count_Inr prefixed_def)

lemma variant_item_Inr:
  "variant_item name body = Inr bs \<longleftrightarrow>
     (\<exists>rest. body = Inr rest \<and> length name < 2 ^ 64 \<and> bs = TAG_VARIANT # TAG_STR # prefixed (str_bytes name) @ rest)"
  by (auto simp: variant_item_def open_variant_def and_then_Inr_iff byte_count_Inr prefixed_def str_bytes_def)

lemma word_int_item:
  assumes "int_width t \<noteq> 0" "int_width t = LENGTH('a::len) div 8"
  shows "is_item (t # word_bytes (w :: 'a word))"
  by (rule is_itemI [of "IInt t (word_bytes w)"]) (use assms in \<open>simp_all add: word_bytes_def\<close>)

lemma items_of_list:
  assumes "\<forall>b \<in> set bs. is_item b"
  shows "\<exists>as. items_ok as \<and> length as = length bs \<and> items_bytes as = concat bs"
  using assms
proof (induction bs)
  case Nil
  then show ?case by (intro exI [of _ "[]"]) simp
next
  case (Cons b bs)
  then obtain as where "items_ok as" "length as = length bs" "items_bytes as = concat bs" by auto
  moreover obtain a where "item_ok a" "item_bytes a = b" using Cons.prems by (auto simp: is_item_def)
  ultimately show ?case by (intro exI [of _ "a # as"]) simp
qed

lemma seq_finish_item: "\<forall>b \<in> set bs. is_item b \<Longrightarrow> seq_finish bs = Inr out \<Longrightarrow> is_item out"
proof -
  assume "\<forall>b \<in> set bs. is_item b" and out: "seq_finish bs = Inr out"
  then obtain as where "items_ok as" "length as = length bs" "items_bytes as = concat bs"
    using items_of_list by blast
  then show ?thesis
    using out by (intro is_itemI [of "ISeq as"]) (auto simp: seq_finish_def and_then_Inr_iff byte_count_Inr)
qed

text \<open>A map being written holds keys and values that are items, its keys strings or integers.\<close>

definition map_state_ok :: "map_state \<Rightarrow> bool" where
  "map_state_ok st \<longleftrightarrow> (\<forall>(k, v) \<in> set (fst st). is_item k \<and> is_key k \<and> is_item v) \<and>
     (case snd st of None \<Rightarrow> True | Some k \<Rightarrow> is_item k \<and> is_key k)"

lemma map_key_ok:
  assumes "map_state_ok st" "\<And>b. enc = Inr b \<Longrightarrow> is_item b" "map_key enc st = Inr st'"
  shows "map_state_ok st'"
  using assms by (auto simp: map_key_def map_state_ok_def and_then_Inr_iff split: if_splits)

lemma map_value_ok:
  assumes "map_state_ok st" "\<And>b. enc = Inr b \<Longrightarrow> is_item b" "map_value enc st = Inr st'"
  shows "map_state_ok st'"
  using assms by (auto simp: map_value_def map_state_ok_def and_then_Inr_iff split: option.splits)

lemma no_int_tag:
  "\<not> is_int_tag TAG_UNIT" "\<not> is_int_tag TAG_NONE" "\<not> is_int_tag TAG_SOME" "\<not> is_int_tag TAG_TRUE" "\<not> is_int_tag TAG_FALSE"
  "\<not> is_int_tag TAG_BYTES" "\<not> is_int_tag TAG_SEQ" "\<not> is_int_tag TAG_MAP" "\<not> is_int_tag TAG_VARIANT"
  by code_simp+

lemma no_str_tag:
  "TAG_UNIT \<noteq> TAG_STR" "TAG_NONE \<noteq> TAG_STR" "TAG_SOME \<noteq> TAG_STR" "TAG_TRUE \<noteq> TAG_STR" "TAG_FALSE \<noteq> TAG_STR"
  "TAG_BYTES \<noteq> TAG_STR" "TAG_SEQ \<noteq> TAG_STR" "TAG_MAP \<noteq> TAG_STR" "TAG_VARIANT \<noteq> TAG_STR"
  by (simp_all add: tag_defs)

lemma is_key_item: "is_key (item_bytes a) \<Longrightarrow> item_is_key a"
  by (cases a) (auto simp: is_key_def no_int_tag no_str_tag split: if_splits)

lemma not_adjacent_equal_sorted: "sorted xs \<Longrightarrow> \<not> adjacent_equal xs \<longleftrightarrow> sorted_wrt (<) xs"
proof (induction xs rule: adjacent_equal.induct)
  case (1 x y zs)
  then show ?case by (auto simp: less_le)
qed auto

lemma entries_of_list:
  assumes "\<forall>(k, v) \<in> set es. is_item k \<and> is_key k \<and> is_item v"
  shows "\<exists>fs. entries_ok fs \<and> length fs = length es \<and> entries_bytes fs = concat (map (\<lambda>(k, v). k @ v) es) \<and>
    map (\<lambda>e. item_bytes (entry_key e)) fs = map fst es"
  using assms
proof (induction es)
  case Nil
  then show ?case by (intro exI [of _ "[]"]) simp
next
  case (Cons e es)
  obtain k v where e: "e = (k, v)" by fastforce
  obtain fs where fs: "entries_ok fs" "length fs = length es" "entries_bytes fs = concat (map (\<lambda>(k, v). k @ v) es)"
    "map (\<lambda>e. item_bytes (entry_key e)) fs = map fst es" using Cons by auto
  obtain a b where "item_ok a" "item_bytes a = k" "item_ok b" "item_bytes b = v" "is_key k"
    using Cons.prems by (auto simp: e is_item_def)
  then show ?case using fs e is_key_item [of a] by (intro exI [of _ "Entry a b # fs"]) auto
qed

lemma map_finish_item: "map_state_ok st \<Longrightarrow> map_finish st = Inr out \<Longrightarrow> is_item out"
proof -
  assume ok: "map_state_ok st" and out: "map_finish st = Inr out"
  let ?es = "sort_key fst (fst st)"
  have len: "length ?es < 2 ^ 64" and out: "out = TAG_MAP # be_bytes 8 (length ?es) @ concat (map (\<lambda>(k, v). k @ v) ?es)"
    and "\<not> adjacent_equal (map fst ?es)"
    using out by (auto simp: map_finish_def Let_def and_then_Inr_iff byte_count_Inr)
  then have "sorted_wrt (<) (map fst ?es)" using not_adjacent_equal_sorted [of "map fst ?es"] by simp
  moreover have "\<forall>(k, v) \<in> set ?es. is_item k \<and> is_key k \<and> is_item v" using ok by (simp add: map_state_ok_def)
  then obtain fs where "entries_ok fs" "length fs = length ?es" "entries_bytes fs = concat (map (\<lambda>(k, v). k @ v) ?es)"
    "map (\<lambda>e. item_bytes (entry_key e)) fs = map fst ?es"
    using entries_of_list by blast
  ultimately show ?thesis using len out by (intro is_itemI [of "IMap fs"]) simp_all
qed

lemma str_item: "length_prefixed TAG_STR (str_bytes s) = Inr b \<Longrightarrow> is_item b"
  by (rule is_itemI [of "IStr (str_bytes s)"]) (auto simp: length_prefixed_Inr)

lemma variant_is_item:
  assumes "is_item rest" "length name < 2 ^ 64"
  shows "is_item (TAG_VARIANT # TAG_STR # prefixed (str_bytes name) @ rest)"
proof -
  obtain a where "item_ok a" "item_bytes a = rest" using assms(1) by (auto simp: is_item_def)
  then show ?thesis using assms(2) by (intro is_itemI [of "IVariant (str_bytes name) a"]) (auto simp: str_bytes_def)
qed

lemma number_item: "serde_json_number_item text = Inr b \<Longrightarrow> is_item b"
  by (auto simp: serde_json_number_item_def tag_defs int_width.simps split: if_splits intro!: word_int_item)

lemma number_finish_item: "number_finish text = Inr b \<Longrightarrow> is_item b"
  by (auto simp: number_finish_def number_item split: option.splits)

lemma map_new_ok: "map_state_ok map_new"
  by (simp add: map_state_ok_def map_new_def)

lemma encode_items:
  "encode v = Inr b \<Longrightarrow> is_item b"
  "encode_all vs = Inr bs \<Longrightarrow> \<forall>b \<in> set bs. is_item b"
  "encode_calls calls st = Inr st' \<Longrightarrow> map_state_ok st \<Longrightarrow> map_state_ok st'"
  "encode_fields fs st = Inr st' \<Longrightarrow> map_state_ok st \<Longrightarrow> map_state_ok st'"
  "encode_number nfs t = Inr t' \<Longrightarrow> True"
proof (induction v and vs and calls st and fs st and nfs t arbitrary: b and bs and st' and st' and t'
    rule: encode_encode_all_encode_calls_encode_fields_encode_number.induct)
  case (1 c)
  then show ?case by (intro is_itemI [of "IBool c"]) auto
next
  case (14 s)
  then show ?case by (auto intro: str_item)
next
  case (15 s)
  then show ?case by (auto intro: str_item)
next
  case (16 s)
  then show ?case by (intro is_itemI [of "IBytes s"]) (auto simp: length_prefixed_Inr)
next
  case 17
  then show ?case by (intro is_itemI [of INone]) auto
next
  case (18 v)
  then obtain a c where "item_ok a" "item_bytes a = c" "b = TAG_SOME # c" by (auto simp: and_then_Inr_iff is_item_def)
  then show ?case by (intro is_itemI [of "ISome a"]) auto
next
  case 19
  then show ?case by (intro is_itemI [of IUnit]) auto
next
  case 20
  then show ?case by (intro is_itemI [of IUnit]) auto
next
  case (21 name)
  then show ?case by (auto intro: str_item)
next
  case (23 name v)
  then show ?case by (auto simp: variant_item_Inr intro: variant_is_item)
next
  case (24 vs)
  then show ?case by (auto simp: and_then_Inr_iff intro: seq_finish_item [rotated])
next
  case (25 vs)
  then show ?case by (auto simp: and_then_Inr_iff intro: seq_finish_item [rotated])
next
  case (26 name vs)
  then show ?case by (auto simp: and_then_Inr_iff intro: seq_finish_item [rotated])
next
  case (27 name vs)
  then show ?case by (auto simp: variant_item_Inr and_then_Inr_iff intro!: variant_is_item intro: seq_finish_item [rotated])
next
  case (28 calls)
  then show ?case by (auto simp: and_then_Inr_iff map_new_ok intro: map_finish_item)
next
  case (29 name fs)
  then show ?case
    by (auto simp: and_then_Inr_iff map_new_ok intro: map_finish_item number_finish_item split: if_splits)
next
  case (30 name fs)
  then show ?case by (auto simp: variant_item_Inr and_then_Inr_iff map_new_ok intro!: variant_is_item intro: map_finish_item)
next
  case (33 v vs)
  then show ?case by (auto simp: and_then_Inr_iff)
next
  case (35 k calls st)
  obtain st1 where st1: "map_key (encode k) st = Inr st1" "encode_calls calls st1 = Inr st'"
    using "35.prems"(1) unfolding encode_calls.simps and_then_Inr_iff by blast
  show ?case by (rule "35.IH"(2) [OF st1(2) map_key_ok [OF "35.prems"(2) "35.IH"(1) st1(1)]])
next
  case (36 v calls st)
  obtain st1 where st1: "map_value (encode v) st = Inr st1" "encode_calls calls st1 = Inr st'"
    using "36.prems"(1) unfolding encode_calls.simps and_then_Inr_iff by blast
  show ?case by (rule "36.IH"(2) [OF st1(2) map_value_ok [OF "36.prems"(2) "36.IH"(1) st1(1)]])
next
  case (38 name v fs st)
  obtain st1 st2 where st1: "map_key (length_prefixed TAG_STR (str_bytes name)) st = Inr st1"
    and st2: "map_value (encode v) st1 = Inr st2" "encode_fields fs st2 = Inr st'"
    using "38.prems"(1) unfolding encode_fields.simps and_then_Inr_iff by blast
  have "map_state_ok st1" by (rule map_key_ok [OF "38.prems"(2) str_item st1])
  then have "map_state_ok st2" by (rule map_value_ok [OF _ "38.IH"(1) st2(1)])
  then show ?case by (rule "38.IH"(2) [OF st2(2)])
qed (auto simp: int_width.simps tag_defs intro!: word_int_item)

end
