(* ===== verification/Digest.thy ===== *)
theory Digest
  imports Items "HOL-Library.Multiset"
begin

text \<open>
  The canonical encoding of a lifecycle operation and its digest
  (\<open>crates/heurema/src/lifecycle/digest.rs\<close>). SHA-256 and the \<open>Serialize\<close> implementations of
  the consumer's member identity, provenance and retention types are parameters. The encoding
  distinguishes exactly the operations that differ in their index, their change, or what they
  name, and ignores only the order of a batch.
\<close>

section \<open>The encoded shape of an operation\<close>

text \<open>The consumer's \<open>Serialize\<close> implementations, and the hash.\<close>

record ('m, 'p, 'r) op_codec =
  ser_member :: "'m \<Rightarrow> serde"
  ser_provenance :: "'p \<Rightarrow> serde"
  ser_retention :: "'r \<Rightarrow> serde"
  sha256 :: "bytes \<Rightarrow> operation_digest"

definition DOMAIN :: bytes where
  "DOMAIN = str_bytes ''heurema.lifecycle.operation.v1'' @ [10]"

definition ser_usize :: "nat \<Rightarrow> serde" where
  "ser_usize n = SU64 (word_of_nat n)"

definition ser_index :: "index_identity \<Rightarrow> serde" where
  "ser_index i = SStruct ''IndexIdentity''
     [Field ''namespace'' (SStr (ns_str (namespace i))), Field ''name'' (SStr (name_str (iname i)))]"

fun transition_name :: "lifecycle_transition \<Rightarrow> string" where
  "transition_name TrCreate = ''Create''"
| "transition_name TrInsert = ''Insert''"
| "transition_name TrRemove = ''Remove''"
| "transition_name TrRebuild = ''Rebuild''"
| "transition_name TrPublish = ''Publish''"
| "transition_name TrRecover = ''Recover''"
| "transition_name TrDestroy = ''Destroy''"

fun distance_name :: "vector_distance \<Rightarrow> string" where
  "distance_name L2 = ''L2''"
| "distance_name Cosine = ''Cosine''"
| "distance_name InnerProduct = ''InnerProduct''"

definition ser_hnsw_config :: "hnsw_config \<Rightarrow> serde" where
  "ser_hnsw_config c = SStruct ''HnswConfig''
     [Field ''dimensions'' (ser_usize (dimensions c)), Field ''distance'' (SUnitVariant (distance_name (distance_mode c))),
      Field ''ef_construction'' (ser_usize (ef_construction c)), Field ''m_neighbours'' (ser_usize (m_neighbours c))]"

definition ser_tokenizer :: "tokenizer_config \<Rightarrow> serde" where
  "ser_tokenizer t = SStruct ''TokenizerConfig''
     [Field ''name'' (SStr (tk_name t)), Field ''args'' (SSeq (map SStr (tk_args t)))]"

definition ser_fts_config :: "fts_config \<Rightarrow> serde" where
  "ser_fts_config c = SStruct ''FtsConfig''
     [Field ''tokenizer'' (ser_tokenizer (tokenizer c)), Field ''filters'' (SSeq (map ser_tokenizer (filters c)))]"

fun ser_config :: "index_config \<Rightarrow> serde" where
  "ser_config (CfgVector c) = SNewtypeVariant ''Vector'' (ser_hnsw_config c)"
| "ser_config (CfgFts c) = SNewtypeVariant ''Fts'' (ser_fts_config c)"

fun ser_content :: "member_content \<Rightarrow> serde" where
  "ser_content (CVector v) = SNewtypeVariant ''vector_bits'' (SSeq (map SU32 v))"
| "ser_content (CDocument d) = SNewtypeVariant ''document'' (SStr d)"

definition canonical_member :: "('m, 'p, 'r) op_codec \<Rightarrow> ('m, 'p) index_member \<Rightarrow> serde" where
  "canonical_member c m = SStruct ''CanonicalMember''
     [Field ''id'' (ser_member c (im_id m)), Field ''provenance'' (ser_provenance c (im_provenance m)),
      Field ''content'' (ser_content (im_content m))]"

definition sorted_members :: "('m::linorder, 'p) index_member list \<Rightarrow> ('m, 'p) index_member list" where
  "sorted_members ms = sort_key im_id ms"

fun canonical_change :: "('m::linorder, 'p, 'r) op_codec \<Rightarrow> ('m, 'p, 'r) index_change \<Rightarrow> field list" where
  "canonical_change c (Create config) = [Field ''config'' (ser_config config)]"
| "canonical_change c (Insert ms) = [Field ''members'' (SSeq (map (canonical_member c) (sorted_members ms)))]"
| "canonical_change c (Remove ids) = [Field ''members'' (SSeq (map (ser_member c) (sort ids)))]"
| "canonical_change c (Rebuild config ms) =
     [Field ''config'' (ser_config config), Field ''members'' (SSeq (map (canonical_member c) (sorted_members ms)))]"
| "canonical_change c (Destroy r) = [Field ''retention'' (ser_retention c r)]"

definition canonical_operation :: "('m::linorder, 'p, 'r) op_codec \<Rightarrow> ('m, 'p, 'r) lifecycle_operation \<Rightarrow> serde" where
  "canonical_operation c op = SStruct ''CanonicalOperation''
     [Field ''index'' (ser_index (lo_index op)), Field ''transition'' (SUnitVariant (transition_name (transition (lo_change op)))),
      Field ''change'' (SStruct ''CanonicalChange'' (canonical_change c (lo_change op)))]"

definition canonical_bytes :: "('m::linorder, 'p, 'r) op_codec \<Rightarrow> ('m, 'p, 'r) lifecycle_operation \<Rightarrow> string + bytes" where
  "canonical_bytes c op = encode (canonical_operation c op)"

definition compute_digest ::
    "('m::linorder, 'p, 'r) op_codec \<Rightarrow> ('m, 'p, 'r) lifecycle_operation \<Rightarrow> heurema_error + operation_digest" where
  "compute_digest c op =
     and_then (map_err UnencodableOperation (canonical_bytes c op)) (\<lambda>item. Inr (sha256 c (DOMAIN @ item)))"

section \<open>Values that encode alike\<close>

definition same :: "serde \<Rightarrow> serde \<Rightarrow> bool" where
  "same v w \<longleftrightarrow> (\<exists>b. encode v = Inr b \<and> encode w = Inr b)"

lemma item_split:
  assumes "is_item a" "is_item b" "a @ x = b @ y"
  shows "a = b \<and> x = y"
  using assms item_prefix_free(1) unfolding is_item_def by blast

lemma items_split:
  assumes "length as = length bs" "\<forall>a \<in> set as. is_item a" "\<forall>b \<in> set bs. is_item b" "concat as @ x = concat bs @ y"
  shows "as = bs \<and> x = y"
  using assms
proof (induction as bs rule: list_induct2)
  case (Cons a as b bs)
  then have "a = b \<and> concat as @ x = concat bs @ y" by (intro item_split) simp_all
  then show ?case using Cons by simp
qed simp

lemma seq_finish_same:
  assumes "\<forall>a \<in> set as. is_item a" "\<forall>b \<in> set bs. is_item b" "seq_finish as = Inr out" "seq_finish bs = Inr out"
  shows "as = bs"
proof -
  have "be_bytes 8 (length as) @ concat as = be_bytes 8 (length bs) @ concat bs" "length as < 2 ^ 64" "length bs < 2 ^ 64"
    using assms(3,4) by (auto simp: seq_finish_def and_then_Inr_iff byte_count_Inr)
  then have "length as = length bs \<and> concat as = concat bs" by (intro counted_split)
  then show ?thesis using items_split [OF _ assms(1,2), of "[]" "[]"] by simp
qed

lemma encode_all_Inr: "encode_all vs = Inr bs \<Longrightarrow> list_all2 (\<lambda>v b. encode v = Inr b) vs bs"
  by (induction vs arbitrary: bs) (auto simp: and_then_Inr_iff)

lemma list_all2_same:
  "list_all2 (\<lambda>v b. encode v = Inr b) vs bs \<Longrightarrow> list_all2 (\<lambda>v b. encode v = Inr b) ws bs \<Longrightarrow> list_all2 same vs ws"
  by (auto simp: list_all2_conv_all_nth same_def)

lemma same_seq:
  assumes "same (SSeq vs) (SSeq ws)"
  shows "list_all2 same vs ws"
proof -
  obtain as bs out where enc: "encode_all vs = Inr as" "encode_all ws = Inr bs" "seq_finish as = Inr out" "seq_finish bs = Inr out"
    using assms by (auto simp: same_def and_then_Inr_iff)
  then have "as = bs" using encode_items(2) by (intro seq_finish_same)
  then show ?thesis using enc encode_all_Inr list_all2_same by blast
qed

lemma of_char_byte: "(of_char c :: 8 word) = of_char d \<longleftrightarrow> c = d"
proof
  assume "(of_char c :: 8 word) = of_char d"
  then have "(word_of_nat (of_char c) :: 8 word) = word_of_nat (of_char d)" by (simp only: of_nat_of_char)
  then have "(of_char c :: nat) mod 256 = of_char d mod 256" by (simp only: word_byte_eq)
  then show "c = d" by simp
qed simp

lemma str_bytes_inject: "str_bytes s = str_bytes t \<longleftrightarrow> s = t"
  using inj_map_eq_map [of "of_char :: char \<Rightarrow> 8 word" s t] by (simp add: str_bytes_def inj_def of_char_byte)

lemma prefixed_inject: "length s < 2 ^ 64 \<Longrightarrow> length t < 2 ^ 64 \<Longrightarrow> prefixed s = prefixed t \<longleftrightarrow> s = t"
  using prefixed_split [of s "[]" t "[]"] by auto

lemma same_str: "same (SStr s) (SStr t) \<Longrightarrow> s = t"
  by (auto simp: same_def length_prefixed_Inr prefixed_inject str_bytes_inject)

lemma same_unit_variant: "same (SUnitVariant s) (SUnitVariant t) \<Longrightarrow> s = t"
  by (auto simp: same_def length_prefixed_Inr prefixed_inject str_bytes_inject)

lemma word_bytes_inject:
  assumes "256 ^ (LENGTH('a) div 8) = (2 :: nat) ^ LENGTH('a)"
  shows "word_bytes (v :: 'a::len word) = word_bytes w \<longleftrightarrow> v = w"
proof -
  have "unat x < 256 ^ (LENGTH('a) div 8)" for x :: "'a word" using unsigned_less [of x] by (simp add: assms)
  then show ?thesis using be_bytes_inject [of "unat v" _ "unat w"] by (simp add: word_bytes_def word_unat_eq_iff)
qed

lemma same_u32: "same (SU32 v) (SU32 w) \<Longrightarrow> v = w"
  by (simp add: same_def word_bytes_inject)

lemma same_usize: "same (ser_usize m) (ser_usize n) \<Longrightarrow> m < 2 ^ 64 \<Longrightarrow> n < 2 ^ 64 \<Longrightarrow> m = n"
  by (simp add: same_def ser_usize_def word_bytes_inject word_of_nat_eq_iff take_bit_nat_eq_self)

lemma same_variant:
  assumes "same (SNewtypeVariant s v) (SNewtypeVariant t w)"
  shows "s = t \<and> same v w"
proof -
  obtain b a c where b: "encode v = Inr a" "encode w = Inr c" "length s < 2 ^ 64" "length t < 2 ^ 64"
    "prefixed (str_bytes s) @ a = prefixed (str_bytes t) @ c"
    using assms by (auto simp: same_def variant_item_Inr)
  then have "str_bytes s = str_bytes t \<and> a = c" by (intro prefixed_split) (simp_all add: str_bytes_def)
  then show ?thesis using b by (auto simp: same_def str_bytes_inject)
qed

section \<open>Structs that encode alike\<close>

fun field_name :: "field \<Rightarrow> string" where
  "field_name (Field n v) = n"

fun field_value :: "field \<Rightarrow> serde" where
  "field_value (Field n v) = v"

definition key_bytes :: "string \<Rightarrow> bytes" where
  "key_bytes n = TAG_STR # prefixed (str_bytes n)"

lemma encode_fields_Inr:
  assumes "encode_fields fs st = Inr st'" "snd st = None"
  shows "\<exists>items. list_all2 (\<lambda>f b. encode (field_value f) = Inr b) fs items \<and>
    st' = (fst st @ zip (map (\<lambda>f. key_bytes (field_name f)) fs) items, None) \<and> (\<forall>f \<in> set fs. length (field_name f) < 2 ^ 64)"
  using assms
proof (induction fs arbitrary: st)
  case Nil
  then show ?case by (cases st') auto
next
  case (Cons f fs)
  obtain n v where f: "f = Field n v" by (cases f)
  obtain st1 st2 where st1: "map_key (length_prefixed TAG_STR (str_bytes n)) st = Inr st1"
    and st2: "map_value (encode v) st1 = Inr st2" "encode_fields fs st2 = Inr st'"
    using Cons.prems(1) unfolding f encode_fields.simps and_then_Inr_iff by blast
  have key: "st1 = (fst st, Some (key_bytes n))" "length n < 2 ^ 64"
    using st1 by (auto simp: map_key_def and_then_Inr_iff length_prefixed_Inr key_bytes_def str_bytes_def split: if_splits)
  obtain b where b: "encode v = Inr b" "st2 = (fst st @ [(key_bytes n, b)], None)"
    using st2(1) by (auto simp: map_value_def key and_then_Inr_iff)
  obtain items where "list_all2 (\<lambda>f b. encode (field_value f) = Inr b) fs items"
    "st' = (fst st2 @ zip (map (\<lambda>f. key_bytes (field_name f)) fs) items, None)" "\<forall>f \<in> set fs. length (field_name f) < 2 ^ 64"
    using Cons.IH [OF st2(2)] b(2) by auto
  then show ?case using f b key(2) by (intro exI [of _ "b # items"]) auto
qed

lemma sorted_entries_split:
  assumes "map fst es = map fst fs" "\<forall>(k, v) \<in> set es. is_item k \<and> is_item v" "\<forall>(k, v) \<in> set fs. is_item k \<and> is_item v"
    and "concat (map (\<lambda>(k, v). k @ v) es) = concat (map (\<lambda>(k, v). k @ v) fs)"
  shows "es = fs"
proof -
  have len: "length es = length fs" using arg_cong [OF assms(1), of length] by simp
  from this assms show ?thesis
  proof (induction es fs rule: list_induct2)
    case (Cons e es f fs)
    obtain k v w where ef: "e = (k, v)" "f = (k, w)" using Cons.prems(1) by (cases e; cases f) auto
    have "v @ concat (map (\<lambda>(k, v). k @ v) es) = w @ concat (map (\<lambda>(k, v). k @ v) fs)"
      using Cons.prems(4) ef by simp
    then have "v = w \<and> concat (map (\<lambda>(k, v). k @ v) es) = concat (map (\<lambda>(k, v). k @ v) fs)"
      using Cons.prems(2,3) ef by (intro item_split) auto
    then show ?case using Cons.IH Cons.prems ef by simp
  qed simp
qed

lemma map_finish_same:
  assumes "map_state_ok (es, None)" "map_state_ok (fs, None)" "map fst es = map fst fs"
    and "map_finish (es, None) = Inr out" "map_finish (fs, None) = Inr out"
  shows "es = fs"
proof -
  let ?s = "sort_key fst"
  have distinct: "distinct (map fst es)"
  proof -
    have "\<not> adjacent_equal (map fst (?s es))" using assms(4) by (simp add: map_finish_def Let_def and_then_Inr_iff)
    then have "distinct (map fst (?s es))"
      using not_adjacent_equal_sorted [of "map fst (?s es)"] strict_sorted_iff by auto
    then show ?thesis by (simp add: distinct_map)
  qed
  have len: "length es = length fs" using arg_cong [OF assms(3), of length] by simp
  have concat: "concat (map (\<lambda>(k, v). k @ v) (?s es)) = concat (map (\<lambda>(k, v). k @ v) (?s fs))"
    using assms(4,5) len by (auto simp: map_finish_def Let_def and_then_Inr_iff byte_count_Inr)
  have "map fst (?s xs) = sort (map fst xs)" for xs :: "(bytes \<times> bytes) list"
    by (rule properties_for_sort [symmetric]) simp_all
  then have "?s es = ?s fs"
    using assms(1,2,3) concat by (intro sorted_entries_split) (auto simp: map_state_ok_def)
  then have same_set: "set es = set fs" by (metis set_sort)
  have "distinct (map fst fs)" using distinct assms(3) by simp
  show "es = fs"
  proof (rule nth_equalityI [OF len])
    fix i
    assume i: "i < length es"
    then have "es ! i \<in> set fs" unfolding same_set [symmetric] by (rule nth_mem)
    then obtain j where j: "j < length fs" "fs ! j = es ! i" unfolding in_set_conv_nth by blast
    have "map fst fs ! j = map fst fs ! i" using i j len assms(3) by (metis nth_map)
    then have "j = i" using nth_eq_iff_index_eq [OF \<open>distinct (map fst fs)\<close>, of j i] i j(1) len by simp
    then show "es ! i = fs ! i" using j(2) by simp
  qed
qed

lemma same_struct:
  assumes "same (SStruct n fs) (SStruct n gs)" "map field_name fs = map field_name gs"
    and "n \<noteq> SERDE_JSON_NUMBER" "n \<noteq> SERDE_JSON_RAW_VALUE"
  shows "list_all2 same (map field_value fs) (map field_value gs)"
proof -
  obtain out st st' where st: "encode_fields fs map_new = Inr st" "encode_fields gs map_new = Inr st'"
    "map_finish st = Inr out" "map_finish st' = Inr out"
    using assms(1,3,4) by (auto simp: same_def and_then_Inr_iff)
  obtain as where as: "list_all2 (\<lambda>f b. encode (field_value f) = Inr b) fs as"
    "st = (zip (map (\<lambda>f. key_bytes (field_name f)) fs) as, None)"
    using encode_fields_Inr [OF st(1)] by (auto simp: map_new_def)
  obtain bs where bs: "list_all2 (\<lambda>f b. encode (field_value f) = Inr b) gs bs"
    "st' = (zip (map (\<lambda>f. key_bytes (field_name f)) gs) bs, None)"
    using encode_fields_Inr [OF st(2)] by (auto simp: map_new_def)
  have names: "map (\<lambda>f. key_bytes (field_name f)) fs = map (\<lambda>f. key_bytes (field_name f)) gs"
    using arg_cong [OF assms(2), of "map key_bytes"] by (simp add: comp_def)
  have len: "length as = length fs" "length bs = length gs" "length fs = length gs"
    using as(1) bs(1) arg_cong [OF assms(2), of length] by (simp_all add: list_all2_lengthD)
  have "zip (map (\<lambda>f. key_bytes (field_name f)) fs) as = zip (map (\<lambda>f. key_bytes (field_name f)) gs) bs"
    using encode_items(4) [OF st(1) map_new_ok] encode_items(4) [OF st(2) map_new_ok] st(3,4) len
    unfolding as(2) bs(2) by (intro map_finish_same) (simp_all add: names)
  then have "as = bs" using len by (metis length_map map_snd_zip)
  then show ?thesis using as(1) bs(1)
    by (auto simp: list_all2_conv_all_nth same_def)
qed

section \<open>Operations that encode alike\<close>

lemma list_all2_eqI: "list_all2 P xs ys \<Longrightarrow> (\<And>x y. x \<in> set xs \<Longrightarrow> y \<in> set ys \<Longrightarrow> P x y \<Longrightarrow> x = y) \<Longrightarrow> xs = ys"
  by (induction rule: list_all2_induct) auto

lemma list_all2_mapD: "list_all2 P (map f xs) (map g ys) \<Longrightarrow> list_all2 (\<lambda>x y. P (f x) (g y)) xs ys"
  by (simp add: list_all2_map1 list_all2_map2)

text \<open>A type whose values differ where their encodings do.\<close>

definition faithful :: "('a \<Rightarrow> serde) \<Rightarrow> bool" where
  "faithful ser \<longleftrightarrow> (\<forall>x y. same (ser x) (ser y) \<longrightarrow> x = y)"

lemma faithful_list: "faithful ser \<Longrightarrow> same (SSeq (map ser xs)) (SSeq (map ser ys)) \<Longrightarrow> xs = ys"
  by (rule list_all2_eqI [OF list_all2_mapD [OF same_seq]]) (auto simp: faithful_def)

lemma not_special [simp]:
  "''IndexIdentity'' \<noteq> SERDE_JSON_NUMBER" "''IndexIdentity'' \<noteq> SERDE_JSON_RAW_VALUE"
  "''HnswConfig'' \<noteq> SERDE_JSON_NUMBER" "''HnswConfig'' \<noteq> SERDE_JSON_RAW_VALUE"
  "''TokenizerConfig'' \<noteq> SERDE_JSON_NUMBER" "''TokenizerConfig'' \<noteq> SERDE_JSON_RAW_VALUE"
  "''FtsConfig'' \<noteq> SERDE_JSON_NUMBER" "''FtsConfig'' \<noteq> SERDE_JSON_RAW_VALUE"
  "''CanonicalMember'' \<noteq> SERDE_JSON_NUMBER" "''CanonicalMember'' \<noteq> SERDE_JSON_RAW_VALUE"
  "''CanonicalChange'' \<noteq> SERDE_JSON_NUMBER" "''CanonicalChange'' \<noteq> SERDE_JSON_RAW_VALUE"
  "''CanonicalOperation'' \<noteq> SERDE_JSON_NUMBER" "''CanonicalOperation'' \<noteq> SERDE_JSON_RAW_VALUE"
  by (simp_all add: SERDE_JSON_NUMBER_def SERDE_JSON_RAW_VALUE_def)

lemma same_index: "same (ser_index i) (ser_index j) \<Longrightarrow> i = j"
  unfolding ser_index_def
  by (drule same_struct) (auto dest!: same_str simp: ns_str_inject name_str_inject intro: index_identity.expand)

text \<open>The configuration's \<open>usize\<close> fields, which the model takes as unbounded numbers, fit their type.\<close>

fun config_fits :: "index_config \<Rightarrow> bool" where
  "config_fits (CfgVector c) \<longleftrightarrow> dimensions c < 2 ^ 64 \<and> ef_construction c < 2 ^ 64 \<and> m_neighbours c < 2 ^ 64"
| "config_fits (CfgFts c) \<longleftrightarrow> True"

lemma distance_name_inject: "distance_name a = distance_name b \<Longrightarrow> a = b"
  by (cases a; cases b) auto

lemma same_hnsw_config:
  assumes "same (ser_hnsw_config a) (ser_hnsw_config b)" "config_fits (CfgVector a)" "config_fits (CfgVector b)"
  shows "a = b"
proof -
  have "list_all2 same [ser_usize (dimensions a), SUnitVariant (distance_name (distance_mode a)),
        ser_usize (ef_construction a), ser_usize (m_neighbours a)]
      [ser_usize (dimensions b), SUnitVariant (distance_name (distance_mode b)),
        ser_usize (ef_construction b), ser_usize (m_neighbours b)]"
    using same_struct [OF assms(1) [unfolded ser_hnsw_config_def]] by simp
  then show ?thesis
    using assms(2,3) by (auto dest!: same_unit_variant distance_name_inject same_usize intro: hnsw_config.equality)
qed

lemma same_tokenizer: "faithful ser_tokenizer"
  unfolding faithful_def
proof (intro allI impI)
  fix a b
  assume "same (ser_tokenizer a) (ser_tokenizer b)"
  then have "list_all2 same [SStr (tk_name a), SSeq (map SStr (tk_args a))] [SStr (tk_name b), SSeq (map SStr (tk_args b))]"
    unfolding ser_tokenizer_def by (drule_tac same_struct) simp_all
  moreover have "faithful SStr" by (auto simp: faithful_def dest: same_str)
  ultimately show "a = b" by (auto dest!: same_str faithful_list intro: tokenizer_config.equality)
qed

lemma same_fts_config:
  assumes "same (ser_fts_config a) (ser_fts_config b)"
  shows "a = b"
proof -
  have "list_all2 same [ser_tokenizer (tokenizer a), SSeq (map ser_tokenizer (filters a))]
      [ser_tokenizer (tokenizer b), SSeq (map ser_tokenizer (filters b))]"
    using same_struct [OF assms [unfolded ser_fts_config_def]] by simp
  then show ?thesis
    using same_tokenizer faithful_list [OF same_tokenizer] by (auto simp: faithful_def intro: fts_config.equality)
qed

lemma same_config: "same (ser_config a) (ser_config b) \<Longrightarrow> config_fits a \<Longrightarrow> config_fits b \<Longrightarrow> a = b"
  by (cases a; cases b) (auto dest!: same_variant same_hnsw_config same_fts_config)

lemma faithful_content: "faithful ser_content"
  unfolding faithful_def
proof (intro allI impI)
  fix a b
  assume alike: "same (ser_content a) (ser_content b)"
  have "faithful SU32" by (auto simp: faithful_def dest: same_u32)
  then show "a = b"
    using alike by (cases a; cases b) (auto dest!: same_variant same_str faithful_list)
qed

definition faithful_codec :: "('m, 'p, 'r) op_codec \<Rightarrow> bool" where
  "faithful_codec c \<longleftrightarrow> faithful (ser_member c) \<and> faithful (ser_provenance c) \<and> faithful (ser_retention c)"

lemma faithful_member: "faithful_codec c \<Longrightarrow> faithful (canonical_member c)"
  unfolding faithful_def
proof (intro allI impI)
  fix a b
  assume c: "faithful_codec c" and "same (canonical_member c a) (canonical_member c b)"
  then have "list_all2 same [ser_member c (im_id a), ser_provenance c (im_provenance a), ser_content (im_content a)]
      [ser_member c (im_id b), ser_provenance c (im_provenance b), ser_content (im_content b)]"
    unfolding canonical_member_def by (drule_tac same_struct) simp_all
  then show "a = b"
    using c faithful_content by (auto simp: faithful_codec_def faithful_def intro: index_member.equality)
qed

text \<open>What a change asks for: its batch in the order of the identities.\<close>

fun batch_sorted :: "('m::linorder, 'p, 'r) index_change \<Rightarrow> ('m, 'p, 'r) index_change" where
  "batch_sorted (Insert ms) = Insert (sorted_members ms)"
| "batch_sorted (Remove ids) = Remove (sort ids)"
| "batch_sorted (Rebuild config ms) = Rebuild config (sorted_members ms)"
| "batch_sorted change = change"

fun change_fits :: "('m, 'p, 'r) index_change \<Rightarrow> bool" where
  "change_fits (Create config) \<longleftrightarrow> config_fits config"
| "change_fits (Rebuild config _) \<longleftrightarrow> config_fits config"
| "change_fits _ \<longleftrightarrow> True"

lemma canonical_change_sorted: "canonical_change c (batch_sorted change) = canonical_change c change"
  by (cases change) (simp_all add: sorted_members_def sort_key_id_if_sorted)

lemma transition_batch_sorted: "transition (batch_sorted change) = transition change"
  by (cases change) simp_all

lemma transition_name_inject: "transition_name a = transition_name b \<Longrightarrow> a = b"
  by (cases a; cases b) auto

lemma same_change:
  assumes c: "faithful_codec c" and fits: "change_fits a" "change_fits b"
    and tr: "transition a = transition b"
    and alike: "same (SStruct ''CanonicalChange'' (canonical_change c a)) (SStruct ''CanonicalChange'' (canonical_change c b))"
  shows "batch_sorted a = batch_sorted b"
proof -
  have "map field_name (canonical_change c a) = map field_name (canonical_change c b)"
    using tr by (cases a; cases b) simp_all
  from same_struct [OF alike this]
  have vals: "list_all2 same (map field_value (canonical_change c a)) (map field_value (canonical_change c b))" by simp
  have members: "xs = ys" if "same (SSeq (map (canonical_member c) xs)) (SSeq (map (canonical_member c) ys))" for xs ys
    using faithful_list [OF faithful_member [OF c] that] .
  have ids: "xs = ys" if "same (SSeq (map (ser_member c) xs)) (SSeq (map (ser_member c) ys))" for xs ys
    using faithful_list that c by (auto simp: faithful_codec_def)
  have retention: "x = y" if "same (ser_retention c x) (ser_retention c y)" for x y
    using that c by (auto simp: faithful_codec_def faithful_def)
  show ?thesis
    using vals tr fits by (cases a; cases b) (auto dest!: members ids retention same_config)
qed

section \<open>A sample consumer\<close>

definition word_codec :: "(64 word, 64 word, 64 word) op_codec" where
  "word_codec = \<lparr>ser_member = SU64, ser_provenance = SU64, ser_retention = SU64,
     sha256 = (\<lambda>_. projr (digest_parse (replicate 64 (CHR ''0''))))\<rparr>"

lemma faithful_u64: "faithful (SU64 :: 64 word \<Rightarrow> serde)"
  by (auto simp: faithful_def same_def word_bytes_inject)

lemma word_codec_faithful: "faithful_codec word_codec"
  by (simp add: faithful_codec_def word_codec_def faithful_u64)

definition sample_index :: index_identity where
  "sample_index = Index_identity (projr (owner_namespace_parse ''owner'')) (projr (index_name_parse ''notes''))"

definition sample_key :: operation_key where
  "sample_key = projr (operation_key_parse ''k-1'')"

definition removal :: "64 word list \<Rightarrow> (64 word, 64 word, 64 word) lifecycle_operation" where
  "removal ids = \<lparr>lo_index = sample_index, lo_key = sample_key, lo_change = Remove ids\<rparr>"

section \<open>Properties\<close>

text \<open>
  C22: The canonical bytes tell operations apart. Where the consumer's types encode distinct
  values differently, two operations that encode have the same bytes exactly when they name the
  same index and ask for the same change, up to the order in which a batch lists its members.
\<close>
theorem canonical_bytes_exact:
  assumes "faithful_codec c" "change_fits (lo_change a)" "change_fits (lo_change b)" "canonical_bytes c a = Inr item"
  shows "canonical_bytes c b = Inr item \<longleftrightarrow>
    lo_index a = lo_index b \<and> batch_sorted (lo_change a) = batch_sorted (lo_change b)"
proof
  assume "canonical_bytes c b = Inr item"
  then have "same (canonical_operation c a) (canonical_operation c b)"
    using assms(4) by (simp add: same_def canonical_bytes_def)
  then have "list_all2 same
      [ser_index (lo_index a), SUnitVariant (transition_name (transition (lo_change a))),
        SStruct ''CanonicalChange'' (canonical_change c (lo_change a))]
      [ser_index (lo_index b), SUnitVariant (transition_name (transition (lo_change b))),
        SStruct ''CanonicalChange'' (canonical_change c (lo_change b))]"
    unfolding canonical_operation_def by (drule_tac same_struct) simp_all
  then show "lo_index a = lo_index b \<and> batch_sorted (lo_change a) = batch_sorted (lo_change b)"
    using same_change [OF assms(1-3)] by (auto dest!: same_index same_unit_variant transition_name_inject)
next
  assume "lo_index a = lo_index b \<and> batch_sorted (lo_change a) = batch_sorted (lo_change b)"
  then have "canonical_operation c a = canonical_operation c b"
    unfolding canonical_operation_def by (metis canonical_change_sorted transition_batch_sorted)
  then show "canonical_bytes c b = Inr item" using assms(4) by (simp add: canonical_bytes_def)
qed

lemma canonical_bytes_exact_witness:
  "\<exists>item. canonical_bytes word_codec (removal [1, 2]) = Inr item \<and>
     canonical_bytes word_codec (removal [2, 1]) = Inr item \<and>
     canonical_bytes word_codec (removal [3]) \<noteq> Inr item"
proof -
  have "\<not> isl (canonical_bytes word_codec (removal [1, 2]))" by code_simp
  then obtain item where item: "canonical_bytes word_codec (removal [1, 2]) = Inr item"
    by (cases "canonical_bytes word_codec (removal [1, 2])") auto
  have "canonical_bytes word_codec (removal ids) = Inr item \<longleftrightarrow> sort ids = [1, 2]" for ids
    using canonical_bytes_exact [OF word_codec_faithful _ _ item, of "removal ids"] by (auto simp: removal_def)
  moreover have "sort [1, 2] = [1, 2 :: 64 word]" "sort [2, 1] = [1, 2 :: 64 word]" by code_simp+
  moreover have "sort [3] \<noteq> [1, 2 :: 64 word]" by simp
  ultimately show ?thesis by blast
qed

text \<open>
  The order in which a batch lists distinct members never changes an operation's digest.
\<close>
theorem digest_ignores_batch_order:
  assumes "mset ms = mset ms'" "distinct (map im_id ms)"
  shows "compute_digest c \<lparr>lo_index = i, lo_key = k, lo_change = Insert ms\<rparr> =
    compute_digest c \<lparr>lo_index = i, lo_key = k', lo_change = Insert ms'\<rparr>"
proof -
  have "inj_on im_id (set ms)" using assms(2) by (simp add: distinct_map)
  then have "sorted_members ms = sorted_members ms'"
    unfolding sorted_members_def using assms(1) by (intro sort_key_inj_key_eq) simp_all
  then show ?thesis by (simp add: compute_digest_def canonical_bytes_def canonical_operation_def)
qed

lemma digest_ignores_batch_order_witness:
  "compute_digest word_codec \<lparr>lo_index = sample_index, lo_key = sample_key,
       lo_change = Insert [\<lparr>im_id = 2, im_provenance = 0, im_content = CDocument ''b''\<rparr>, \<lparr>im_id = 1, im_provenance = 0, im_content = CDocument ''a''\<rparr>]\<rparr> =
   compute_digest word_codec \<lparr>lo_index = sample_index, lo_key = sample_key,
       lo_change = Insert [\<lparr>im_id = 1, im_provenance = 0, im_content = CDocument ''a''\<rparr>, \<lparr>im_id = 2, im_provenance = 0, im_content = CDocument ''b''\<rparr>]\<rparr>"
  by (rule digest_ignores_batch_order) simp_all

text \<open>
  C23: Whatever the encoder accepts is written as one item of the documented grammar, and no
  other item has those bytes: lengths and counts are exact, map keys are strings or integers in
  strictly ascending order of their bytes. No encoding is a prefix of another.
\<close>
theorem encoder_writes_one_item:
  assumes "encode v = Inr bs"
  shows "(\<exists>!a. item_ok a \<and> item_bytes a = bs) \<and> (\<forall>w rest. rest \<noteq> [] \<longrightarrow> encode w \<noteq> Inr (bs @ rest))"
proof -
  obtain a where "item_ok a" "item_bytes a = bs" using encode_items(1) assms by (auto simp: is_item_def)
  then have "\<exists>!a. item_ok a \<and> item_bytes a = bs" using item_bytes_inject by blast
  moreover have "encode w \<noteq> Inr (bs @ rest)" if "rest \<noteq> []" for w rest
    using item_split [of bs "bs @ rest" rest "[]"] encode_items(1) assms that by auto
  ultimately show ?thesis by blast
qed

lemma encoder_writes_one_item_witness:
  "\<forall>w x. encode w \<noteq> Inr ([0x02, 0x10, 0x07] @ [x])"
proof -
  have "encode (SSome (SU8 7)) = Inr [0x02, 0x10, 0x07]" by code_simp
  from encoder_writes_one_item [OF this] show ?thesis by blast
qed

end
