(* ===== verification/Validate.thy ===== *)
theory Validate
  imports Digest Hnsw Bm25
begin

text \<open>
  Validation before publication (\<open>crates/heurema/src/lifecycle/validate.rs\<close>): an operation
  becomes a checked operation by the checks that need no index state, and a validated one by
  the permission table and the checks against the index's current record. What \<open>serde_json\<close>
  writes and reads for the consumer's types, and their \<open>Debug\<close> text, are parameters; the
  text it writes is valid UTF-8, which \<open>from_utf8_lossy\<close> leaves as it is.
\<close>

section \<open>The consumer's types\<close>

text \<open>\<open>serde_json\<close> on one type: the text it writes or its error, the value it reads or its error.\<close>

record 'a json_io =
  js_write :: "'a \<Rightarrow> string + string"
  js_read :: "string \<Rightarrow> string + 'a"

text \<open>
  A member identity is also written and read as the key of a JSON object:
  \<open>to_string(&BTreeMap::from([(id, 0)]))\<close> and \<open>from_str::<BTreeMap<M, u8>>\<close>.
\<close>

record ('m, 'p, 'r) consumer = "('m, 'p, 'r) op_codec" +
  json_member :: "'m json_io"
  json_provenance :: "'p json_io"
  json_retention :: "'r json_io"
  write_key :: "'m \<Rightarrow> string + string"
  read_keys :: "string \<Rightarrow> string + 'm list"
  debug :: "'m \<Rightarrow> string"

section \<open>JSON nesting\<close>

definition MAX_CONSUMER_JSON_DEPTH :: nat where
  "MAX_CONSUMER_JSON_DEPTH = 64"

definition usize_saturating_inc :: "nat \<Rightarrow> nat" where
  "usize_saturating_inc n = min usize_max (n + 1)"

lemma usize_saturating_inc_code [code]:
  "usize_saturating_inc n = (if int n < 18446744073709551615 then n + 1 else usize_max)"
  by (simp add: usize_saturating_inc_def usize_max_def)

record json_scan =
  depth :: nat
  deepest :: nat
  in_string :: bool
  escaped :: bool

definition scan_byte :: "char \<Rightarrow> json_scan \<Rightarrow> json_scan" where
  "scan_byte c s =
     (if in_string s then
        (if escaped s then s\<lparr>escaped := False\<rparr>
         else if c = CHR 0x5C then s\<lparr>escaped := True\<rparr>
         else if c = CHR 0x22 then s\<lparr>in_string := False\<rparr>
         else s)
      else if c = CHR 0x22 then s\<lparr>in_string := True\<rparr>
      else if c = CHR ''['' \<or> c = CHR ''{'' then
        (let d = usize_saturating_inc (depth s) in s\<lparr>depth := d, deepest := max (deepest s) d\<rparr>)
      else if c = CHR '']'' \<or> c = CHR ''}'' then s\<lparr>depth := depth s - 1\<rparr>
      else s)"

definition json_depth :: "string \<Rightarrow> nat" where
  "json_depth text =
     deepest (fold scan_byte text \<lparr>depth = 0, deepest = 0, in_string = False, escaped = False\<rparr>)"

section \<open>Values that read back as themselves\<close>

definition json_round_trip :: "'a json_io \<Rightarrow> 'a \<Rightarrow> string + unit" where
  "json_round_trip io v =
     and_then (map_err (\<lambda>e. ''cannot be written as a JSON value: '' @ e) (js_write io v)) (\<lambda>text.
     and_then (ensure (json_depth text \<le> MAX_CONSUMER_JSON_DEPTH)
       (''nests '' @ show_nat (json_depth text) @ '' levels deep in JSON; a consumer value may nest at most '' @
        show_nat MAX_CONSUMER_JSON_DEPTH @ '', because stored records wrap it further and serde_json '' @
        ''refuses to read past 128 levels'')) (\<lambda>_.
     (case js_read io text of
        Inr read \<Rightarrow>
          if read = v then Inr ()
          else Inl (''reads back from its JSON value '' @ reported text @ '' as a different value'')
      | Inl e \<Rightarrow> Inl (''cannot be read back from its JSON value '' @ reported text @ '': '' @ e))))"

definition json_key_refusal :: "('m, 'p, 'r, 'z) consumer_scheme \<Rightarrow> 'm \<Rightarrow> string option" where
  "json_key_refusal c i =
     (case write_key c i of
        Inl e \<Rightarrow> Some (''cannot be written as a JSON object key: '' @ e)
      | Inr stored \<Rightarrow>
          (case read_keys c stored of
             Inr read \<Rightarrow>
               if read = [i] then None
               else Some (''reads back from the JSON object '' @ reported stored @
                 '' as a different identity; adapters store members in JSON objects keyed by identity'')
           | Inl e \<Rightarrow> Some (''cannot be read back from the JSON object '' @ reported stored @ '': '' @ e)))"

definition json_value_refusal :: "('m, 'p, 'r, 'z) consumer_scheme \<Rightarrow> 'm \<Rightarrow> string option" where
  "json_value_refusal c i =
     (case json_round_trip (json_member c) i of
        Inl reason \<Rightarrow> Some (reason @ ''; heur'' @ [CHR 0xC4, CHR 0x93] @ ''ma also stores member identities as JSON values'')
      | Inr _ \<Rightarrow> None)"

section \<open>The checks of a change\<close>

text \<open>\<open>Option::or_else\<close>.\<close>

definition or_else :: "'a option \<Rightarrow> 'a option \<Rightarrow> 'a option" where
  "or_else x y = (case x of None \<Rightarrow> y | Some _ \<Rightarrow> x)"

definition member_refusal :: "('m, 'p, 'r, 'z) consumer_scheme \<Rightarrow> 'm \<Rightarrow> string option" where
  "member_refusal c i =
     or_else (member_identity_refusal (ser_member c i)) (or_else (json_key_refusal c i) (json_value_refusal c i))"

fun first_duplicate :: "'a list \<Rightarrow> 'a option" where
  "first_duplicate (x # y # zs) = (if x = y then Some x else first_duplicate (y # zs))"
| "first_duplicate _ = None"

definition check_member_identities :: "('m, 'p, 'r, 'z) consumer_scheme \<Rightarrow> 'm list \<Rightarrow> heurema_error + unit" where
  "check_member_identities c ids =
     (case first_duplicate ids of
        Some i \<Rightarrow> Inl (DuplicateMember (reported (debug c i)))
      | None \<Rightarrow>
          try_for_each (\<lambda>i. case member_refusal c i of
              Some reason \<Rightarrow> Inl (refusal IkMemberIdentity (debug c i) (MemberReason reason))
            | None \<Rightarrow> Inr ()) ids)"

definition check_finite_vectors :: "('m, 'p) index_member list \<Rightarrow> heurema_error + unit" where
  "check_finite_vectors =
     try_for_each (\<lambda>m. case im_content m of CVector v \<Rightarrow> check_finite v | CDocument _ \<Rightarrow> Inr ())"

fun check_index_config :: "index_config \<Rightarrow> heurema_error + unit" where
  "check_index_config (CfgVector config) = check_config config"
| "check_index_config (CfgFts config) = require_simple_pipeline config"

definition check_families :: "snapshot_family \<Rightarrow> ('m, 'p) index_member list \<Rightarrow> heurema_error + unit" where
  "check_families expected =
     try_for_each (\<lambda>m. ensure (content_family (im_content m) = expected)
       (FamilyMismatch expected (content_family (im_content m))))"

definition check_single_family :: "('m, 'p) index_member list \<Rightarrow> heurema_error + unit" where
  "check_single_family ms =
     (case ms of [] \<Rightarrow> Inr () | first # _ \<Rightarrow> check_families (content_family (im_content first)) ms)"

fun check_content :: "index_config \<Rightarrow> member_content \<Rightarrow> heurema_error + unit" where
  "check_content (CfgVector config) (CVector v) = check_vector config v"
| "check_content (CfgFts config) (CDocument _) = require_simple_pipeline config"
| "check_content config content = Inl (FamilyMismatch (config_family config) (content_family content))"

definition check_members_fit :: "index_config \<Rightarrow> ('m, 'p) index_member list \<Rightarrow> heurema_error + unit" where
  "check_members_fit config ms =
     and_then (check_families (config_family config) ms) (\<lambda>_.
     try_for_each (\<lambda>m. check_content config (im_content m)) ms)"

fun check_change :: "('m::linorder, 'p, 'r, 'z) consumer_scheme \<Rightarrow> ('m, 'p, 'r) index_change \<Rightarrow> heurema_error + unit" where
  "check_change c (Create config) = check_index_config config"
| "check_change c (Insert ms) =
     and_then (ensure (ms \<noteq> []) (EmptyBatch TrInsert)) (\<lambda>_.
     and_then (check_member_identities c (map im_id (sorted_members ms))) (\<lambda>_.
     and_then (check_finite_vectors (sorted_members ms)) (\<lambda>_.
     check_single_family (sorted_members ms))))"
| "check_change c (Remove ids) =
     and_then (ensure (ids \<noteq> []) (EmptyBatch TrRemove)) (\<lambda>_. check_member_identities c (sort ids))"
| "check_change c (Rebuild config ms) =
     and_then (check_member_identities c (map im_id (sorted_members ms))) (\<lambda>_.
     and_then (check_finite_vectors (sorted_members ms)) (\<lambda>_.
     and_then (check_index_config config) (\<lambda>_.
     check_members_fit config (sorted_members ms))))"
| "check_change c (Destroy _) = Inr ()"

text \<open>The first stored provenance, in identity order, or the retention, that does not read back.\<close>

definition check_provenances :: "('m, 'p, 'r, 'z) consumer_scheme \<Rightarrow> ('m, 'p) index_member list \<Rightarrow> heurema_error + unit" where
  "check_provenances c =
     try_for_each (\<lambda>m. map_err
       (\<lambda>reason. UnencodableOperation (''provenance of member '' @ reported (debug c (im_id m)) @ '' '' @ reason))
       (json_round_trip (json_provenance c) (im_provenance m)))"

fun check_stored_values ::
    "('m::linorder, 'p, 'r, 'z) consumer_scheme \<Rightarrow> ('m, 'p, 'r) index_change \<Rightarrow> heurema_error + unit" where
  "check_stored_values c (Insert ms) = check_provenances c (sorted_members ms)"
| "check_stored_values c (Rebuild _ ms) = check_provenances c (sorted_members ms)"
| "check_stored_values c (Destroy r) =
     map_err (\<lambda>reason. UnencodableOperation (''retention '' @ reason)) (json_round_trip (json_retention c) r)"
| "check_stored_values c _ = Inr ()"

section \<open>Checked and validated operations\<close>

record ('m, 'p, 'r) checked_operation =
  co_operation :: "('m, 'p, 'r) lifecycle_operation"
  co_identity :: operation_identity

record ('m, 'p, 'r) validated_operation =
  vo_checked :: "('m, 'p, 'r) checked_operation"
  vo_from :: index_state_kind

definition check ::
    "('m::linorder, 'p, 'r, 'z) consumer_scheme \<Rightarrow> ('m, 'p, 'r) lifecycle_operation \<Rightarrow>
       heurema_error + ('m, 'p, 'r) checked_operation" where
  "check c op =
     and_then (check_change c (lo_change op)) (\<lambda>_.
     and_then (compute_digest (op_codec.truncate c) op) (\<lambda>digest.
     and_then (check_stored_values c (lo_change op)) (\<lambda>_.
     Inr \<lparr>co_operation = op, co_identity = \<lparr>op_key = lo_key op, op_digest = digest\<rparr>\<rparr>)))"

fun check_against_record ::
    "('m::linorder, 'p, 'r) index_change \<Rightarrow> index_config \<Rightarrow> heurema_error + unit" where
  "check_against_record (Insert ms) current = check_members_fit current (sorted_members ms)"
| "check_against_record (Rebuild config _) current =
     ensure (config_family config = config_family current)
       (FamilyMismatch (config_family current) (config_family config))"
| "check_against_record _ _ = Inr ()"

definition from_state :: "'r index_record option \<Rightarrow> index_state_kind" where
  "from_state current = (case current of None \<Rightarrow> KAbsent | Some record \<Rightarrow> state_kind (ir_state record))"

definition permit ::
    "'r index_record option \<Rightarrow> ('m::linorder, 'p, 'r) checked_operation \<Rightarrow>
       heurema_error + ('m, 'p, 'r) validated_operation" where
  "permit current co =
     (let op = co_operation co; from = from_state current in
      and_then (case current of
          None \<Rightarrow> Inr ()
        | Some record \<Rightarrow> ensure (ir_identity record = lo_index op) (RecordMismatch (lo_index op) (ir_identity record))) (\<lambda>_.
      and_then (ensure (is_permitted_from (transition (lo_change op)) from)
        (TransitionNotPermitted (lo_index op) (transition (lo_change op)) from)) (\<lambda>_.
      and_then (case current of
          None \<Rightarrow> Inr ()
        | Some record \<Rightarrow> check_against_record (lo_change op) (ir_config record)) (\<lambda>_.
      Inr \<lparr>vo_checked = co, vo_from = from\<rparr>))))"

section \<open>JSON nesting as the depth of a tree\<close>

text \<open>
  A JSON value as a tree over its text: a literal or a number, a string by its escaped body, an
  array, and an object by its escaped keys; and the compact text \<open>serde_json\<close> writes for it.
\<close>

datatype json = JLit string | JStr string | JArr "json list" | JObj "(string \<times> json) list"

fun json_body :: "string \<Rightarrow> bool" where
  "json_body [] \<longleftrightarrow> True"
| "json_body (c # cs) \<longleftrightarrow>
     (if c = CHR 0x5C then (case cs of [] \<Rightarrow> False | _ # ds \<Rightarrow> json_body ds) else c \<noteq> CHR 0x22 \<and> json_body cs)"

definition quoted :: "string \<Rightarrow> string" where
  "quoted b = CHR 0x22 # b @ [CHR 0x22]"

fun commas :: "string list \<Rightarrow> string" where
  "commas [] = []"
| "commas [t] = t"
| "commas (t # ts) = t @ CHR '','' # commas ts"

fun json_text :: "json \<Rightarrow> string" where
  "json_text (JLit t) = t"
| "json_text (JStr b) = quoted b"
| "json_text (JArr vs) = CHR ''['' # commas (map json_text vs) @ '']''"
| "json_text (JObj kvs) = CHR ''{'' # commas (map (\<lambda>(k, v). quoted k @ CHR '':'' # json_text v) kvs) @ ''}''"

fun nesting :: "json \<Rightarrow> nat" where
  "nesting (JLit _) = 0"
| "nesting (JStr _) = 0"
| "nesting (JArr vs) = 1 + foldr max (map nesting vs) 0"
| "nesting (JObj kvs) = 1 + foldr max (map (\<lambda>(_, v). nesting v) kvs) 0"

fun json_ok :: "json \<Rightarrow> bool" where
  "json_ok (JLit t) \<longleftrightarrow> list_all (\<lambda>c. c \<notin> set ''[]{}'' \<and> c \<noteq> CHR 0x22) t"
| "json_ok (JStr b) \<longleftrightarrow> json_body b"
| "json_ok (JArr vs) \<longleftrightarrow> (\<forall>v \<in> set vs. json_ok v)"
| "json_ok (JObj kvs) \<longleftrightarrow> (\<forall>(k, v) \<in> set kvs. json_body k \<and> json_ok v)"

text \<open>Reading \<open>t\<close> outside a string leaves the depth and may deepen the deepest by \<open>n\<close>.\<close>

definition deepens :: "string \<Rightarrow> nat \<Rightarrow> bool" where
  "deepens t n \<longleftrightarrow> (\<forall>d e. d \<le> e \<longrightarrow> d + n \<le> usize_max \<longrightarrow>
     fold scan_byte t \<lparr>depth = d, deepest = e, in_string = False, escaped = False\<rparr> =
       \<lparr>depth = d, deepest = max e (d + n), in_string = False, escaped = False\<rparr>)"

lemma deepens_literal:
  assumes "list_all (\<lambda>c. c \<notin> set ''[]{}'' \<and> c \<noteq> CHR 0x22) t"
  shows "deepens t 0"
proof -
  have "fold scan_byte t s = s" if "\<not> in_string s" for s
    using assms that by (induction t arbitrary: s) (auto simp: scan_byte_def)
  then show ?thesis by (simp add: deepens_def max_def)
qed

lemma scan_body:
  "json_body b \<Longrightarrow> in_string s \<Longrightarrow> \<not> escaped s \<Longrightarrow> fold scan_byte b s = s"
proof (induction b arbitrary: s rule: json_body.induct)
  case (2 c cs)
  then show ?case
    by (cases "c = CHR 0x5C") (auto simp: scan_byte_def split: list.splits)
qed simp

lemma scan_mark:
  "scan_byte (CHR 0x22) \<lparr>depth = d, deepest = e, in_string = q, escaped = False\<rparr> =
    \<lparr>depth = d, deepest = e, in_string = \<not> q, escaped = False\<rparr>"
  by (simp add: scan_byte_def)

lemma scan_open:
  "c = CHR ''['' \<or> c = CHR ''{'' \<Longrightarrow> d < usize_max \<Longrightarrow>
    scan_byte c \<lparr>depth = d, deepest = e, in_string = False, escaped = False\<rparr> =
      \<lparr>depth = Suc d, deepest = max e (Suc d), in_string = False, escaped = False\<rparr>"
  by (auto simp: scan_byte_def usize_saturating_inc_def min_def)

lemma scan_close:
  "c = CHR '']'' \<or> c = CHR ''}'' \<Longrightarrow>
    scan_byte c \<lparr>depth = Suc d, deepest = e, in_string = False, escaped = False\<rparr> =
      \<lparr>depth = d, deepest = e, in_string = False, escaped = False\<rparr>"
  by (auto simp: scan_byte_def)

lemma deepens_quoted: "json_body b \<Longrightarrow> deepens (quoted b) 0"
  unfolding deepens_def quoted_def by (simp add: scan_mark scan_body)

lemma deepens_append: "deepens s m \<Longrightarrow> deepens t n \<Longrightarrow> deepens (s @ t) (max m n)"
  unfolding deepens_def by (auto simp: max_def)

lemma deepens_Cons: "c \<notin> set ''[]{}'' \<Longrightarrow> c \<noteq> CHR 0x22 \<Longrightarrow> deepens t n \<Longrightarrow> deepens (c # t) n"
  using deepens_append [of "[c]" 0 t n] deepens_literal [of "[c]"] by simp

lemma deepens_commas:
  "list_all2 deepens ts ns \<Longrightarrow> deepens (commas ts) (foldr max ns 0)"
proof (induction ts arbitrary: ns rule: commas.induct)
  case 1
  then show ?case using deepens_literal [of "[]"] by simp
next
  case (2 t)
  then show ?case by (auto simp: list_all2_Cons1)
next
  case (3 t u us)
  then obtain n ms where "ns = n # ms" "deepens t n" "list_all2 deepens (u # us) ms"
    by (auto simp: list_all2_Cons1)
  moreover from this 3(1) have "deepens (CHR '','' # commas (u # us)) (foldr max ms 0)"
    by (intro deepens_Cons) simp_all
  ultimately show ?case using deepens_append by simp
qed

lemma deepens_bracketed:
  assumes "deepens t n" and "a = CHR ''['' \<and> b = CHR '']'' \<or> a = CHR ''{'' \<and> b = CHR ''}''"
  shows "deepens (a # t @ [b]) (1 + n)"
  unfolding deepens_def
proof (intro allI impI)
  fix d e
  assume le: "d \<le> e" "d + (1 + n) \<le> usize_max"
  then have inner: "fold scan_byte t \<lparr>depth = Suc d, deepest = max e (Suc d), in_string = False, escaped = False\<rparr> =
      \<lparr>depth = Suc d, deepest = max (max e (Suc d)) (Suc d + n), in_string = False, escaped = False\<rparr>"
    using assms(1) unfolding deepens_def by simp
  have "a = CHR ''['' \<or> a = CHR ''{''" "b = CHR '']'' \<or> b = CHR ''}''" "d < usize_max"
    using assms(2) le(2) by auto
  then have "fold scan_byte (a # t @ [b]) \<lparr>depth = d, deepest = e, in_string = False, escaped = False\<rparr> =
      \<lparr>depth = d, deepest = max (max e (Suc d)) (Suc d + n), in_string = False, escaped = False\<rparr>"
    by (simp only: fold_simps fold_append o_apply scan_open inner scan_close)
  moreover have "max (max e (Suc d)) (Suc d + n) = max e (d + (1 + n))" using le(1) by simp
  ultimately show "fold scan_byte (a # t @ [b]) \<lparr>depth = d, deepest = e, in_string = False, escaped = False\<rparr> =
      \<lparr>depth = d, deepest = max e (d + (1 + n)), in_string = False, escaped = False\<rparr>" by simp
qed

lemma json_text_deepens: "json_ok v \<Longrightarrow> deepens (json_text v) (nesting v)"
proof (induction v)
  case (JLit t)
  then show ?case by (simp add: deepens_literal)
next
  case (JStr b)
  then show ?case by (simp add: deepens_quoted)
next
  case (JArr vs)
  then have "deepens (json_text v) (nesting v)" if "v \<in> set vs" for v using that by simp
  then have "list_all2 deepens (map json_text vs) (map nesting vs)"
    by (simp add: list_all2_conv_all_nth)
  then have "deepens (CHR ''['' # commas (map json_text vs) @ [CHR '']'']) (1 + foldr max (map nesting vs) 0)"
    by (intro deepens_bracketed deepens_commas) simp_all
  then show ?case by simp
next
  case (JObj kvs)
  have member: "deepens (quoted k @ CHR '':'' # json_text v) (nesting v)" if "(k, v) \<in> set kvs" for k v
  proof -
    have "deepens (CHR '':'' # json_text v) (nesting v)" using JObj that by (intro deepens_Cons) fastforce+
    moreover have "deepens (quoted k) 0" using JObj.prems that by (intro deepens_quoted) auto
    ultimately show ?thesis using deepens_append [of "quoted k" 0] by simp
  qed
  have "list_all2 deepens (map (\<lambda>(k, v). quoted k @ CHR '':'' # json_text v) kvs) (map (\<lambda>(_, v). nesting v) kvs)"
    unfolding list_all2_map1 list_all2_map2 by (rule list.rel_refl_strong) (use member in auto)
  then have "deepens (CHR ''{'' # commas (map (\<lambda>(k, v). quoted k @ CHR '':'' # json_text v) kvs) @ [CHR ''}''])
      (1 + foldr max (map (\<lambda>(_, v). nesting v) kvs) 0)"
    by (intro deepens_bracketed deepens_commas) simp_all
  then show ?case by simp
qed

text \<open>
  C40: The byte scanner measures the nesting of the value: on the text of any JSON value that a
  64-bit address space holds, brackets inside strings and escaped quotes included, it returns
  the depth of the value's tree.
\<close>
theorem json_depth_is_nesting:
  assumes "json_ok v" "nesting v \<le> usize_max"
  shows "json_depth (json_text v) = nesting v"
  using json_text_deepens [OF assms(1)] assms(2) by (simp add: json_depth_def deepens_def)

lemma json_depth_is_nesting_witness:
  "json_depth (json_text (JArr [JStr ''[[{'', JObj [(''a'', JArr [JLit ''1''])], JStr (CHR 0x5C # CHR 0x22 # ''['')])) = 3"
proof -
  have "(3 :: nat) \<le> usize_max" by (simp add: usize_max_def)
  then show ?thesis by (subst json_depth_is_nesting) simp_all
qed

section \<open>What is accepted\<close>

definition reads_back :: "'a json_io \<Rightarrow> 'a \<Rightarrow> bool" where
  "reads_back io v \<longleftrightarrow>
     (\<exists>text. js_write io v = Inr text \<and> json_depth text \<le> MAX_CONSUMER_JSON_DEPTH \<and> js_read io text = Inr v)"

definition identifies :: "('m, 'p, 'r, 'z) consumer_scheme \<Rightarrow> 'm \<Rightarrow> bool" where
  "identifies c i \<longleftrightarrow>
     (\<exists>item. encode (ser_member c i) = Inr item \<and> is_key item) \<and>
     (\<exists>text. write_key c i = Inr text \<and> read_keys c text = Inr [i]) \<and>
     reads_back (json_member c) i"

fun config_valid :: "index_config \<Rightarrow> bool" where
  "config_valid (CfgVector config) \<longleftrightarrow> dimensions config \<noteq> 0 \<and> m_neighbours config \<noteq> 0 \<and> ef_construction config \<noteq> 0"
| "config_valid (CfgFts config) \<longleftrightarrow> config = fts_config_simple"

fun content_finite :: "member_content \<Rightarrow> bool" where
  "content_finite (CVector v) \<longleftrightarrow> list_all f32_is_finite v"
| "content_finite (CDocument _) \<longleftrightarrow> True"

fun content_fits :: "index_config \<Rightarrow> member_content \<Rightarrow> bool" where
  "content_fits (CfgVector config) (CVector v) \<longleftrightarrow> length v = dimensions config"
| "content_fits (CfgFts _) (CDocument _) \<longleftrightarrow> True"
| "content_fits _ _ \<longleftrightarrow> False"

text \<open>A batch without repeated identities, every one usable, every vector finite, every provenance stored faithfully.\<close>

definition batch_ok :: "('m, 'p, 'r, 'z) consumer_scheme \<Rightarrow> ('m, 'p) index_member list \<Rightarrow> bool" where
  "batch_ok c ms \<longleftrightarrow> distinct (map im_id ms) \<and>
     (\<forall>m \<in> set ms. identifies c (im_id m) \<and> content_finite (im_content m) \<and>
        reads_back (json_provenance c) (im_provenance m))"

fun acceptable :: "('m, 'p, 'r, 'z) consumer_scheme \<Rightarrow> ('m, 'p, 'r) index_change \<Rightarrow> bool" where
  "acceptable c (Create config) \<longleftrightarrow> config_valid config"
| "acceptable c (Insert ms) \<longleftrightarrow> ms \<noteq> [] \<and> batch_ok c ms \<and>
     (\<forall>m \<in> set ms. \<forall>n \<in> set ms. content_family (im_content m) = content_family (im_content n))"
| "acceptable c (Remove ids) \<longleftrightarrow> ids \<noteq> [] \<and> distinct ids \<and> (\<forall>i \<in> set ids. identifies c i)"
| "acceptable c (Rebuild config ms) \<longleftrightarrow> batch_ok c ms \<and> config_valid config \<and>
     (\<forall>m \<in> set ms. content_fits config (im_content m))"
| "acceptable c (Destroy r) \<longleftrightarrow> reads_back (json_retention c) r"

lemma json_round_trip_Inr [simp]: "json_round_trip io v = Inr u \<longleftrightarrow> reads_back io v"
proof (cases "js_write io v")
  case (Inr t)
  then show ?thesis by (cases "js_read io t") (auto simp: json_round_trip_def reads_back_def and_then_Inr_iff)
qed (simp add: json_round_trip_def reads_back_def)

lemma or_else_None [simp]: "or_else x y = None \<longleftrightarrow> x = None \<and> y = None"
  by (auto simp: or_else_def split: option.splits)

lemma member_refusal_None [simp]: "member_refusal c i = None \<longleftrightarrow> identifies c i"
proof -
  have "member_identity_refusal v = None \<longleftrightarrow> (\<exists>item. encode v = Inr item \<and> is_key item)" for v
    by (auto simp: member_identity_refusal_def split: sum.splits if_splits)
  moreover have "json_key_refusal c i = None \<longleftrightarrow> (\<exists>text. write_key c i = Inr text \<and> read_keys c text = Inr [i])"
    by (auto simp: json_key_refusal_def split: sum.splits if_splits)
  moreover have "json_value_refusal c i = None \<longleftrightarrow> reads_back (json_member c) i"
    unfolding json_round_trip_Inr [symmetric, of _ _ "()"]
    by (cases "json_round_trip (json_member c) i") (auto simp: json_value_refusal_def simp del: json_round_trip_Inr)
  ultimately show ?thesis by (simp add: member_refusal_def identifies_def)
qed

lemma first_duplicate_None: "sorted xs \<Longrightarrow> first_duplicate xs = None \<longleftrightarrow> distinct xs"
  by (induction xs rule: first_duplicate.induct) auto

lemma check_member_identities_Inr:
  "sorted ids \<Longrightarrow> check_member_identities c ids = Inr u \<longleftrightarrow> distinct ids \<and> (\<forall>i \<in> set ids. identifies c i)"
  unfolding check_member_identities_def first_duplicate_None [symmetric]
  by (auto simp: try_for_each_Inr_iff split: option.splits simp flip: member_refusal_None)

lemma check_finite_vectors_Inr [simp]:
  "check_finite_vectors ms = Inr u \<longleftrightarrow> (\<forall>m \<in> set ms. content_finite (im_content m))"
proof -
  have "(case x of CVector v \<Rightarrow> check_finite v | CDocument _ \<Rightarrow> Inr ()) = Inr () \<longleftrightarrow> content_finite x" for x
    by (cases x) (simp_all add: check_finite_def)
  then show ?thesis by (simp add: check_finite_vectors_def try_for_each_Inr_iff)
qed

lemma check_config_Inr [simp]: "check_config config = Inr u \<longleftrightarrow> config_valid (CfgVector config)"
  by (auto simp: check_config_def validate_config_def)

lemma require_simple_pipeline_Inr: "require_simple_pipeline config = Inr u \<longleftrightarrow> config = fts_config_simple"
  by (cases config, cases "tokenizer config")
    (auto simp: require_simple_pipeline_def fts_config_simple_def SIMPLE_TOKENIZER_def)

lemma check_index_config_Inr [simp]: "check_index_config config = Inr u \<longleftrightarrow> config_valid config"
  by (cases config) (simp_all add: require_simple_pipeline_Inr)

lemma check_families_Inr [simp]:
  "check_families fam ms = Inr u \<longleftrightarrow> (\<forall>m \<in> set ms. content_family (im_content m) = fam)"
  by (simp add: check_families_def try_for_each_Inr_iff)

lemma check_single_family_Inr [simp]:
  "check_single_family ms = Inr u \<longleftrightarrow>
     (\<forall>m \<in> set ms. \<forall>n \<in> set ms. content_family (im_content m) = content_family (im_content n))"
  by (auto simp: check_single_family_def split: list.splits)

lemma check_content_Inr:
  "check_content config x = Inr u \<longleftrightarrow> config_valid config \<and> content_fits config x \<and> content_finite x"
  by (cases "(config, x)" rule: check_content.cases)
    (auto simp: check_vector_def check_finite_def require_simple_pipeline_Inr and_then_Inr_iff)

lemma content_fits_family: "content_fits config x \<Longrightarrow> content_family x = config_family config"
  by (cases "(config, x)" rule: check_content.cases) auto

lemma check_members_fit_Inr [simp]:
  "check_members_fit config ms = Inr u \<longleftrightarrow>
     (\<forall>m \<in> set ms. config_valid config \<and> content_fits config (im_content m) \<and> content_finite (im_content m))"
  by (auto simp: check_members_fit_def and_then_Inr_iff try_for_each_Inr_iff check_content_Inr
      dest: content_fits_family)

lemma set_sorted_members [simp]: "set (sorted_members ms) = set ms"
  by (simp add: sorted_members_def)

lemma sorted_members_ids: "sorted (map im_id (sorted_members ms))"
  by (simp add: sorted_members_def)

lemma mset_sorted_members [simp]: "mset (sorted_members ms) = mset ms"
  by (simp add: sorted_members_def)

lemma distinct_sorted_members [simp]: "distinct (map im_id (sorted_members ms)) \<longleftrightarrow> distinct (map im_id ms)"
  by (rule mset_eq_imp_distinct_iff) (simp add: mset_map)

lemma check_provenances_Inr [simp]:
  "check_provenances c ms = Inr u \<longleftrightarrow> (\<forall>m \<in> set ms. reads_back (json_provenance c) (im_provenance m))"
  by (simp add: check_provenances_def try_for_each_Inr_iff)

lemma checks_Inr:
  "check_change c change = Inr u \<and> check_stored_values c change = Inr u' \<longleftrightarrow> acceptable c change"
  by (cases change)
    (auto simp: and_then_Inr_iff check_member_identities_Inr [OF sorted_members_ids] check_member_identities_Inr
      batch_ok_def)

section \<open>Properties\<close>

lemma check_Inr:
  "check c op = Inr co \<longleftrightarrow>
     acceptable c (lo_change op) \<and> compute_digest (op_codec.truncate c) op = Inr (op_digest (co_identity co)) \<and>
     co_operation co = op \<and> op_key (co_identity co) = lo_key op"
proof -
  have "check c op = Inr co \<longleftrightarrow> acceptable c (lo_change op) \<and>
      (\<exists>d. compute_digest (op_codec.truncate c) op = Inr d \<and>
        co = \<lparr>co_operation = op, co_identity = \<lparr>op_key = lo_key op, op_digest = d\<rparr>\<rparr>)"
    using checks_Inr [of c "lo_change op" "()" "()"] by (auto simp: check_def and_then_Inr_iff)
  then show ?thesis by (cases co; cases "co_identity co") auto
qed

text \<open>
  C14: The stateless checks accept exactly the operations that can be stored and applied: a
  non-empty batch of distinct identities that survive storage, finite vectors, a configuration
  the engine accepts and, for a rebuild, members that fit it, provenance and retention that read
  back; and an encodable operation, whose digest becomes part of its identity.
\<close>
theorem check_accepts_exactly:
  "check c op = Inr co \<longleftrightarrow>
     acceptable c (lo_change op) \<and> compute_digest (op_codec.truncate c) op = Inr (op_digest (co_identity co)) \<and>
     co_operation co = op \<and> op_key (co_identity co) = lo_key op"
  by (rule check_Inr)

text \<open>Two changes that list the same batch.\<close>

fun same_batch :: "('m, 'p, 'r) index_change \<Rightarrow> ('m, 'p, 'r) index_change \<Rightarrow> bool" where
  "same_batch (Insert ms) (Insert ns) \<longleftrightarrow> mset ms = mset ns"
| "same_batch (Remove xs) (Remove ys) \<longleftrightarrow> mset xs = mset ys"
| "same_batch (Rebuild a ms) (Rebuild b ns) \<longleftrightarrow> a = b \<and> mset ms = mset ns"
| "same_batch a b \<longleftrightarrow> a = b"

lemma same_ids: "mset ms = mset ns \<Longrightarrow> map im_id (sorted_members ms) = map im_id (sorted_members ns)"
  by (rule trans [OF properties_for_sort [symmetric] properties_for_sort, of _ "map im_id ns"])
    (simp_all add: sorted_members_ids mset_map)

lemma same_sorted_members:
  "mset ms = mset ns \<Longrightarrow> distinct (map im_id ms) \<Longrightarrow> sorted_members ms = sorted_members ns"
  unfolding sorted_members_def by (intro sort_key_inj_key_eq) (simp_all add: distinct_map)

lemma duplicate_refused:
  "\<not> distinct (map im_id ms) \<Longrightarrow> \<exists>e. check_member_identities c (map im_id (sorted_members ms)) = Inl e"
  using check_member_identities_Inr [OF sorted_members_ids, of c ms]
  by (cases "check_member_identities c (map im_id (sorted_members ms))") auto

lemma and_then_same:
  "r = s \<Longrightarrow> (\<And>a. r = Inr a \<Longrightarrow> f a = g a) \<Longrightarrow> and_then r f = and_then s g"
  by (cases r) auto

lemma sort_mset_eq: "mset xs = mset ys \<Longrightarrow> sort xs = sort ys"
  by (rule properties_for_sort) simp_all

lemma check_change_same:
  assumes "same_batch a b"
  shows "check_change c a = check_change c b"
proof (cases "(a, b)" rule: same_batch.cases)
  case (1 ms ns)
  then have same: "mset ms = mset ns" using assms by simp
  then have "ms = [] \<longleftrightarrow> ns = []" by auto
  moreover have "sorted_members ms = sorted_members ns"
    if "check_member_identities c (map im_id (sorted_members ms)) = Inr ()"
    using that same_sorted_members [OF same] duplicate_refused [of ms c] by fastforce
  ultimately show ?thesis using 1 same_ids [OF same] by (auto intro!: and_then_same)
next
  case (2 xs ys)
  then have "mset xs = mset ys" using assms by simp
  then have "sort xs = sort ys" "xs = [] \<longleftrightarrow> ys = []" by (auto intro: sort_mset_eq)
  then show ?thesis using 2 by simp
next
  case (3 x ms y ns)
  then have same: "mset ms = mset ns" using assms by simp
  have "sorted_members ms = sorted_members ns"
    if "check_member_identities c (map im_id (sorted_members ms)) = Inr ()"
    using that same_sorted_members [OF same] duplicate_refused [of ms c] by fastforce
  then show ?thesis using 3 assms same_ids [OF same] by (auto intro!: and_then_same)
qed (use assms in auto)

text \<open>
  How a batch lists its members does not matter: two operations with the same index and key
  and the same batch in another order get the same identity, or meet the same refusal.
\<close>
theorem check_ignores_listing_order:
  assumes "same_batch (lo_change a) (lo_change b)" "lo_index a = lo_index b" "lo_key a = lo_key b"
  shows "map_sum id co_identity (check c a) = map_sum id co_identity (check c b)"
proof (cases "check_change c (lo_change a)")
  case (Inl e)
  then show ?thesis using check_change_same [OF assms(1), of c] by (simp add: check_def)
next
  case (Inr u)
  then have b: "check_change c (lo_change b) = Inr u" using check_change_same [OF assms(1), of c] by simp
  have members: "sorted_members ms = sorted_members ns"
    if "mset ms = mset ns" "\<exists>w. check_member_identities c (map im_id (sorted_members ms)) = Inr w" for ms ns
    using that same_sorted_members duplicate_refused [of ms c] by fastforce
  have "canonical_change d (lo_change a) = canonical_change d (lo_change b) \<and>
      check_stored_values c (lo_change a) = check_stored_values c (lo_change b) \<and>
      transition (lo_change a) = transition (lo_change b)" for d :: "('a, 'b, 'c) op_codec"
    using assms(1) Inr
    by (cases "(lo_change a, lo_change b)" rule: same_batch.cases)
      (auto simp: and_then_Inr_iff dest!: members sort_mset_eq)
  then have same: "compute_digest (op_codec.truncate c) a = compute_digest (op_codec.truncate c) b"
    "check_stored_values c (lo_change a) = check_stored_values c (lo_change b)"
    using assms(2) by (simp_all add: compute_digest_def canonical_bytes_def canonical_operation_def)
  show ?thesis
    using Inr b same assms(3)
    by (cases "compute_digest (op_codec.truncate c) b"; cases "check_stored_values c (lo_change b)")
      (simp_all add: check_def)
qed

text \<open>A sample consumer: 64-bit numbers, in JSON as their digits.\<close>

definition word_io :: "64 word json_io" where
  "word_io = \<lparr>js_write = (\<lambda>w. Inr (show_nat (unat w))),
     js_read = (\<lambda>t. case parse_u64 t of None \<Rightarrow> Inl ''invalid number'' | Some n \<Rightarrow> Inr (word_of_nat n))\<rparr>"

definition word_consumer :: "(64 word, 64 word, 64 word) consumer" where
  "word_consumer = op_codec.extend word_codec
     \<lparr>json_member = word_io, json_provenance = word_io, json_retention = word_io,
      write_key = (\<lambda>w. Inr (CHR ''{'' # quoted (show_nat (unat w)) @ '':0}'')),
      read_keys = (\<lambda>t. map_sum id (\<lambda>w. [w]) (js_read word_io (take (length t - 6) (drop 2 t)))),
      debug = (\<lambda>w. show_nat (unat w))\<rparr>"

lemma check_ignores_listing_order_witness:
  "map_sum id co_identity (check word_consumer (removal [1, 2])) = map_sum id co_identity (check word_consumer (removal [2, 1]))"
  by (rule check_ignores_listing_order) (simp_all add: removal_def)

text \<open>The sample consumer's numbers survive storage: they are digits in JSON.\<close>

lemma digits_facts:
  "list_all is_ascii_digit (show_nat n)" "show_nat n \<noteq> []" "json_depth (show_nat n) = 0"
proof -
  show digits: "list_all is_ascii_digit (show_nat n)" by (rule show_nat_digits)
  show "show_nat n \<noteq> []" by (subst show_nat.simps) simp
  have "list_all (\<lambda>c. c \<notin> set ''[]{}'' \<and> c \<noteq> CHR 0x22) (show_nat n)"
    using digits by (rule list.pred_mono_strong) (auto simp: is_ascii_digit_def)
  from deepens_literal [OF this] show "json_depth (show_nat n) = 0"
    by (auto simp: deepens_def json_depth_def dest!: spec [of _ 0])
qed

lemma parse_show_u64: "n < 2 ^ 64 \<Longrightarrow> parse_u64 (show_nat n) = Some n"
proof -
  assume n: "n < 2 ^ 64"
  obtain c d where cd: "show_nat n = c # d" using digits_facts(2) by (cases "show_nat n") auto
  then have "c \<noteq> CHR ''+''" using digits_facts(1) [of n] by (auto simp: is_ascii_digit_def)
  then have "parse_u64 (show_nat n) = parse_digits (2 ^ 64) (show_nat n)" by (simp add: parse_u64_def cd)
  then show ?thesis using n digits_facts(1,2) by (simp add: parse_digits_def dec_value_show_nat)
qed

lemma word_reads_back: "reads_back word_io w"
proof -
  have "unat w < 2 ^ LENGTH(64)" by (rule unsigned_less)
  then have "unat w < 2 ^ 64" by simp
  then show ?thesis using digits_facts [of "unat w"] parse_show_u64 by (auto simp: reads_back_def word_io_def)
qed

lemma word_identifies: "identifies word_consumer w"
proof -
  have key: "take (length (CHR ''{'' # quoted (show_nat n) @ '':0}'') - 6) (drop 2 (CHR ''{'' # quoted (show_nat n) @ '':0}'')) = show_nat n" for n
    by (simp add: quoted_def)
  have read: "js_read word_io (show_nat (unat w)) = Inr w"
    using word_reads_back [of w] by (auto simp: reads_back_def word_io_def)
  have "is_key (TAG_U64 # word_bytes w)" by (simp add: is_key_def is_int_tag_def) code_simp
  then show ?thesis
    using word_reads_back [of w] key [of "unat w"] read
    by (auto simp: identifies_def word_consumer_def op_codec.defs word_codec_def)
qed

lemma config_valid_vector: "validate_config config = Inr () \<Longrightarrow> config_valid (CfgVector config)"
  by (auto simp: validate_config_def split: if_splits)

text \<open>What the current record must be for an operation.\<close>

fun fits_record :: "('m, 'p, 'r) index_change \<Rightarrow> index_config \<Rightarrow> bool" where
  "fits_record (Create _) _ \<longleftrightarrow> False"
| "fits_record (Insert ms) current \<longleftrightarrow>
     (\<forall>m \<in> set ms. config_valid current \<and> content_fits current (im_content m) \<and> content_finite (im_content m))"
| "fits_record (Remove _) _ \<longleftrightarrow> True"
| "fits_record (Rebuild config _) current \<longleftrightarrow> config_family config = config_family current"
| "fits_record (Destroy _) _ \<longleftrightarrow> True"

definition permitted :: "'r index_record option \<Rightarrow> ('m, 'p, 'r) lifecycle_operation \<Rightarrow> bool" where
  "permitted current op \<longleftrightarrow>
     (case current of
        None \<Rightarrow> (\<exists>config. lo_change op = Create config)
      | Some record \<Rightarrow> ir_identity record = lo_index op \<and> (\<exists>v. ir_state record = Active v) \<and>
          fits_record (lo_change op) (ir_config record))"

lemma state_kind_iff:
  "state_kind s = KActive \<longleftrightarrow> (\<exists>v. s = Active v)" "state_kind s \<noteq> KAbsent"
  by (cases s; simp)+

lemma permitted_from_kind:
  "is_permitted_from (transition change) (state_kind s) \<longleftrightarrow> (\<exists>v. s = Active v) \<and> (\<nexists>config. change = Create config)"
  by (cases s) (simp_all add: requested_not_from_destroyed permitted_active_iff)

lemma check_against_record_Inr:
  "(\<nexists>config. change = Create config) \<Longrightarrow> check_against_record change current = Inr u \<longleftrightarrow> fits_record change current"
  by (cases change) auto

lemma permit_Inr:
  "permit current co = Inr vo \<longleftrightarrow>
     permitted current (co_operation co) \<and> vo_checked vo = co \<and> vo_from vo = from_state current"
proof (cases current)
  case None
  then show ?thesis
    by (cases vo) (auto simp: permit_def permitted_def from_state_def permitted_absent_iff and_then_Inr_iff Let_def)
next
  case (Some rcd)
  let ?change = "lo_change (co_operation co)"
  have "permit current co = Inr vo \<longleftrightarrow>
      ir_identity rcd = lo_index (co_operation co) \<and>
      ((\<exists>v. ir_state rcd = Active v) \<and> (\<nexists>config. ?change = Create config)) \<and>
      check_against_record ?change (ir_config rcd) = Inr () \<and> vo = \<lparr>vo_checked = co, vo_from = from_state current\<rparr>"
    using Some by (auto simp: permit_def from_state_def permitted_from_kind and_then_Inr_iff Let_def)
  moreover have "fits_record ?change (ir_config rcd) \<Longrightarrow> \<nexists>config. ?change = Create config" by auto
  ultimately show ?thesis
    using Some check_against_record_Inr [of ?change "ir_config rcd" "()"] by (cases vo) (auto simp: permitted_def)
qed

text \<open>
  C15: The permission step accepts exactly what the current record allows: a Create on an absent
  index; on an active index of the operation's own identity anything else, an Insert whose
  members fit the current configuration, a Rebuild within the index's family. A destroyed index
  accepts nothing.
\<close>
theorem permit_accepts_exactly:
  "permit current co = Inr vo \<longleftrightarrow>
     permitted current (co_operation co) \<and> vo_checked vo = co \<and> vo_from vo = from_state current"
  by (rule permit_Inr)

lemma category_refused_simps:
  "check_finite v = Inl e \<Longrightarrow> category e = CatRefused"
  "check_config config = Inl e \<Longrightarrow> category e = CatRefused"
  "check_member_identities c ids = Inl e \<Longrightarrow> category e = CatRefused"
  "check_families fam ms = Inl e \<Longrightarrow> category e = CatRefused"
  "check_vector config v = Inl e \<Longrightarrow> category e = CatRefused"
proof -
  show fin: "check_finite v = Inl e \<Longrightarrow> category e = CatRefused" for v e
    by (auto simp: check_finite_def split: if_splits)
  show conf: "check_config config = Inl e \<Longrightarrow> category e = CatRefused" for config e
    by (auto simp: check_config_def validate_config_def split: if_splits)
  show "check_member_identities c ids = Inl e \<Longrightarrow> category e = CatRefused"
    by (auto simp: check_member_identities_def refusal_def split: option.splits dest!: try_for_each_Inl)
  show "check_families fam ms = Inl e \<Longrightarrow> category e = CatRefused"
    by (auto simp: check_families_def dest!: try_for_each_Inl)
  show "check_vector config v = Inl e \<Longrightarrow> category e = CatRefused"
    using fin conf by (auto simp: check_vector_def and_then_Inl_iff split: if_splits)
qed

lemma simple_pipeline_refusal: "require_simple_pipeline config = Inl e \<Longrightarrow> \<exists>what. e = NotYetImplemented what"
  by (auto simp: require_simple_pipeline_def split: if_splits)

lemma check_finite_vectors_Inl: "check_finite_vectors ms = Inl e \<Longrightarrow> category e = CatRefused"
  unfolding check_finite_vectors_def
proof (drule try_for_each_Inl, elim bexE)
  fix m
  assume "(case im_content m of CVector v \<Rightarrow> check_finite v | CDocument _ \<Rightarrow> Inr ()) = Inl e"
  then show "category e = CatRefused" by (cases "im_content m") (auto intro: category_refused_simps)
qed

lemma check_single_family_Inl: "check_single_family ms = Inl e \<Longrightarrow> category e = CatRefused"
  by (auto simp: check_single_family_def split: list.splits intro: category_refused_simps)

lemma check_content_Inl:
  "check_content config x = Inl e \<Longrightarrow> config_valid config \<Longrightarrow> category e = CatRefused"
  by (cases "(config, x)" rule: check_content.cases)
    (auto simp: require_simple_pipeline_Inr [of _ "()", symmetric] dest: category_refused_simps)

lemma check_members_fit_Inl:
  "check_members_fit config ms = Inl e \<Longrightarrow> config_valid config \<Longrightarrow> category e = CatRefused"
  by (auto simp: check_members_fit_def and_then_Inl_iff dest!: try_for_each_Inl
      dest: check_content_Inl category_refused_simps)

lemma check_index_config_Inl:
  "check_index_config config = Inl e \<Longrightarrow> category e = CatRefused \<or>
     (\<exists>what simple. e = NotYetImplemented what \<and> config = CfgFts simple \<and> simple \<noteq> fts_config_simple)"
  using require_simple_pipeline_Inr [of fts_config_simple "()"]
  by (cases config) (auto dest: category_refused_simps simple_pipeline_refusal)

lemma check_change_Inl:
  "check_change c change = Inl e \<Longrightarrow> category e = CatRefused \<or>
     (\<exists>what config. e = NotYetImplemented what \<and> config \<noteq> fts_config_simple \<and>
        (change = Create (CfgFts config) \<or> (\<exists>ms. change = Rebuild (CfgFts config) ms)))"
  by (cases change)
    (auto simp: and_then_Inl_iff dest: category_refused_simps check_finite_vectors_Inl check_single_family_Inl
      check_index_config_Inl check_members_fit_Inl)

lemma check_stored_values_Inl: "check_stored_values c change = Inl e \<Longrightarrow> category e = CatRefused"
  by (cases change) (auto simp: check_provenances_def map_err_def split: sum.splits dest!: try_for_each_Inl)

lemma compute_digest_Inl: "compute_digest c op = Inl e \<Longrightarrow> category e = CatRefused"
  by (auto simp: compute_digest_def and_then_Inl_iff map_err_def split: sum.splits)

text \<open>An insertion of one document, which passes every check that needs no record.\<close>

definition document_insert :: "64 word \<Rightarrow> string \<Rightarrow> operation_key \<Rightarrow> (64 word, 64 word, 64 word) lifecycle_operation" where
  "document_insert i d key = \<lparr>lo_index = sample_index, lo_key = key,
     lo_change = Insert [\<lparr>im_id = i, im_provenance = 5, im_content = CDocument d\<rparr>]\<rparr>"

lemma document_insert_sel [simp]:
  "lo_index (document_insert i d key) = sample_index" "lo_key (document_insert i d key) = key"
  "lo_change (document_insert i d key) = Insert [\<lparr>im_id = i, im_provenance = 5, im_content = CDocument d\<rparr>]"
  by (simp_all add: document_insert_def)

lemma document_insert_check:
  assumes "\<not> isl (canonical_bytes word_codec (document_insert i d key))"
  obtains co where "check word_consumer (document_insert i d key) = Inr co" "co_operation co = document_insert i d key"
proof -
  obtain h where h: "compute_digest word_codec (document_insert i d key) = Inr h"
    using assms by (cases "canonical_bytes word_codec (document_insert i d key)") (auto simp: compute_digest_def)
  have trunc: "op_codec.truncate word_consumer = word_codec" "json_provenance word_consumer = word_io"
    by (simp_all add: word_consumer_def op_codec.defs word_codec_def)
  have "check word_consumer (document_insert i d key) = Inr
      \<lparr>co_operation = document_insert i d key, co_identity = \<lparr>op_key = key, op_digest = h\<rparr>\<rparr>"
    using h trunc by (simp add: check_Inr batch_ok_def word_identifies word_reads_back)
  then show ?thesis using that by simp
qed

text \<open>
  C38: Refusals of validation. A refusal of the stateless checks has the category \<open>Refused\<close>,
  unless the operation asks for a full-text configuration other than \<open>Simple\<close>, which alone may be
  refused as not yet implemented. On a record whose configuration the engine accepts every refusal
  of the permission step has the category \<open>Refused\<close>, and the first condition the record fails is
  the one it names: another index's record, a transition its state does not allow, or, on an
  active index, an Insert whose members do not fit its configuration or a Rebuild into the other
  family.
\<close>
theorem validation_refusal_categories:
  assumes "\<And>record. current = Some record \<Longrightarrow> config_valid (ir_config record)"
  shows "case check c op of
      Inl e \<Rightarrow> category e = CatRefused \<or>
        (\<exists>what config. e = NotYetImplemented what \<and> config \<noteq> fts_config_simple \<and>
           (lo_change op = Create (CfgFts config) \<or> (\<exists>ms. lo_change op = Rebuild (CfgFts config) ms)))
    | Inr co \<Rightarrow> (case permit current co of Inr _ \<Rightarrow> permitted current op | Inl e \<Rightarrow> category e = CatRefused \<and>
        (case current of
           None \<Rightarrow> e = TransitionNotPermitted (lo_index op) (transition (lo_change op)) KAbsent
         | Some record \<Rightarrow>
             if ir_identity record \<noteq> lo_index op then e = RecordMismatch (lo_index op) (ir_identity record)
             else if \<not> is_permitted_from (transition (lo_change op)) (state_kind (ir_state record))
             then e = TransitionNotPermitted (lo_index op) (transition (lo_change op)) (state_kind (ir_state record))
             else case lo_change op of
                 Insert ms \<Rightarrow> check_members_fit (ir_config record) (sorted_members ms) = Inl e
               | Rebuild config _ \<Rightarrow> config_family config \<noteq> config_family (ir_config record) \<and>
                   e = FamilyMismatch (config_family (ir_config record)) (config_family config)
               | _ \<Rightarrow> False))"
proof (cases "check c op")
  case (Inl e)
  then have "check_change c (lo_change op) = Inl e \<or> category e = CatRefused"
    by (auto simp: check_def and_then_Inl_iff dest: check_stored_values_Inl compute_digest_Inl)
  then show ?thesis using Inl check_change_Inl [of c "lo_change op" e] by auto
next
  case (Inr co)
  then have op: "co_operation co = op" by (simp add: check_Inr)
  have against: "check_against_record change (ir_config rcd) = Inl e \<Longrightarrow> category e = CatRefused"
    if "current = Some rcd" for rcd change e
    using assms [OF that] by (cases change) (auto dest: check_members_fit_Inl)
  show ?thesis
  proof (cases "permit current co")
    case (Inl e)
    then have "category e = CatRefused"
      using against by (auto simp: permit_def Let_def and_then_Inl_iff split: option.splits)
    then show ?thesis
      using \<open>check c op = Inr co\<close> Inl op
      by (cases "lo_change op")
        (auto simp: permit_def from_state_def Let_def and_then_Inl_iff and_then_Inr_iff split: option.splits)
  next
    case (Inr vo)
    then show ?thesis using \<open>check c op = Inr co\<close> op permit_Inr [of current co vo] by simp
  qed
qed

definition line_config :: hnsw_config where
  "line_config = \<lparr>dimensions = 1, distance_mode = L2, ef_construction = 8, m_neighbours = 2\<rparr>"

lemma line_config_valid: "config_valid (CfgVector line_config)"
  by (rule config_valid_vector) (simp add: line_config_def validate_config_def)

text \<open>A document offered to a vector index passes the stateless checks and is refused by the record.\<close>

lemma validation_refusal_categories_witness:
  "let current = Some \<lparr>ir_identity = sample_index, ir_config = CfgVector line_config, ir_state = Active version_first\<rparr> in
   \<exists>co. check word_consumer (document_insert 7 ''a b'' sample_key) = Inr co \<and> \<not> permitted current (co_operation co) \<and>
     permit current co = Inl (FamilyMismatch FamVector FamFts) \<and> category (FamilyMismatch FamVector FamFts) = CatRefused"
proof -
  let ?current = "Some \<lparr>ir_identity = sample_index, ir_config = CfgVector line_config, ir_state = Active version_first\<rparr> ::
    64 word index_record option"
  have "\<not> isl (canonical_bytes word_codec (document_insert 7 ''a b'' sample_key))" by code_simp
  then obtain co where co: "check word_consumer (document_insert 7 ''a b'' sample_key) = Inr co"
    "co_operation co = document_insert 7 ''a b'' sample_key" by (rule document_insert_check)
  have valid: "\<And>record. ?current = Some record \<Longrightarrow> config_valid (ir_config record)"
    using line_config_valid by auto
  have not: "\<not> permitted ?current (co_operation co)" by (simp add: co(2) permitted_def)
  then obtain e where e: "permit ?current co = Inl e" using permit_Inr [of ?current co] by (cases "permit ?current co") auto
  from validation_refusal_categories [where current = ?current and op = "document_insert 7 ''a b'' sample_key" and
      c = word_consumer, OF valid]
  have "category e = CatRefused \<and> e = FamilyMismatch FamVector FamFts"
    by (simp add: co(1) e sorted_members_def check_members_fit_def check_families_def)
  then show ?thesis using co(1) e not by auto
qed

end
