(* ===== verification/Encoding.thy ===== *)
theory Encoding
  imports Validate Backend Hnsw_Snapshot
begin

text \<open>
  The stored records of the lifecycle (\<open>crates/heurema/src/lifecycle/encoding.rs\<close>, with
  \<open>MemberEntry\<close> of \<open>published.rs\<close>, \<open>MemberChange\<close> of \<open>apply.rs\<close> and the map visitor of
  \<open>persistence.rs\<close>): heads, version payloads, staging markers and operation records, the
  invariants a decoded payload is checked against, and decoding under a key. Stored bytes are an
  opaque type \<open>'b\<close>; what \<open>serde_json\<close> writes and reads for each record is a parameter, which
  calls the decoders of an engine and of a member table where the derived code does.
\<close>

section \<open>Entries, changes and engines\<close>

definition LIFECYCLE_FORMAT_VERSION :: nat where
  "LIFECYCLE_FORMAT_VERSION = 1"

record 'p member_entry =
  me_provenance :: 'p
  me_introduced :: index_version
  me_supersedes :: "index_version option"

datatype ('m, 'p) member_change =
    Inserted 'm
  | Replaced 'm "'p member_entry"
  | Removed 'm "'p member_entry"
  | AbsentOnRemove 'm
  | Dropped 'm "'p member_entry"
  | Retired 'm "'p member_entry"

fun change_id :: "('m, 'p) member_change \<Rightarrow> 'm" where
  "change_id (Inserted i) = i"
| "change_id (Replaced i _) = i"
| "change_id (Removed i _) = i"
| "change_id (AbsentOnRemove i) = i"
| "change_id (Dropped i _) = i"
| "change_id (Retired i _) = i"

text \<open>The enum \<open>VersionEngine\<close>: an HNSW vector engine or a BM25 full-text engine.\<close>

type_synonym 'm version_engine = "'m hnsw + 'm bm25"

abbreviation (input) EngVector :: "'m::linorder hnsw \<Rightarrow> 'm version_engine" where
  "EngVector engine \<equiv> Inl engine"

abbreviation (input) EngFts :: "'m::linorder bm25 \<Rightarrow> 'm version_engine" where
  "EngFts engine \<equiv> Inr engine"

fun engine_empty :: "index_config \<Rightarrow> 'm::linorder version_engine" where
  "engine_empty (CfgVector config) = EngVector (hnsw_new config)"
| "engine_empty (CfgFts config) = EngFts (bm25_new config)"

fun engine_family :: "'m::linorder version_engine \<Rightarrow> snapshot_family" where
  "engine_family (EngVector _) = FamVector"
| "engine_family (EngFts _) = FamFts"

fun is_built_under :: "'m::linorder version_engine \<Rightarrow> index_config \<Rightarrow> bool" where
  "is_built_under (EngVector engine) (CfgVector config) \<longleftrightarrow> hx_config engine = config"
| "is_built_under (EngFts engine) (CfgFts config) \<longleftrightarrow> bm_config engine = config"
| "is_built_under _ _ \<longleftrightarrow> False"

fun holds_exactly :: "'m::linorder version_engine \<Rightarrow> ('m, 'e) btree \<Rightarrow> bool" where
  "holds_exactly (EngVector engine) table \<longleftrightarrow> hnsw_member_ids engine = bt_keys table"
| "holds_exactly (EngFts engine) table \<longleftrightarrow> bm25_member_ids engine = bt_keys table"

definition lift_engine :: "('a \<Rightarrow> 'b) \<Rightarrow> 'e + 'a \<Rightarrow> 'e + 'b" where
  "lift_engine f r = and_then r (\<lambda>a. Inr (f a))"

fun engine_insert :: "unicode \<Rightarrow> 'm::linorder \<Rightarrow> member_content \<Rightarrow> 'm version_engine \<Rightarrow> 'm version_engine res" where
  "engine_insert uc i (CVector v) (EngVector engine) = lift_engine Inl (hnsw_insert i v engine)"
| "engine_insert uc i (CDocument d) (EngFts engine) = lift_engine Inr (bm25_insert uc i d engine)"
| "engine_insert uc i content engine = fail (FamilyMismatch (engine_family engine) (content_family content))"

fun engine_remove :: "'m::linorder \<Rightarrow> 'm version_engine \<Rightarrow> 'm version_engine res" where
  "engine_remove i (EngVector engine) = lift_engine Inl (hnsw_remove i engine)"
| "engine_remove i (EngFts engine) = lift_engine Inr (bm25_remove i engine)"

section \<open>Records\<close>

record (overloaded) ('m, 'p) version_payload =
  vp_format :: nat
  vp_index :: index_identity
  vp_version :: index_version
  vp_predecessor :: "index_version option"
  vp_operation :: operation_identity
  vp_config :: index_config
  vp_engine :: "'m::linorder version_engine"
  vp_members :: "('m, 'p member_entry) btree"

record 'r head_bytes =
  hb_format :: nat
  hb_record :: "'r index_record"

record staging_marker =
  sm_format :: nat
  sm_index :: index_identity
  sm_version :: index_version
  sm_operation :: operation_identity
  sm_transition :: lifecycle_transition

record ('m, 'p, 'r) operation_record =
  or_format :: nat
  or_index :: index_identity
  or_operation :: operation_identity
  or_transition :: lifecycle_transition
  or_from :: "index_version option"
  or_resulting :: "'r index_state"
  or_previous_config :: "index_config option"
  or_changes :: "('m, 'p) member_change list"

definition predecessor_of :: "index_version \<Rightarrow> index_version option" where
  "predecessor_of v =
     (case version_try_from (version_get v - 1) of Inl _ \<Rightarrow> None | Inr w \<Rightarrow> Some w)"

definition version_payload_new ::
    "index_identity \<Rightarrow> index_version \<Rightarrow> operation_identity \<Rightarrow> index_config \<Rightarrow> 'm::linorder version_engine \<Rightarrow>
       ('m, 'p member_entry) btree \<Rightarrow> ('m, 'p) version_payload" where
  "version_payload_new index version operation config engine members =
     \<lparr>vp_format = LIFECYCLE_FORMAT_VERSION, vp_index = index, vp_version = version,
      vp_predecessor = predecessor_of version, vp_operation = operation, vp_config = config,
      vp_engine = engine, vp_members = members\<rparr>"

definition staging_marker_new ::
    "index_identity \<Rightarrow> index_version \<Rightarrow> operation_identity \<Rightarrow> lifecycle_transition \<Rightarrow> staging_marker" where
  "staging_marker_new index version operation tr =
     \<lparr>sm_format = LIFECYCLE_FORMAT_VERSION, sm_index = index, sm_version = version,
      sm_operation = operation, sm_transition = tr\<rparr>"

definition operation_record_new ::
    "index_identity \<Rightarrow> operation_identity \<Rightarrow> lifecycle_transition \<Rightarrow> index_version option \<Rightarrow> 'r index_state \<Rightarrow>
       index_config option \<Rightarrow> ('m, 'p) member_change list \<Rightarrow> ('m, 'p, 'r) operation_record" where
  "operation_record_new index operation tr from resulting previous changes =
     \<lparr>or_format = LIFECYCLE_FORMAT_VERSION, or_index = index, or_operation = operation,
      or_transition = tr, or_from = from, or_resulting = resulting,
      or_previous_config = previous, or_changes = changes\<rparr>"

section \<open>Decoding maps and engines\<close>

text \<open>\<open>UniqueKeys::visit_map\<close>: the entries in the order read, a repeated key refused.\<close>

fun visit_map :: "('k \<Rightarrow> string) \<Rightarrow> ('k \<times> 'v) list \<Rightarrow> ('k::linorder, 'v) btree \<Rightarrow> string + ('k, 'v) btree" where
  "visit_map repeated [] entries = Inr entries"
| "visit_map repeated ((k, v) # rest) entries =
     (if bt_contains entries k then Inl (repeated k) else visit_map repeated rest (bt_insert k v entries))"

definition unique_member_table ::
    "('m \<Rightarrow> string) \<Rightarrow> ('m::linorder \<times> 'p member_entry) list \<Rightarrow> string + ('m, 'p member_entry) btree" where
  "unique_member_table dbg listed =
     visit_map (\<lambda>i. ''member table names '' @ reported (dbg i) @ '' twice'') listed bt_empty"

fun decode_engine :: "'m::linorder version_engine \<Rightarrow> snapshot_refusal + 'm version_engine" where
  "decode_engine (EngVector raw) = lift_engine Inl (hnsw_try_from raw)"
| "decode_engine (EngFts raw) = lift_engine Inr (map_err Refused (bm25_try_from raw))"

text \<open>
  \<open>serde_json\<close> on the stored records. \<open>rc_payload_read engine table\<close> reads a raw payload,
  handing the engine and the listed member table to the two decoders.
\<close>

record (overloaded) ('m, 'p, 'r, 'b) record_codec =
  rc_len :: "'b \<Rightarrow> nat"
  rc_header :: "'b \<Rightarrow> string + nat"
  rc_head_write :: "'r head_bytes \<Rightarrow> string + 'b"
  rc_head_read :: "'b \<Rightarrow> string + 'r head_bytes"
  rc_payload_write :: "('m::linorder, 'p) version_payload \<Rightarrow> string + 'b"
  rc_payload_read :: "('m version_engine \<Rightarrow> snapshot_refusal + 'm version_engine) \<Rightarrow>
     (('m \<times> 'p member_entry) list \<Rightarrow> snapshot_refusal + ('m, 'p member_entry) btree) \<Rightarrow>
     'b \<Rightarrow> snapshot_refusal + ('m, 'p) version_payload"
  rc_marker_write :: "staging_marker \<Rightarrow> string + 'b"
  rc_record_write :: "('m, 'p, 'r) operation_record \<Rightarrow> string + 'b"
  rc_record_read :: "'b \<Rightarrow> string + ('m, 'p, 'r) operation_record"

section \<open>Encoding\<close>

definition encode_with :: "('a \<Rightarrow> string + 'b) \<Rightarrow> 'a \<Rightarrow> heurema_error + 'b" where
  "encode_with write v = map_err UnencodableOperation (write v)"

definition encode_head :: "('m::linorder, 'p, 'r, 'b) record_codec \<Rightarrow> 'r index_record \<Rightarrow> heurema_error + 'b" where
  "encode_head cod r = encode_with (rc_head_write cod) \<lparr>hb_format = LIFECYCLE_FORMAT_VERSION, hb_record = r\<rparr>"

section \<open>Decoding\<close>

definition decode_error :: "string \<Rightarrow> string \<Rightarrow> heurema_error" where
  "decode_error what e = CorruptSnapshot (UndecodableRecord what e)"

definition corrupt :: "corrupt_reason \<Rightarrow> heurema_error" where
  "corrupt reason = CorruptSnapshot (InconsistentRecord reason)"

definition check_version :: "nat \<Rightarrow> heurema_error + unit" where
  "check_version found =
     ensure (found = LIFECYCLE_FORMAT_VERSION) (UnsupportedSnapshotVersion found LIFECYCLE_FORMAT_VERSION)"

definition check_format :: "('m::linorder, 'p, 'r, 'b) record_codec \<Rightarrow> 'b \<Rightarrow> heurema_error + unit" where
  "check_format cod b =
     and_then (map_err (decode_error ''lifecycle record header'') (rc_header cod b)) check_version"

definition entry_precedes :: "index_version \<Rightarrow> 'p member_entry \<Rightarrow> bool" where
  "entry_precedes v e \<longleftrightarrow> me_introduced e \<le> v \<and>
     (case me_supersedes e of None \<Rightarrow> True | Some superseded \<Rightarrow> superseded < me_introduced e)"

definition payload_try_from ::
    "('m::linorder, 'p) version_payload \<Rightarrow> heurema_error + ('m, 'p) version_payload" where
  "payload_try_from raw =
     and_then (check_version (vp_format raw)) (\<lambda>_.
     and_then (ensure (is_built_under (vp_engine raw) (vp_config raw)) (corrupt EngineOtherConfiguration)) (\<lambda>_.
     and_then (ensure (holds_exactly (vp_engine raw) (vp_members raw)) (corrupt EngineMembersDiffer)) (\<lambda>_.
     and_then (ensure (vp_predecessor raw = predecessor_of (vp_version raw)) (corrupt PredecessorNotBefore)) (\<lambda>_.
     and_then (ensure (list_all (entry_precedes (vp_version raw)) (bt_values (vp_members raw)))
       (corrupt EntryNamesLaterVersion)) (\<lambda>_.
     Inr raw)))))"

definition decode_head ::
    "('m::linorder, 'p, 'r, 'b) record_codec \<Rightarrow> 'b \<Rightarrow> index_identity \<Rightarrow> heurema_error + 'r index_record" where
  "decode_head cod b index =
     and_then (check_format cod b) (\<lambda>_.
     and_then (map_err (decode_error ''lifecycle head'') (rc_head_read cod b)) (\<lambda>head.
     and_then (ensure (ir_identity (hb_record head) = index)
       (corrupt (HeadNamesIndex index (ir_identity (hb_record head))))) (\<lambda>_.
     Inr (hb_record head))))"

definition payload_failure :: "snapshot_refusal \<Rightarrow> failure" where
  "payload_failure r =
     (case r of Refused e \<Rightarrow> Err (decode_error ''version payload'' e) | DecodePanic \<Rightarrow> Panic)"

definition decode_payload ::
    "('m \<Rightarrow> string) \<Rightarrow> ('m::linorder, 'p, 'r, 'b) record_codec \<Rightarrow> 'b \<Rightarrow> index_identity \<Rightarrow> index_version \<Rightarrow>
       ('m, 'p) version_payload res" where
  "decode_payload dbg cod b index version =
     and_then (map_err Err (check_format cod b)) (\<lambda>_.
     and_then (map_err payload_failure
       (rc_payload_read cod decode_engine (map_err Refused \<circ> unique_member_table dbg) b)) (\<lambda>raw.
     and_then (map_err Err (payload_try_from raw)) (\<lambda>payload.
     and_then (ensure (vp_index payload = index \<and> vp_version payload = version)
       (Err (corrupt (PayloadIs version index (vp_version payload) (vp_index payload))))) (\<lambda>_.
     Inr payload))))"

definition decode_operation ::
    "('m::linorder, 'p, 'r, 'b) record_codec \<Rightarrow> 'b \<Rightarrow> index_identity \<Rightarrow> operation_key \<Rightarrow>
       heurema_error + ('m, 'p, 'r) operation_record" where
  "decode_operation cod b index key =
     and_then (check_format cod b) (\<lambda>_.
     and_then (map_err (decode_error ''operation record'') (rc_record_read cod b)) (\<lambda>rcd.
     and_then (ensure (or_index rcd = index \<and> op_key (or_operation rcd) = key)
       (corrupt (RecordIs key index (op_key (or_operation rcd)) (or_index rcd)))) (\<lambda>_.
     Inr rcd)))"

section \<open>What a decoded payload is\<close>

lemma lift_engine_Inr [simp]: "lift_engine f r = Inr b \<longleftrightarrow> (\<exists>a. r = Inr a \<and> b = f a)"
  by (cases r) (auto simp: lift_engine_def)

lemma visit_map_Inr:
  "visit_map repeated listed entries = Inr m \<longleftrightarrow>
     distinct (map fst listed) \<and> (\<forall>k \<in> set (map fst listed). bt_get entries k = None) \<and>
     m = fold (\<lambda>(k, v). bt_insert k v) listed entries"
proof (induction listed arbitrary: entries)
  case (Cons kv listed)
  obtain k v where kv: "kv = (k, v)" by fastforce
  show ?case
    using Cons.IH [of "bt_insert k v entries"] kv
    by (cases "bt_get entries k") (auto simp: btree_simps split: if_splits)
qed auto

lemma bt_get_fold_insert:
  "distinct (map fst listed) \<Longrightarrow>
     bt_get (fold (\<lambda>(k, v). bt_insert k v) listed m) k = (case map_of listed k of None \<Rightarrow> bt_get m k | Some v \<Rightarrow> Some v)"
proof (induction listed arbitrary: m)
  case (Cons kv listed)
  obtain k' v where kv: "kv = (k', v)" by fastforce
  have IH: "bt_get (fold (\<lambda>(k, v). bt_insert k v) listed (bt_insert k' v m)) k =
      (case map_of listed k of None \<Rightarrow> bt_get (bt_insert k' v m) k | Some v \<Rightarrow> Some v)"
    using Cons.IH Cons.prems kv by simp
  have "k = k' \<Longrightarrow> map_of listed k = None" using Cons.prems kv by (simp add: map_of_eq_None_iff)
  then show ?case using IH kv by (cases "k = k'") (simp_all add: btree_simps split: option.split)
qed simp

text \<open>A table is read back from the listing of its own entries.\<close>

lemma unique_member_table_entries: "unique_member_table dbg (bt_entries table) = Inr table"
  unfolding unique_member_table_def visit_map_Inr
  by (auto intro!: bt_eqI simp: bt_get_fold_insert split: option.splits)

fun engine_wf :: "'m::linorder version_engine \<Rightarrow> bool" where
  "engine_wf (EngVector engine) \<longleftrightarrow> hnsw_wf engine"
| "engine_wf (EngFts engine) \<longleftrightarrow> bm25_wf engine"

lemma decode_engine_Inr [simp]: "decode_engine engine = Inr engine' \<longleftrightarrow> engine_wf engine \<and> engine' = engine"
  by (cases engine) (auto simp: hnsw_try_from_iff bm25_try_from_iff)

definition payload_ok :: "('m::linorder, 'p) version_payload \<Rightarrow> bool" where
  "payload_ok p \<longleftrightarrow> vp_format p = LIFECYCLE_FORMAT_VERSION \<and> is_built_under (vp_engine p) (vp_config p) \<and>
     holds_exactly (vp_engine p) (vp_members p) \<and> vp_predecessor p = predecessor_of (vp_version p) \<and>
     list_all (entry_precedes (vp_version p)) (bt_values (vp_members p))"

lemma payload_try_from_Inr: "payload_try_from raw = Inr p \<longleftrightarrow> payload_ok raw \<and> p = raw"
  by (auto simp: payload_try_from_def payload_ok_def check_version_def and_then_Inr_iff)

lemma predecessor_of_iff: "predecessor_of v = Some w \<longleftrightarrow> version_get v = Suc (version_get w)"
proof (cases "version_try_from (version_get v - 1)")
  case (Inl e)
  then have "version_try_from (version_get v - 1) \<noteq> Inr w" by simp
  then have "version_get w \<noteq> version_get v - 1" by simp
  then show ?thesis using Inl by (auto simp: predecessor_of_def)
next
  case (Inr u)
  then have u: "version_get v = Suc (version_get u)" using version_get_pos [of u] by simp
  moreover have "predecessor_of v = Some u" unfolding predecessor_of_def Inr by simp
  ultimately show ?thesis by (metis nat.inject option.inject version_get_eq)
qed

end
