(* ===== verification/Apply.thy ===== *)
theory Apply
  imports Encoding
begin

text \<open>
  Building what an operation publishes (\<open>crates/heurema/src/lifecycle/apply.rs\<close>): the engine
  and member table of the successor version, the new head and the audit record, in memory,
  before anything is staged. A batch is applied in ascending identity order, and each loop is a
  fold over the sorted batch that stops at the engine's first refusal.
\<close>

section \<open>What is built\<close>

record (overloaded) ('m, 'p, 'r) succession =
  su_head :: "'r index_record"
  su_record :: "('m::linorder, 'p, 'r) operation_record"
  su_payload :: "('m, 'p) version_payload option"

record (overloaded) ('m, 'p) built =
  bu_from :: "index_version option"
  bu_target :: index_version
  bu_config :: index_config
  bu_engine :: "'m::linorder version_engine"
  bu_members :: "('m, 'p member_entry) btree"
  bu_changes :: "('m, 'p) member_change list"
  bu_previous_config :: "index_config option"

text \<open>The entry a member gets, linked to the one it replaces, and the change that records it.\<close>

definition written ::
    "('m, 'p) index_member \<Rightarrow> index_version \<Rightarrow> 'p member_entry option \<Rightarrow> 'p member_entry \<times> ('m, 'p) member_change" where
  "written m target previous =
     (\<lparr>me_provenance = im_provenance m, me_introduced = target, me_supersedes = map_option me_introduced previous\<rparr>,
      case previous of None \<Rightarrow> Inserted (im_id m) | Some p \<Rightarrow> Replaced (im_id m) p)"

type_synonym ('m, 'p) table = "('m, 'p member_entry) btree"

definition insert_member ::
    "unicode \<Rightarrow> index_version \<Rightarrow> ('m::linorder, 'p) index_member \<Rightarrow>
       'm version_engine \<times> ('m, 'p) table \<times> ('m, 'p) member_change list \<Rightarrow>
       ('m version_engine \<times> ('m, 'p) table \<times> ('m, 'p) member_change list) res" where
  "insert_member uc target m st =
     (case st of (engine, table, changes) \<Rightarrow>
        and_then (engine_insert uc (im_id m) (im_content m) engine) (\<lambda>engine.
        case written m target (bt_get table (im_id m)) of (entry, change) \<Rightarrow>
          Inr (engine, bt_insert (im_id m) entry (bt_remove (im_id m) table), changes @ [change])))"

definition apply_insert ::
    "unicode \<Rightarrow> ('m::linorder, 'p) index_member list \<Rightarrow> ('m, 'p) version_payload \<Rightarrow> ('m, 'p) built res" where
  "apply_insert uc ms current =
     and_then (map_err Err (version_successor (vp_version current))) (\<lambda>target.
     and_then (fold_res (insert_member uc target) (sorted_members ms)
       (vp_engine current, vp_members current, [])) (\<lambda>(engine, table, changes).
     Inr \<lparr>bu_from = Some (vp_version current), bu_target = target, bu_config = vp_config current,
          bu_engine = engine, bu_members = table, bu_changes = changes, bu_previous_config = None\<rparr>))"

definition remove_member ::
    "'m::linorder \<Rightarrow> 'm version_engine \<times> ('m, 'p) table \<times> ('m, 'p) member_change list \<Rightarrow>
       ('m version_engine \<times> ('m, 'p) table \<times> ('m, 'p) member_change list) res" where
  "remove_member i st =
     (case st of (engine, table, changes) \<Rightarrow>
        (case bt_get table i of
           Some previous \<Rightarrow>
             and_then (engine_remove i engine) (\<lambda>engine.
             Inr (engine, bt_remove i table, changes @ [Removed i previous]))
         | None \<Rightarrow> Inr (engine, bt_remove i table, changes @ [AbsentOnRemove i])))"

definition apply_remove :: "'m::linorder list \<Rightarrow> ('m, 'p) version_payload \<Rightarrow> ('m, 'p) built res" where
  "apply_remove ids current =
     and_then (map_err Err (version_successor (vp_version current))) (\<lambda>target.
     and_then (fold_res remove_member (sort ids) (vp_engine current, vp_members current, []))
       (\<lambda>(engine, table, changes).
     Inr \<lparr>bu_from = Some (vp_version current), bu_target = target, bu_config = vp_config current,
          bu_engine = engine, bu_members = table, bu_changes = changes, bu_previous_config = None\<rparr>))"

definition rebuild_member ::
    "unicode \<Rightarrow> index_version \<Rightarrow> ('m::linorder, 'p) index_member \<Rightarrow>
       'm version_engine \<times> ('m, 'p) table \<times> ('m, 'p) table \<times> ('m, ('m, 'p) member_change) btree \<Rightarrow>
       ('m version_engine \<times> ('m, 'p) table \<times> ('m, 'p) table \<times> ('m, ('m, 'p) member_change) btree) res" where
  "rebuild_member uc target m st =
     (case st of (engine, previous_table, table, changes) \<Rightarrow>
        and_then (engine_insert uc (im_id m) (im_content m) engine) (\<lambda>engine.
        case written m target (bt_get previous_table (im_id m)) of (entry, change) \<Rightarrow>
          Inr (engine, bt_remove (im_id m) previous_table, bt_insert (im_id m) entry table,
               bt_insert (im_id m) change changes)))"

definition drop_member ::
    "'m::linorder \<times> 'p member_entry \<Rightarrow> ('m, ('m, 'p) member_change) btree \<Rightarrow> ('m, ('m, 'p) member_change) btree" where
  "drop_member e changes = bt_insert (fst e) (Dropped (fst e) (snd e)) changes"

definition apply_rebuild ::
    "unicode \<Rightarrow> index_config \<Rightarrow> ('m::linorder, 'p) index_member list \<Rightarrow> ('m, 'p) version_payload \<Rightarrow>
       ('m, 'p) built res" where
  "apply_rebuild uc config ms current =
     and_then (map_err Err (version_successor (vp_version current))) (\<lambda>target.
     and_then (fold_res (rebuild_member uc target) (sorted_members ms)
       (engine_empty config, vp_members current, bt_empty, bt_empty)) (\<lambda>(engine, previous_table, table, changes).
     Inr \<lparr>bu_from = Some (vp_version current), bu_target = target, bu_config = config,
          bu_engine = engine, bu_members = table,
          bu_changes = bt_values (fold drop_member (bt_entries previous_table) changes),
          bu_previous_config = Some (vp_config current)\<rparr>))"

definition built_empty :: "index_config \<Rightarrow> ('m::linorder, 'p) built" where
  "built_empty config =
     \<lparr>bu_from = None, bu_target = version_first, bu_config = config, bu_engine = engine_empty config,
      bu_members = bt_empty, bu_changes = [], bu_previous_config = None\<rparr>"

definition apply_destroy ::
    "('m::linorder, 'p, 'r) lifecycle_operation \<Rightarrow> operation_identity \<Rightarrow> 'r \<Rightarrow> 'r index_record \<Rightarrow>
       ('m, 'p) version_payload \<Rightarrow> ('m, 'p, 'r) succession" where
  "apply_destroy op ident retention head current =
     (let state = Destroyed (vp_version current) retention (op_key ident) in
      \<lparr>su_head = \<lparr>ir_identity = lo_index op, ir_config = ir_config head, ir_state = state\<rparr>,
       su_record = operation_record_new (lo_index op) ident TrDestroy (Some (vp_version current)) state None
         (map (\<lambda>(i, previous). Retired i previous) (bt_entries (vp_members current))),
       su_payload = None\<rparr>)"

definition published ::
    "('m::linorder, 'p, 'r) lifecycle_operation \<Rightarrow> operation_identity \<Rightarrow> ('m, 'p) built \<Rightarrow> ('m, 'p, 'r) succession" where
  "published op ident built =
     (let state = Active (bu_target built) in
      \<lparr>su_head = \<lparr>ir_identity = lo_index op, ir_config = bu_config built, ir_state = state\<rparr>,
       su_record = operation_record_new (lo_index op) ident (transition (lo_change op)) (bu_from built) state
         (bu_previous_config built) (bu_changes built),
       su_payload = Some (version_payload_new (lo_index op) (bu_target built) ident (bu_config built)
         (bu_engine built) (bu_members built))\<rparr>)"

definition successor ::
    "unicode \<Rightarrow> ('m::linorder, 'p, 'r) validated_operation \<Rightarrow> ('r index_record \<times> ('m, 'p) version_payload) option \<Rightarrow>
       ('m, 'p, 'r) succession res" where
  "successor uc vo current =
     (let op = co_operation (vo_checked vo); ident = co_identity (vo_checked vo) in
      case (lo_change op, current) of
        (Create config, None) \<Rightarrow> Inr (published op ident (built_empty config))
      | (Insert ms, Some (_, p)) \<Rightarrow> and_then (apply_insert uc ms p) (\<lambda>b. Inr (published op ident b))
      | (Remove ids, Some (_, p)) \<Rightarrow> and_then (apply_remove ids p) (\<lambda>b. Inr (published op ident b))
      | (Rebuild config ms, Some (_, p)) \<Rightarrow>
          and_then (apply_rebuild uc config ms p) (\<lambda>b. Inr (published op ident b))
      | (Destroy retention, Some (head, p)) \<Rightarrow> Inr (apply_destroy op ident retention head p)
      | (change, current) \<Rightarrow>
          fail (TransitionNotPermitted (lo_index op) (transition change)
            (if current = None then KAbsent else KActive)))"

end
