(* ===== verification/Engines.thy ===== *)
theory Engines
  imports Apply
begin

text \<open>
  The interface the lifecycle relies on in its engines: insertion and removal act on what an
  engine holds as on a map, keep it well formed, and never refuse content that its configuration
  accepts: an insertion fails only where the engine's counter has no room for it. The HNSW engine, the BM25 engine and the engine of a version provide it.
\<close>

section \<open>The interface\<close>

text \<open>
  \<open>ok\<close> is the engine's invariant, \<open>holds\<close> what it holds, \<open>fits\<close> the content it accepts,
  \<open>idx\<close> what it keeps of it, \<open>used\<close> what its counter has reached, and \<open>cost\<close> what content adds to it.
\<close>

locale engine =
  fixes ok :: "'e \<Rightarrow> bool"
    and holds :: "'e \<Rightarrow> 'm \<Rightarrow> 'c option"
    and fits :: "'x \<Rightarrow> bool"
    and idx :: "'x \<Rightarrow> 'c"
    and used :: "'e \<Rightarrow> nat"
    and cost :: "'x \<Rightarrow> nat"
    and ins :: "'m \<Rightarrow> 'x \<Rightarrow> 'e \<Rightarrow> 'e res"
    and rem :: "'m \<Rightarrow> 'e \<Rightarrow> 'e res"
  assumes ins_ok: "ok e \<Longrightarrow> fits x \<Longrightarrow> ins i x e = Inr e' \<Longrightarrow> ok e' \<and> holds e' = (holds e)(i \<mapsto> idx x)"
    and ins_used: "ok e \<Longrightarrow> fits x \<Longrightarrow> ins i x e = Inr e' \<Longrightarrow> used e' \<le> used e + cost x"
    and ins_fits: "ok e \<Longrightarrow> fits x \<Longrightarrow> ins i x e = Inl f \<Longrightarrow> f = Panic \<and> usize_max < used e + cost x"
    and used_max: "ok e \<Longrightarrow> used e \<le> usize_max"
    and rem_ok: "ok e \<Longrightarrow> rem i e = Inr e' \<Longrightarrow> ok e' \<and> holds e' = (holds e)(i := None)"
    and rem_total: "ok e \<Longrightarrow> rem i e \<noteq> Inl f"
begin

text \<open>A batch of insertions, with whatever else the loop accumulates.\<close>

lemma ins_loop:
  assumes "ok e" "\<forall>m \<in> set ms. fits (content m)"
  shows "case fold_res (\<lambda>m (e, a). and_then (ins (key m) (content m) e) (\<lambda>e. Inr (e, g m a))) ms (e, a) of
      Inl f \<Rightarrow> f = Panic \<and> usize_max < used e + (\<Sum>m\<leftarrow>ms. cost (content m))
    | Inr (e', a') \<Rightarrow> ok e' \<and> a' = fold g ms a \<and> holds e' = fold (\<lambda>m h. h(key m \<mapsto> idx (content m))) ms (holds e)"
  using assms
proof (induction ms arbitrary: e a)
  case (Cons m ms)
  show ?case
  proof (cases "ins (key m) (content m) e")
    case (Inl f)
    then show ?thesis using ins_fits [OF Cons.prems(1) _ Inl] Cons.prems(2) by fastforce
  next
    case (Inr e')
    then have "ok e'" "holds e' = (holds e)(key m \<mapsto> idx (content m))" "used e' \<le> used e + cost (content m)"
      using ins_ok [OF Cons.prems(1) _ Inr] ins_used [OF Cons.prems(1) _ Inr] Cons.prems(2) by simp_all
    then show ?thesis using Cons.IH [of e' "g m a"] Cons.prems(2) Inr
      by (auto split: sum.splits simp del: fun_upd_apply)
  qed
qed simp

text \<open>A batch of removals of those identities that \<open>p\<close> finds present.\<close>

lemma rem_loop:
  assumes "ok e" "\<And>j. holds e j = None \<longleftrightarrow> \<not> p j a" "\<And>i j a. p j (g i a) \<longleftrightarrow> j \<noteq> i \<and> p j a"
  shows "\<exists>e'. fold_res (\<lambda>i (e, a). if p i a then and_then (rem i e) (\<lambda>e. Inr (e, g i a)) else Inr (e, g i a)) ids (e, a) =
      Inr (e', fold g ids a) \<and> ok e' \<and> holds e' = (\<lambda>j. if j \<in> set ids then None else holds e j)"
  using assms(1,2)
proof (induction ids arbitrary: e a)
  case (Cons i ids)
  obtain e1 where e1: "(if p i a then and_then (rem i e) (\<lambda>e. Inr (e, g i a)) else Inr (e, g i a)) = Inr (e1, g i a)"
    "ok e1" "holds e1 = (holds e)(i := None)"
  proof (cases "p i a")
    case True
    obtain e1 where "rem i e = Inr e1" using rem_total [OF Cons.prems(1), of i] by (cases "rem i e") auto
    then show ?thesis using that True rem_ok [OF Cons.prems(1)] by simp
  next
    case False
    then have "holds e = (holds e)(i := None)" using Cons.prems(2) by (auto simp: fun_eq_iff)
    then show ?thesis using that [of e] False Cons.prems(1) by simp
  qed
  have "holds e1 j = None \<longleftrightarrow> \<not> p j (g i a)" for j using e1(3) Cons.prems(2) assms(3) by simp
  from Cons.IH [OF e1(2) this] show ?case using e1 by (auto simp: fun_eq_iff)
qed simp

end

section \<open>The vector engine\<close>

interpretation vec: engine "\<lambda>e. hnsw_wf e \<and> hx_config e = config" hnsw_vectors
  "\<lambda>v. check_vector config v = Inr ()" "\<lambda>v. v" "\<lambda>_. 0" "\<lambda>_. 0" hnsw_insert hnsw_remove
  for config :: hnsw_config
proof
  fix e e' :: "'a::linorder hnsw" and v i f
  assume e: "hnsw_wf e \<and> hx_config e = config"
  {
    assume "check_vector config v = Inr ()"
    then have "\<exists>e'. hnsw_insert i v e = Inr e' \<and> hnsw_wf e' \<and> hx_config e' = hx_config e \<and>
        hnsw_vectors e' = (hnsw_vectors e)(i \<mapsto> v)" using hnsw_insert_ok [of e v i] e by simp
    then show "hnsw_insert i v e = Inr e' \<Longrightarrow>
        (hnsw_wf e' \<and> hx_config e' = config) \<and> hnsw_vectors e' = (hnsw_vectors e)(i \<mapsto> v)"
      and "hnsw_insert i v e = Inl f \<Longrightarrow> f = Panic \<and> usize_max < 0 + 0" using e by auto
  }
  have "\<exists>e'. hnsw_remove i e = Inr e' \<and> hnsw_wf e' \<and> hx_config e' = hx_config e \<and>
      hnsw_vectors e' = (hnsw_vectors e)(i := None)"
    using hnsw_remove_ok [of e i] e by (auto simp: hnsw_remove_def)
  then show "hnsw_remove i e = Inr e' \<Longrightarrow>
      (hnsw_wf e' \<and> hx_config e' = config) \<and> hnsw_vectors e' = (hnsw_vectors e)(i := None)"
    and "hnsw_remove i e \<noteq> Inl f" using e by auto
qed simp_all

section \<open>The full-text engine\<close>

definition bm25_terms :: "'i::linorder bm25 \<Rightarrow> 'i \<Rightarrow> document_terms option" where
  "bm25_terms ix = bt_get (bm_documents ix)"

interpretation fts: engine
  "\<lambda>e. lowercase_nonempty uc \<and> bm25_wf e \<and> bm_config e = config \<and> require_simple_pipeline config = Inr ()"
  bm25_terms "\<lambda>_. True" "document_terms_of uc" bm_total "\<lambda>d. length (tokenize uc d)" "bm25_insert uc" bm25_remove
  for uc :: unicode and config :: fts_config
proof
  fix e e' :: "'a::linorder bm25" and d i f
  assume e: "lowercase_nonempty uc \<and> bm25_wf e \<and> bm_config e = config \<and> require_simple_pipeline config = Inr ()"
  show "bm25_insert uc i d e = Inr e' \<Longrightarrow>
      (lowercase_nonempty uc \<and> bm25_wf e' \<and> bm_config e' = config \<and> require_simple_pipeline config = Inr ()) \<and>
      bm25_terms e' = (bm25_terms e)(i \<mapsto> document_terms_of uc d)"
    using e bm25_insert_wf [of uc e i d e']
      insert_document_sel [of i "document_terms_of uc d" "remove_document i e" e']
    by (auto simp: bm25_terms_def bm25_insert_Inr remove_document_documents btree_simps fun_eq_iff)
  have less: "bm_total (remove_document i e) \<le> bm_total e"
    by (simp add: remove_document_def split: option.split)
  show "bm25_insert uc i d e = Inl f \<Longrightarrow> f = Panic \<and> usize_max < bm_total e + length (tokenize uc d)"
    using e less by (auto simp: bm25_insert_def and_then_Inl_iff or_panic_def insert_document_def usize_checked_add_def
        document_terms_counts(2) split: option.splits if_splits)
  show "bm25_insert uc i d e = Inr e' \<Longrightarrow> bm_total e' \<le> bm_total e + length (tokenize uc d)"
    using less by (auto simp: bm25_insert_Inr insert_document_def usize_checked_add_def document_terms_counts(2)
        split: option.splits if_splits)
  show "bm_total e \<le> usize_max" using e by (simp add: bm25_wf_def)
  show "bm25_remove i e = Inr e' \<Longrightarrow>
      (lowercase_nonempty uc \<and> bm25_wf e' \<and> bm_config e' = config \<and> require_simple_pipeline config = Inr ()) \<and>
      bm25_terms e' = (bm25_terms e)(i := None)"
    using e bm25_remove_wf [of e i e']
    by (auto simp: bm25_remove_Inr bm25_terms_def remove_document_documents btree_simps fun_eq_iff)
  show "bm25_remove i e \<noteq> Inl f" using e by (simp add: bm25_remove_def)
qed

section \<open>The engine of a version\<close>

text \<open>What an engine keeps of a member: its vector, or the terms of its document.\<close>

datatype kept = KeptVector "f32 list" | KeptTerms document_terms

fun engine_holds :: "'m::linorder version_engine \<Rightarrow> 'm \<Rightarrow> kept option" where
  "engine_holds (EngVector e) i = map_option KeptVector (hnsw_vectors e i)"
| "engine_holds (EngFts e) i = map_option KeptTerms (bm25_terms e i)"

fun kept_of :: "unicode \<Rightarrow> member_content \<Rightarrow> kept" where
  "kept_of uc (CVector v) = KeptVector v"
| "kept_of uc (CDocument d) = KeptTerms (document_terms_of uc d)"

text \<open>The corpus counter of a full-text engine, and what a document adds to it: its tokens.\<close>

fun corpus_length :: "'m::linorder version_engine \<Rightarrow> nat" where
  "corpus_length (EngVector e) = 0"
| "corpus_length (EngFts e) = bm_total e"

fun content_tokens :: "unicode \<Rightarrow> member_content \<Rightarrow> nat" where
  "content_tokens uc (CVector _) = 0"
| "content_tokens uc (CDocument d) = length (tokenize uc d)"

definition engine_ok :: "unicode \<Rightarrow> index_config \<Rightarrow> 'm::linorder version_engine \<Rightarrow> bool" where
  "engine_ok uc config e \<longleftrightarrow>
     lowercase_nonempty uc \<and> config_valid config \<and> engine_wf e \<and> is_built_under e config"

lemma engine_ok_vector: "engine_ok uc config (EngVector e) \<Longrightarrow> \<exists>c. config = CfgVector c \<and> hnsw_wf e \<and> hx_config e = c"
  by (cases config) (auto simp: engine_ok_def)

lemma engine_ok_fts: "engine_ok uc config (EngFts e) \<Longrightarrow>
    config = CfgFts fts_config_simple \<and> lowercase_nonempty uc \<and> bm25_wf e \<and> bm_config e = fts_config_simple \<and>
    require_simple_pipeline fts_config_simple = Inr ()"
  by (cases config) (auto simp: engine_ok_def require_simple_pipeline_Inr)

lemma engine_insert_vector:
  assumes "engine_ok uc config (EngVector v)" "check_content config x = Inr ()"
  obtains w c where "x = CVector w" "config = CfgVector c" "check_vector c w = Inr ()" "hnsw_wf v \<and> hx_config v = c"
  using assms engine_ok_vector [OF assms(1)] by (cases x) auto

lemma engine_insert_fts:
  assumes "engine_ok uc config (EngFts t)" "check_content config x = Inr ()"
  obtains d where "x = CDocument d"
  using assms engine_ok_fts [OF assms(1)] by (cases x) auto

lemma engine_ok_vectorI:
  "engine_ok uc config (EngVector v) \<Longrightarrow> hnsw_wf v' \<Longrightarrow> hx_config v' = hx_config v \<Longrightarrow> engine_ok uc config (EngVector v')"
  by (cases config) (auto simp: engine_ok_def)

lemma engine_ok_ftsI:
  "engine_ok uc config (EngFts t) \<Longrightarrow> bm25_wf t' \<Longrightarrow> bm_config t' = bm_config t \<Longrightarrow> engine_ok uc config (EngFts t')"
  by (cases config) (auto simp: engine_ok_def)

lemma engine_holds_update:
  "hnsw_vectors v' = (hnsw_vectors v)(i := y) \<Longrightarrow>
     engine_holds (EngVector v') = (engine_holds (EngVector v))(i := map_option KeptVector y)"
  "bm25_terms t' = (bm25_terms t)(i := z) \<Longrightarrow>
     engine_holds (EngFts t') = (engine_holds (EngFts t))(i := map_option KeptTerms z)"
  by (auto simp: fun_eq_iff)

lemma engine_insert_ok:
  assumes e: "engine_ok uc config e" and fits: "check_content config x = Inr ()"
    and run: "engine_insert uc i x e = Inr e'"
  shows "(engine_ok uc config e' \<and> engine_holds e' = (engine_holds e)(i \<mapsto> kept_of uc x)) \<and>
    corpus_length e' \<le> corpus_length e + content_tokens uc x"
proof (cases e)
  case (Inl v)
  then obtain w c where x: "x = CVector w" "check_vector c w = Inr ()" "hnsw_wf v \<and> hx_config v = c"
    using engine_insert_vector e fits by blast
  then obtain v' where v': "hnsw_insert i w v = Inr v'" "e' = EngVector v'" using run Inl by auto
  show ?thesis
    using vec.ins_ok [OF x(3,2) v'(1)] engine_ok_vectorI [of uc config v v'] engine_holds_update(1) [of v' v i] e Inl x v'
    by simp
next
  case (Inr t)
  then obtain d where x: "x = CDocument d" using engine_insert_fts e fits by blast
  then obtain t' where t': "bm25_insert uc i d t = Inr t'" "e' = EngFts t'" using run Inr by auto
  note t = engine_ok_fts [OF e [unfolded Inr]]
  have "bm_total t' \<le> bm_total t + length (tokenize uc d)" by (rule fts.ins_used [OF conjunct2 [OF t] TrueI t'(1)])
  then have "corpus_length e' \<le> corpus_length e + content_tokens uc x" by (simp add: Inr t' x)
  moreover have "engine_ok uc config e' \<and> engine_holds e' = (engine_holds e)(i \<mapsto> kept_of uc x)"
    using fts.ins_ok [OF conjunct2 [OF t] TrueI t'(1)] t engine_ok_ftsI [of uc config t t'] engine_holds_update(2) [of t' t i] e Inr x t'
    by simp
  ultimately show ?thesis by blast
qed

lemma engine_insert_fits:
  assumes e: "engine_ok uc config e" and fits: "check_content config x = Inr ()"
    and run: "engine_insert uc i x e = Inl f"
  shows "f = Panic \<and> usize_max < corpus_length e + content_tokens uc x"
proof (cases e)
  case (Inl v)
  then obtain w c where x: "x = CVector w" "check_vector c w = Inr ()" "hnsw_wf v \<and> hx_config v = c"
    using engine_insert_vector e fits by blast
  then have "hnsw_insert i w v = Inl f" using run Inl by (simp add: lift_engine_def and_then_Inl_iff)
  from vec.ins_fits [OF x(3,2) this] show ?thesis by simp
next
  case (Inr t)
  then obtain d where x: "x = CDocument d" using engine_insert_fts e fits by blast
  then have "bm25_insert uc i d t = Inl f" using run Inr by (simp add: lift_engine_def and_then_Inl_iff)
  from fts.ins_fits [OF conjunct2 [OF engine_ok_fts [OF e [unfolded Inr]]] TrueI this] show ?thesis by (simp add: Inr x)
qed

lemma engine_remove_ok:
  assumes e: "engine_ok uc config e"
  shows "\<exists>e'. engine_remove i e = Inr e' \<and> engine_ok uc config e' \<and> engine_holds e' = (engine_holds e)(i := None)"
proof (cases e)
  case (Inl v)
  then have v: "hnsw_wf v \<and> hx_config v = hx_config v" using engine_ok_vector e by blast
  obtain v' where v': "hnsw_remove i v = Inr v'" using vec.rem_total [OF v, of i] by (cases "hnsw_remove i v") auto
  then show ?thesis
    using vec.rem_ok [OF v v'] engine_ok_vectorI [of uc config v v'] engine_holds_update(1) [of v' v i] e Inl by simp
next
  case (Inr t)
  note t = engine_ok_fts [OF e [unfolded Inr]]
  obtain t' where t': "bm25_remove i t = Inr t'"
    using fts.rem_total [OF conjunct2 [OF t], of i] by (cases "bm25_remove i t") auto
  then show ?thesis
    using fts.rem_ok [OF conjunct2 [OF t] t'] t engine_ok_ftsI [of uc config t t'] engine_holds_update(2) [of t' t i] e Inr
    by simp
qed

interpretation ver: engine "engine_ok uc config" engine_holds "\<lambda>x. check_content config x = Inr ()" "kept_of uc"
  corpus_length "content_tokens uc" "engine_insert uc" engine_remove
  for uc :: unicode and config :: index_config
proof
  fix e e' :: "'a::linorder version_engine" and i f
  assume e: "engine_ok uc config e"
  show "engine_remove i e = Inr e' \<Longrightarrow> engine_ok uc config e' \<and> engine_holds e' = (engine_holds e)(i := None)"
    and "engine_remove i e \<noteq> Inl f" using engine_remove_ok [OF e, of i] by auto
  show "corpus_length e \<le> usize_max" using e by (cases e) (auto dest!: engine_ok_fts simp: bm25_wf_def)
qed (erule (2) engine_insert_ok [THEN conjunct1] engine_insert_ok [THEN conjunct2] engine_insert_fits)+

lemma engine_empty_ok:
  assumes "lowercase_nonempty uc" "config_valid config"
  shows "engine_ok uc config (engine_empty config) \<and> engine_holds (engine_empty config) = (\<lambda>_. None)"
  using assms
  by (cases config)
    (auto simp: engine_ok_def hnsw_new_wf validate_config_def hnsw_vectors_new bm25_terms_def fun_eq_iff,
      auto simp: hnsw_new_def bm25_new_def)

lemma engine_members: "holds_exactly e table \<longleftrightarrow> (\<forall>i. engine_holds e i = None \<longleftrightarrow> bt_get table i = None)"
proof -
  have keys: "bt_keys m = bt_keys table \<longleftrightarrow> (\<forall>i. bt_get m i = None \<longleftrightarrow> bt_get table i = None)" for m :: "('a, 'c) btree"
    using bt_keys_cong [of m table] by (metis bt_keys_iff option.exhaust option.distinct(1))
  show ?thesis
    by (cases e) (simp_all add: hnsw_member_ids_def bm25_member_ids_def keys hnsw_vectors_def bm25_terms_def)
qed

end
