(* ===== verification/Published.thy ===== *)
theory Published
  imports Engines Hnsw_Query
begin

text \<open>
  A published version as a reader sees it (\<open>crates/heurema/src/lifecycle/published.rs\<close>): its
  member table, and queries whose every hit carries the member's provenance and the version.
\<close>

section \<open>The reader's view\<close>

record (overloaded) ('m, 'p) published_index =
  px_identity :: index_identity
  px_version :: index_version
  px_config :: index_config
  px_engine :: "'m::linorder version_engine"
  px_members :: "('m, 'p member_entry) btree"

record ('m, 'p) index_hit =
  ih_id :: 'm
  ih_score :: f32
  ih_provenance :: 'p
  ih_version :: index_version

definition from_payload :: "('m::linorder, 'p) version_payload \<Rightarrow> ('m, 'p) published_index" where
  "from_payload p = \<lparr>px_identity = vp_index p, px_version = vp_version p, px_config = vp_config p,
     px_engine = vp_engine p, px_members = vp_members p\<rparr>"

definition published_len :: "('m::linorder, 'p) published_index \<Rightarrow> nat" where
  "published_len x = bt_len (px_members x)"

definition published_is_empty :: "('m::linorder, 'p) published_index \<Rightarrow> bool" where
  "published_is_empty x = bt_is_empty (px_members x)"

definition published_members :: "('m::linorder, 'p) published_index \<Rightarrow> ('m \<times> 'p member_entry) list" where
  "published_members x = bt_entries (px_members x)"

definition published_member :: "('m::linorder, 'p) published_index \<Rightarrow> 'm \<Rightarrow> 'p member_entry option" where
  "published_member x i = bt_get (px_members x) i"

definition hits :: "('m::linorder, 'p) published_index \<Rightarrow> ('m \<times> f32) list \<Rightarrow> heurema_error + ('m, 'p) index_hit list" where
  "hits x = map_res (\<lambda>(i, score).
     case bt_get (px_members x) i of
       None \<Rightarrow> Inl (corrupt (RankedUnknownMember (px_version x) (px_identity x)))
     | Some entry \<Rightarrow> Inr \<lparr>ih_id = i, ih_score = score, ih_provenance = me_provenance entry, ih_version = px_version x\<rparr>)"

definition query_vector ::
    "('m::linorder, 'p) published_index \<Rightarrow> f32 list \<Rightarrow> nat \<Rightarrow> ('m, 'p) index_hit list res" where
  "query_vector x v k =
     (case px_engine x of
        EngVector e \<Rightarrow> and_then (hnsw_query v k e) (\<lambda>ranked. map_err Err (hits x ranked))
      | EngFts _ \<Rightarrow> fail (FamilyMismatch FamFts FamVector))"

definition query_text ::
    "unicode \<Rightarrow> (f32 \<Rightarrow> f32) \<Rightarrow> ('m::linorder, 'p) published_index \<Rightarrow> string \<Rightarrow> nat \<Rightarrow>
       heurema_error + ('m, 'p) index_hit list" where
  "query_text uc ln x query k =
     (case px_engine x of
        EngFts e \<Rightarrow> and_then (bm25_query uc ln query k e) (hits x)
      | EngVector _ \<Rightarrow> Inl (FamilyMismatch FamVector FamFts))"

section \<open>What a query answers\<close>

text \<open>
  At most \<open>k\<close> distinct hits, each a member of the version with its entry's provenance and the
  version's number; or a refusal of the query.
\<close>

definition answers :: "('m::linorder, 'p) published_index \<Rightarrow> nat \<Rightarrow> ('m, 'p) index_hit list res \<Rightarrow> bool" where
  "answers x k r \<longleftrightarrow>
     (case r of
        Inl f \<Rightarrow> \<exists>e. f = Err e \<and> category e = CatRefused
      | Inr found \<Rightarrow> length found \<le> k \<and> distinct (map ih_id found) \<and>
          (\<forall>h \<in> set found. ih_version h = px_version x \<and>
             (\<exists>entry. published_member x (ih_id h) = Some entry \<and> ih_provenance h = me_provenance entry)))"

lemma hits_answers:
  assumes "\<forall>(i, score) \<in> set ranked. bt_get (px_members x) i \<noteq> None" "length ranked \<le> k" "distinct (map fst ranked)"
  shows "answers x k (map_err Err (hits x ranked))"
proof -
  let ?hit = "\<lambda>(i, score). \<lparr>ih_id = i, ih_score = score, ih_provenance = me_provenance (the (bt_get (px_members x) i)),
    ih_version = px_version x\<rparr>"
  have "hits x ranked = Inr (map ?hit ranked)"
    unfolding hits_def by (rule map_res_all_Inr) (use assms(1) in \<open>auto split: option.split\<close>)
  moreover have "map ih_id (map ?hit ranked) = map fst ranked" by (simp add: case_prod_beta)
  ultimately show ?thesis
    using assms by (auto simp: answers_def published_member_def case_prod_beta simp del: map_map)
qed

lemma query_vector_answers:
  assumes p: "payload_ok p" "engine_ok uc (vp_config p) (vp_engine p)"
  shows "answers (from_payload p) k (query_vector (from_payload p) v k)"
proof (cases "vp_engine p")
  case (Inl e)
  have wf: "hnsw_wf e" using p(2) Inl by (auto dest: engine_ok_vector)
  have "holds_exactly (vp_engine p) (vp_members p)" using p(1) by (simp add: payload_ok_def)
  then have "hnsw_vectors e i = None \<longleftrightarrow> bt_get (vp_members p) i = None" for i
    using Inl unfolding engine_members by simp
  then have members: "i \<in> dom (hnsw_vectors e) \<Longrightarrow> bt_get (vp_members p) i \<noteq> None" for i by (metis domIff)
  show ?thesis
  proof (cases "hnsw_query v k e")
    case (Inl f)
    then show ?thesis
      using hnsw_query_outcome [OF wf, of v k] \<open>vp_engine p = Inl e\<close>
      by (auto simp: query_vector_def from_payload_def answers_def dest: category_refused_simps(5))
  next
    case (Inr ranked)
    then have found: "length ranked \<le> k \<and> distinct (map fst ranked) \<and>
        (\<forall>hit \<in> set ranked. fst hit \<in> dom (hnsw_vectors e))"
      using hnsw_query_outcome [OF wf, of v k] by auto
    have "bt_get (vp_members p) i \<noteq> None" if "(i, score) \<in> set ranked" for i score
      using found that members [of i] by force
    then have "answers (from_payload p) k (map_err Err (hits (from_payload p) ranked))"
      using found by (intro hits_answers) (auto simp: from_payload_def)
    then show ?thesis using Inr \<open>vp_engine p = Inl e\<close> by (simp add: query_vector_def from_payload_def)
  qed
qed (simp add: query_vector_def from_payload_def answers_def)

lemma query_text_answers:
  assumes p: "payload_ok p" "engine_ok uc (vp_config p) (vp_engine p)"
  shows "answers (from_payload p) k (map_err Err (query_text uc' ln (from_payload p) text k))"
proof (cases "vp_engine p")
  case (Inr e)
  have e: "bm25_wf e" "require_simple_pipeline (bm_config e) = Inr ()" using engine_ok_fts [OF p(2) [unfolded Inr]] by auto
  have "holds_exactly (vp_engine p) (vp_members p)" using p(1) by (simp add: payload_ok_def)
  then have members: "bt_get (bm_documents e) i \<noteq> None \<Longrightarrow> bt_get (vp_members p) i \<noteq> None" for i
    using Inr unfolding engine_members by (simp add: bm25_terms_def del: not_None_eq)
  obtain ranked where r: "full_ranking (bm25_score ln e (sorted_list_of_set (set (tokenize uc' text)))) ranked"
    "bm25_query uc' ln text k e = Inr (take k ranked)" using bm25_query_ranked [OF e] by blast
  have "sorted_wrt (<) (map rank_key ranked)" using r(1) by (simp add: full_ranking_def sorted_wrt_map)
  then have "distinct (map rank_key ranked)" by (simp add: strict_sorted_iff)
  then have "distinct ranked" by (simp add: distinct_map)
  moreover have "inj_on fst (set ranked)" using r(1) by (auto simp: full_ranking_def inj_on_def)
  ultimately have "distinct (map fst ranked)" by (simp add: distinct_map)
  moreover have "bt_get (bm_documents e) i \<noteq> None" if "(i, score) \<in> set ranked" for i score
  proof -
    have "bm25_score ln e (sorted_list_of_set (set (tokenize uc' text))) i \<noteq> None"
      using r(1) that by (auto simp: full_ranking_def)
    then show ?thesis by (auto simp: bm25_score_None doc_count_def split: option.splits)
  qed
  ultimately have "answers (from_payload p) k (map_err Err (hits (from_payload p) (take k ranked)))"
    using members by (intro hits_answers) (auto simp: from_payload_def take_map [symmetric] dest: in_set_takeD)
  then show ?thesis using r(2) Inr by (simp add: query_text_def from_payload_def)
qed (simp add: query_text_def from_payload_def answers_def)

end
