(* ===== verification/Driver.thy ===== *)
theory Driver
  imports Apply Published
begin

text \<open>
  The lifecycle driver (\<open>crates/heurema/src/lifecycle/driver.rs\<close>): the steps of an operation
  over a backend, and the reads. The backend's state is passed explicitly. The writer every
  lifecycle over one backend shares is the theory \<open>Writer\<close>; here \<open>held\<close> says whether the
  calling thread already holds it, which is all that \<open>acquire\<close> refuses, and the model takes
  the calls of one operation as made while it is held.
\<close>

section \<open>The lifecycle and its outcomes\<close>

record (overloaded) ('m, 'p, 'r, 's, 'b) index_lifecycle =
  lc_backend :: "('s, 'b) lifecycle_backend"
  lc_consumer :: "('m, 'p, 'r) consumer"
  lc_codec :: "('m::linorder, 'p, 'r, 'b) record_codec"
  lc_unicode :: unicode

record 'r publish_receipt =
  pr_index :: index_identity
  pr_operation :: operation_identity
  pr_transition :: lifecycle_transition
  pr_state :: "'r index_state"
  pr_replayed :: bool

definition receipt_version :: "'r publish_receipt \<Rightarrow> index_version" where
  "receipt_version receipt = (case pr_state receipt of Active v \<Rightarrow> v | Destroyed v _ _ \<Rightarrow> v)"

record ('r, 'b) plan =
  pl_index :: index_identity
  pl_operation :: operation_identity
  pl_transition :: lifecycle_transition
  pl_resulting :: "'r index_state"
  pl_head :: 'b
  pl_record :: 'b

datatype 'b planned_write =
    PlannedVersion "'b option" index_version 'b 'b
  | PlannedDestroy 'b "index_version list"

datatype 'b staged_write =
    StagedVersion "'b option" index_version 'b
  | StagedDestroy 'b "index_version list"

datatype ('r, 'b) preparation =
    Replayed "'r publish_receipt"
  | Ready "('r, 'b) plan" "'b planned_write"

section \<open>Reads\<close>

definition not_found :: "index_identity \<Rightarrow> heurema_error" where
  "not_found index = IndexNotFound (identity_display index)"

definition lifecycle_record ::
    "('m::linorder, 'p, 'r, 's, 'b) index_lifecycle \<Rightarrow> 's \<Rightarrow> index_identity \<Rightarrow> heurema_error + 'r index_record option" where
  "lifecycle_record L s index =
     and_then (b_read_head (lc_backend L) s index) (map_opt_res (\<lambda>b. decode_head (lc_codec L) b index))"

definition active_payload ::
    "('m::linorder, 'p, 'r, 's, 'b) index_lifecycle \<Rightarrow> 's \<Rightarrow> index_identity \<Rightarrow> index_version \<Rightarrow> 'r index_record \<Rightarrow>
       ('m, 'p) version_payload option res" where
  "active_payload L s index version head =
     and_then (map_err Err (b_read_version (lc_backend L) s index version)) (\<lambda>stored.
     case stored of
       None \<Rightarrow>
         and_then (map_err Err (lifecycle_record L s index)) (\<lambda>current.
         case map_option ir_state current of
           Some (Active _) \<Rightarrow> fail (corrupt (PayloadMissing index version))
         | _ \<Rightarrow> Inr None)
     | Some b \<Rightarrow>
         and_then (decode_payload (debug (lc_consumer L)) (lc_codec L) b index version) (\<lambda>payload.
         and_then (ensure (vp_config payload = ir_config head) (Err (corrupt (ConfigurationsDiffer index version)))) (\<lambda>_.
         Inr (Some payload))))"

text \<open>The state of the head before an operation: its record and the payload it names.\<close>

definition current_version ::
    "('m::linorder, 'p, 'r, 's, 'b) index_lifecycle \<Rightarrow> 's \<Rightarrow> index_identity \<Rightarrow> 'r index_record option \<Rightarrow>
       ('r index_record \<times> ('m, 'p) version_payload) option res" where
  "current_version L s index head =
     (case head of
        None \<Rightarrow> Inr None
      | Some record \<Rightarrow>
          (case ir_state record of
             Destroyed _ _ _ \<Rightarrow> Inr None
           | Active version \<Rightarrow>
               and_then (active_payload L s index version record) (\<lambda>payload.
               case payload of
                 None \<Rightarrow> fail (HeadChanged index)
               | Some p \<Rightarrow> Inr (Some (record, p)))))"

definition replay ::
    "('m::linorder, 'p, 'r, 's, 'b) index_lifecycle \<Rightarrow> 's \<Rightarrow> ('m, 'p, 'r) checked_operation \<Rightarrow>
       heurema_error + 'r publish_receipt option" where
  "replay L s co =
     (let op = co_operation co; requested = co_identity co in
      and_then (b_read_operation (lc_backend L) s (lo_index op) (lo_key op)) (\<lambda>stored.
      case stored of
        None \<Rightarrow> Inr None
      | Some b \<Rightarrow>
          and_then (decode_operation (lc_codec L) b (lo_index op) (lo_key op)) (\<lambda>rcd.
          and_then (ensure (op_digest (or_operation rcd) = op_digest requested)
            (OperationConflict \<lparr>oc_index = lo_index op, oc_key = lo_key op,
               oc_recorded = op_digest (or_operation rcd), oc_requested = op_digest requested\<rparr>)) (\<lambda>_.
          Inr (Some \<lparr>pr_index = or_index rcd, pr_operation = or_operation rcd, pr_transition = or_transition rcd,
                     pr_state = or_resulting rcd, pr_replayed = True\<rparr>)))))"

section \<open>Preparing an operation\<close>

definition versions_up_to :: "index_version \<Rightarrow> heurema_error + index_version list" where
  "versions_up_to last_version = map_res version_try_from [1..<Suc (version_get last_version)]"

definition plan_write ::
    "('m::linorder, 'p, 'r, 'b) record_codec \<Rightarrow> ('m, 'p, 'r) succession \<Rightarrow> 'b option \<Rightarrow>
       ('m, 'p, 'r) lifecycle_operation \<Rightarrow> heurema_error + 'b planned_write" where
  "plan_write cod su expected_head op =
     (case (su_payload su, expected_head) of
        (Some payload, expected_head) \<Rightarrow>
          and_then (encode_with (rc_marker_write cod) (staging_marker_new (vp_index payload) (vp_version payload)
            (or_operation (su_record su)) (or_transition (su_record su)))) (\<lambda>marker.
          and_then (encode_with (rc_payload_write cod) payload) (\<lambda>bytes.
          Inr (PlannedVersion expected_head (vp_version payload) marker bytes)))
      | (None, Some expected_head) \<Rightarrow>
          (case ir_state (su_head su) of
             Destroyed last_version _ _ \<Rightarrow>
               and_then (versions_up_to last_version) (\<lambda>versions. Inr (PlannedDestroy expected_head versions))
           | Active _ \<Rightarrow> Inl (TransitionNotPermitted (lo_index op) (transition (lo_change op)) KActive))
      | (None, None) \<Rightarrow> Inl (TransitionNotPermitted (lo_index op) (transition (lo_change op)) KAbsent))"

definition encode_plan ::
    "('m::linorder, 'p, 'r, 'b) record_codec \<Rightarrow> ('m, 'p, 'r) succession \<Rightarrow> 'b option \<Rightarrow>
       ('m, 'p, 'r) lifecycle_operation \<Rightarrow> heurema_error + ('r, 'b) plan \<times> 'b planned_write" where
  "encode_plan cod su expected_head op =
     and_then (plan_write cod su expected_head op) (\<lambda>planned.
     and_then (encode_head cod (su_head su)) (\<lambda>head.
     and_then (encode_with (rc_record_write cod) (su_record su)) (\<lambda>rcd.
     Inr (\<lparr>pl_index = or_index (su_record su), pl_operation = or_operation (su_record su),
           pl_transition = or_transition (su_record su), pl_resulting = or_resulting (su_record su),
           pl_head = head, pl_record = rcd\<rparr>, planned))))"

definition prepare ::
    "('m::linorder, 'p, 'r, 's, 'b) index_lifecycle \<Rightarrow> bool \<Rightarrow> ('m, 'p, 'r) lifecycle_operation \<Rightarrow> 's \<Rightarrow>
       ('r, 'b) preparation res" where
  "prepare L held op s =
     and_then (map_err Err (check (lc_consumer L) op)) (\<lambda>co.
     and_then (ensure (\<not> held) (Err WriterHeld)) (\<lambda>_.
     and_then (map_err Err (b_read_head (lc_backend L) s (lo_index op))) (\<lambda>expected_head.
     and_then (map_err Err (replay L s co)) (\<lambda>replayed.
     case replayed of
       Some receipt \<Rightarrow> Inr (Replayed receipt)
     | None \<Rightarrow>
         and_then (map_err Err (map_opt_res (\<lambda>b. decode_head (lc_codec L) b (lo_index op)) expected_head)) (\<lambda>head.
         and_then (current_version L s (lo_index op) head) (\<lambda>current.
         and_then (map_err Err (permit head co)) (\<lambda>vo.
         and_then (map_err Err (b_read_staging (lc_backend L) s (lo_index op))) (\<lambda>staged.
         and_then (case staged of None \<Rightarrow> Inr () | Some (version, _) \<Rightarrow> fail (StagedStateExists (lo_index op) version)) (\<lambda>_.
         and_then (successor (lc_unicode L) vo current) (\<lambda>su.
         and_then (map_err Err (encode_plan (lc_codec L) su expected_head op)) (\<lambda>(plan, planned).
         Inr (Ready plan planned))))))))))))"

section \<open>Staging and publishing\<close>

definition stage_prepared ::
    "('m::linorder, 'p, 'r, 's, 'b) index_lifecycle \<Rightarrow> ('r, 'b) plan \<Rightarrow> 'b planned_write \<Rightarrow> 's \<Rightarrow>
       (heurema_error + 'b staged_write) \<times> 's" where
  "stage_prepared L plan planned s =
     (case planned of
        PlannedVersion expected_head version marker payload \<Rightarrow>
          (case b_stage (lc_backend L)
             \<lparr>sw_index = pl_index plan, sw_version = version, sw_key = op_key (pl_operation plan),
              sw_expected_head = expected_head, sw_marker = marker, sw_payload = payload,
              sw_head_len = rc_len (lc_codec L) (pl_head plan),
              sw_operation_len = rc_len (lc_codec L) (pl_record plan)\<rparr> s of
             (r, s') \<Rightarrow> (and_then r (\<lambda>_. Inr (StagedVersion expected_head version marker)), s'))
      | PlannedDestroy expected_head versions \<Rightarrow> (Inr (StagedDestroy expected_head versions), s))"

definition publish_staged ::
    "('m::linorder, 'p, 'r, 's, 'b) index_lifecycle \<Rightarrow> ('r, 'b) plan \<Rightarrow> 'b staged_write \<Rightarrow> 's \<Rightarrow>
       (heurema_error + 'r publish_receipt) \<times> 's" where
  "publish_staged L plan staged s =
     (case (case staged of
              StagedVersion expected_head version marker \<Rightarrow>
                b_publish (lc_backend L)
                  \<lparr>pw_index = pl_index plan, pw_version = version, pw_key = op_key (pl_operation plan),
                   pw_expected_head = expected_head, pw_marker = marker, pw_head = pl_head plan,
                   pw_operation = pl_record plan\<rparr> s
            | StagedDestroy expected_head versions \<Rightarrow>
                b_destroy (lc_backend L)
                  \<lparr>dw_index = pl_index plan, dw_key = op_key (pl_operation plan), dw_expected_head = expected_head,
                   dw_head = pl_head plan, dw_operation = pl_record plan, dw_versions = versions\<rparr> s) of
        (r, s') \<Rightarrow>
          (and_then r (\<lambda>_. Inr \<lparr>pr_index = pl_index plan, pr_operation = pl_operation plan,
             pr_transition = pl_transition plan, pr_state = pl_resulting plan, pr_replayed = False\<rparr>), s'))"

definition apply_operation ::
    "('m::linorder, 'p, 'r, 's, 'b) index_lifecycle \<Rightarrow> bool \<Rightarrow> ('m, 'p, 'r) lifecycle_operation \<Rightarrow> 's \<Rightarrow>
       'r publish_receipt res \<times> 's" where
  "apply_operation L held op s =
     (case prepare L held op s of
        Inl f \<Rightarrow> (Inl f, s)
      | Inr (Replayed receipt) \<Rightarrow> (Inr receipt, s)
      | Inr (Ready plan planned) \<Rightarrow>
          (case stage_prepared L plan planned s of
             (Inl e, s') \<Rightarrow> (fail e, s')
           | (Inr staged, s') \<Rightarrow>
               (case publish_staged L plan staged s' of (r, s'') \<Rightarrow> (map_err Err r, s''))))"

section \<open>Reading the active version\<close>

definition lifecycle_index ::
    "('m::linorder, 'p, 'r, 's, 'b) index_lifecycle \<Rightarrow> 's \<Rightarrow> index_identity \<Rightarrow> ('m, 'p) published_index res" where
  "lifecycle_index L s index =
     and_then (map_err Err (b_read_head (lc_backend L) s index)) (\<lambda>stored.
     case stored of
       None \<Rightarrow> fail (not_found index)
     | Some b \<Rightarrow>
         and_then (map_err Err (decode_head (lc_codec L) b index)) (\<lambda>head.
         case ir_state head of
           Destroyed _ _ _ \<Rightarrow> fail (not_found index)
         | Active version \<Rightarrow>
             and_then (active_payload L s index version head) (\<lambda>payload.
             case payload of
               None \<Rightarrow> fail (not_found index)
             | Some p \<Rightarrow> Inr (from_payload p))))"

end
