(* ===== verification/Successors.thy ===== *)
theory Successors
  imports Engines
begin

text \<open>
  What the built version is: the specification of a change on member tables and on what the
  engine holds, the outcomes of \<open>successor\<close> on a validated operation, and the audit record as
  a log that rewinds the table.
\<close>

section \<open>The specification of a change\<close>

definition batch :: "('m, 'p) index_member list \<Rightarrow> 'm \<Rightarrow> ('m, 'p) index_member option" where
  "batch ms i = map_of (map (\<lambda>m. (im_id m, m)) ms) i"

definition entry_of ::
    "index_version \<Rightarrow> ('m, 'p) index_member \<Rightarrow> 'p member_entry option \<Rightarrow> 'p member_entry" where
  "entry_of target m previous =
     \<lparr>me_provenance = im_provenance m, me_introduced = target, me_supersedes = map_option me_introduced previous\<rparr>"

fun spec_table ::
    "index_version \<Rightarrow> ('m, 'p, 'r) index_change \<Rightarrow> ('m \<Rightarrow> 'p member_entry option) \<Rightarrow> 'm \<Rightarrow> 'p member_entry option" where
  "spec_table target (Insert ms) old i =
     (case batch ms i of Some m \<Rightarrow> Some (entry_of target m (old i)) | None \<Rightarrow> old i)"
| "spec_table target (Remove ids) old i = (if i \<in> set ids then None else old i)"
| "spec_table target (Rebuild _ ms) old i = map_option (\<lambda>m. entry_of target m (old i)) (batch ms i)"
| "spec_table target _ old i = None"

fun spec_holds :: "unicode \<Rightarrow> ('m, 'p, 'r) index_change \<Rightarrow> ('m \<Rightarrow> kept option) \<Rightarrow> 'm \<Rightarrow> kept option" where
  "spec_holds uc (Insert ms) old i =
     (case batch ms i of Some m \<Rightarrow> Some (kept_of uc (im_content m)) | None \<Rightarrow> old i)"
| "spec_holds uc (Remove ids) old i = (if i \<in> set ids then None else old i)"
| "spec_holds uc (Rebuild _ ms) old i = map_option (\<lambda>m. kept_of uc (im_content m)) (batch ms i)"
| "spec_holds uc _ old i = None"

section \<open>The log of changes\<close>

text \<open>The entry a change displaced, and the table before the changes of a log.\<close>

fun displaced :: "('m, 'p) member_change \<Rightarrow> 'p member_entry option" where
  "displaced (Inserted _) = None"
| "displaced (Replaced _ p) = Some p"
| "displaced (Removed _ p) = Some p"
| "displaced (AbsentOnRemove _) = None"
| "displaced (Dropped _ p) = Some p"
| "displaced (Retired _ p) = Some p"

definition undo :: "('m::linorder, 'p) member_change \<Rightarrow> ('m, 'p) table \<Rightarrow> ('m, 'p) table" where
  "undo c table =
     (case displaced c of None \<Rightarrow> bt_remove (change_id c) table | Some p \<Rightarrow> bt_insert (change_id c) p table)"

definition rewind :: "('m::linorder, 'p) member_change list \<Rightarrow> ('m, 'p) table \<Rightarrow> ('m, 'p) table" where
  "rewind changes table = fold undo changes table"

text \<open>A log of the difference between two tables: one change per identity, ascending.\<close>

definition logs :: "('m::linorder, 'p) member_change list \<Rightarrow> ('m, 'p) table \<Rightarrow> ('m, 'p) table \<Rightarrow> bool" where
  "logs changes old new \<longleftrightarrow> sorted_wrt (<) (map change_id changes) \<and>
     (\<forall>c \<in> set changes. displaced c = bt_get old (change_id c)) \<and>
     (\<forall>i. i \<notin> change_id ` set changes \<longrightarrow> bt_get new i = bt_get old i)"

lemma undo_get: "bt_get (undo c table) i = (if i = change_id c then displaced c else bt_get table i)"
  by (simp add: undo_def btree_simps split: option.split)

lemma rewind_get:
  assumes "\<forall>c \<in> set changes. displaced c = f (change_id c)"
  shows "bt_get (rewind changes table) i = (if i \<in> change_id ` set changes then f i else bt_get table i)"
  using assms unfolding rewind_def by (induction changes arbitrary: table) (auto simp: undo_get)

lemma rewind_logs: "logs changes old new \<Longrightarrow> rewind changes new = old"
  by (rule bt_eqI) (auto simp: logs_def rewind_get [of _ "bt_get old"])

section \<open>The loops\<close>

lemma distinct_batch:
  assumes "distinct (map im_id ms)"
  shows "batch ms i = Some m \<longleftrightarrow> m \<in> set ms \<and> im_id m = i" "batch ms i = None \<longleftrightarrow> i \<notin> im_id ` set ms"
proof -
  have "distinct (map fst (map (\<lambda>m. (im_id m, m)) ms))" using assms by (simp add: o_def)
  then show "batch ms i = Some m \<longleftrightarrow> m \<in> set ms \<and> im_id m = i" by (auto simp: batch_def)
  show "batch ms i = None \<longleftrightarrow> i \<notin> im_id ` set ms" by (force simp: batch_def map_of_eq_None_iff)
qed

lemma batch_id: "distinct (map im_id ms) \<Longrightarrow> batch ms i = Some m \<Longrightarrow> im_id m = i"
  by (simp add: distinct_batch)

lemma batch_sorted_members: "distinct (map im_id ms) \<Longrightarrow> batch (sorted_members ms) = batch ms"
proof
  fix i
  assume "distinct (map im_id ms)"
  then show "batch (sorted_members ms) i = batch ms i"
    using distinct_batch [of ms i] distinct_batch [of "sorted_members ms" i]
    by (cases "batch ms i") auto
qed

lemma written_eq:
  "written m target previous = (entry_of target m previous,
     case previous of None \<Rightarrow> Inserted (im_id m) | Some p \<Rightarrow> Replaced (im_id m) p)"
  by (simp add: written_def entry_of_def)

lemma written_change [simp]:
  "change_id (snd (written m target previous)) = im_id m" "displaced (snd (written m target previous)) = previous"
  by (simp_all add: written_eq split: option.splits)

definition insert_entry ::
    "index_version \<Rightarrow> ('m::linorder, 'p) index_member \<Rightarrow> ('m, 'p) table \<times> ('m, 'p) member_change list \<Rightarrow>
       ('m, 'p) table \<times> ('m, 'p) member_change list" where
  "insert_entry target m st =
     (bt_insert (im_id m) (fst (written m target (bt_get (fst st) (im_id m)))) (bt_remove (im_id m) (fst st)),
      snd st @ [snd (written m target (bt_get (fst st) (im_id m)))])"

lemma insert_member_loop:
  "insert_member uc target = (\<lambda>m (e, a). and_then (engine_insert uc (im_id m) (im_content m) e)
     (\<lambda>e. Inr (e, insert_entry target m a)))"
  by (auto simp: insert_member_def insert_entry_def written_eq fun_eq_iff split: prod.splits)

lemma fold_insert_entry:
  assumes "distinct (map im_id ms)"
  shows "fold (insert_entry target) ms (t, cs) =
    (fold (\<lambda>m. bt_insert (im_id m) (entry_of target m (bt_get t (im_id m)))) ms t,
     cs @ map (\<lambda>m. snd (written m target (bt_get t (im_id m)))) ms)"
  using assms
proof (induction ms arbitrary: t cs)
  case (Cons m ms)
  let ?t = "bt_insert (im_id m) (entry_of target m (bt_get t (im_id m))) t"
  have same: "bt_get ?t (im_id n) = bt_get t (im_id n)" if "n \<in> set ms" for n
    using that Cons.prems by (simp add: btree_simps image_iff) metis
  have "fold (insert_entry target) (m # ms) (t, cs) =
      fold (insert_entry target) ms (?t, cs @ [snd (written m target (bt_get t (im_id m)))])"
    by (simp add: insert_entry_def written_eq bt_insert_remove)
  also have "\<dots> = (fold (\<lambda>m. bt_insert (im_id m) (entry_of target m (bt_get ?t (im_id m)))) ms ?t,
      (cs @ [snd (written m target (bt_get t (im_id m)))]) @ map (\<lambda>m. snd (written m target (bt_get ?t (im_id m)))) ms)"
    using Cons by simp
  also have "fold (\<lambda>m. bt_insert (im_id m) (entry_of target m (bt_get ?t (im_id m)))) ms ?t =
      fold (\<lambda>m. bt_insert (im_id m) (entry_of target m (bt_get t (im_id m)))) ms ?t"
    by (rule fold_cong) (simp_all add: same)
  also have "map (\<lambda>m. snd (written m target (bt_get ?t (im_id m)))) ms =
      map (\<lambda>m. snd (written m target (bt_get t (im_id m)))) ms"
    by (simp add: same)
  finally show ?case by simp
qed simp

lemma fold_batch_get:
  "distinct (map im_id ms) \<Longrightarrow>
     bt_get (fold (\<lambda>m. bt_insert (im_id m) (f m)) ms t) i =
       (case batch ms i of Some m \<Rightarrow> Some (f m) | None \<Rightarrow> bt_get t i)"
proof (induction ms arbitrary: t)
  case (Cons m ms)
  then have "im_id m = i \<Longrightarrow> batch ms i = None" by (auto simp: distinct_batch)
  then show ?case using Cons by (auto simp: batch_def btree_simps split: option.splits)
qed (simp add: batch_def)

lemma fold_batch_map:
  "distinct (map im_id ms) \<Longrightarrow>
     fold (\<lambda>m h. h(im_id m \<mapsto> f m)) ms h i = (case batch ms i of Some m \<Rightarrow> Some (f m) | None \<Rightarrow> h i)"
proof (induction ms arbitrary: h)
  case (Cons m ms)
  then have "im_id m = i \<Longrightarrow> batch ms i = None" by (auto simp: distinct_batch)
  then show ?case using Cons by (auto simp: batch_def split: option.splits)
qed (simp add: batch_def)

definition remove_entry ::
    "'m::linorder \<Rightarrow> ('m, 'p) table \<times> ('m, 'p) member_change list \<Rightarrow> ('m, 'p) table \<times> ('m, 'p) member_change list" where
  "remove_entry i st = (bt_remove i (fst st),
     snd st @ [case bt_get (fst st) i of Some p \<Rightarrow> Removed i p | None \<Rightarrow> AbsentOnRemove i])"

lemma remove_member_loop:
  "remove_member = (\<lambda>i (e, a). if bt_get (fst a) i \<noteq> None
     then and_then (engine_remove i e) (\<lambda>e. Inr (e, remove_entry i a)) else Inr (e, remove_entry i a))"
  by (auto simp: remove_member_def remove_entry_def fun_eq_iff split: prod.splits option.splits)

lemma fold_remove_entry:
  "distinct ids \<Longrightarrow> \<exists>t' ds. fold remove_entry ids (t, cs) = (t', cs @ ds) \<and>
     (\<forall>i. bt_get t' i = (if i \<in> set ids then None else bt_get t i)) \<and> map change_id ds = ids \<and>
     (\<forall>c \<in> set ds. displaced c = bt_get t (change_id c))"
proof (induction ids arbitrary: t cs)
  case (Cons i ids)
  let ?c = "case bt_get t i of Some p \<Rightarrow> Removed i p | None \<Rightarrow> AbsentOnRemove i"
  from Cons obtain t' ds where "fold remove_entry ids (bt_remove i t, cs @ [?c]) = (t', (cs @ [?c]) @ ds)"
    "\<forall>j. bt_get t' j = (if j \<in> set ids then None else bt_get (bt_remove i t) j)" "map change_id ds = ids"
    "\<forall>c \<in> set ds. displaced c = bt_get (bt_remove i t) (change_id c)"
    by fastforce
  moreover from this(3) Cons.prems have "i \<notin> change_id ` set ds" by (metis distinct.simps(2) list.set_map)
  moreover have "fold remove_entry (i # ids) (t, cs) = fold remove_entry ids (bt_remove i t, cs @ [?c])"
    by (simp add: remove_entry_def)
  moreover have "change_id ?c = i" "displaced ?c = bt_get t i" by (simp_all split: option.split)
  ultimately show ?case
    by (intro exI [of _ t'] exI [of _ "?c # ds"]) (auto simp: btree_simps simp del: fold_simps)
qed simp

definition rebuild_entry ::
    "index_version \<Rightarrow> ('m::linorder, 'p) index_member \<Rightarrow>
       ('m, 'p) table \<times> ('m, 'p) table \<times> ('m, ('m, 'p) member_change) btree \<Rightarrow>
       ('m, 'p) table \<times> ('m, 'p) table \<times> ('m, ('m, 'p) member_change) btree" where
  "rebuild_entry target m st =
     (case st of (old, table, changes) \<Rightarrow>
        (bt_remove (im_id m) old, bt_insert (im_id m) (fst (written m target (bt_get old (im_id m)))) table,
         bt_insert (im_id m) (snd (written m target (bt_get old (im_id m)))) changes))"

lemma rebuild_member_loop:
  "rebuild_member uc target = (\<lambda>m (e, a). and_then (engine_insert uc (im_id m) (im_content m) e)
     (\<lambda>e. Inr (e, rebuild_entry target m a)))"
  by (auto simp: rebuild_member_def rebuild_entry_def written_eq fun_eq_iff split: prod.splits)

lemma fold_rebuild_entry:
  assumes "distinct (map im_id ms)"
  shows "fold (rebuild_entry target) ms (old, table, changes) =
    (fold (\<lambda>m. bt_remove (im_id m)) ms old,
     fold (\<lambda>m. bt_insert (im_id m) (entry_of target m (bt_get old (im_id m)))) ms table,
     fold (\<lambda>m. bt_insert (im_id m) (snd (written m target (bt_get old (im_id m))))) ms changes)"
  using assms
proof (induction ms arbitrary: old table changes)
  case (Cons m ms)
  have same: "bt_get (bt_remove (im_id m) old) (im_id n) = bt_get old (im_id n)" if "n \<in> set ms" for n
    using that Cons.prems by (simp add: btree_simps image_iff) metis
  have "fold (\<lambda>n. bt_insert (im_id n) (entry_of target n (bt_get (bt_remove (im_id m) old) (im_id n)))) ms t =
      fold (\<lambda>n. bt_insert (im_id n) (entry_of target n (bt_get old (im_id n)))) ms t" for t
    by (rule fold_cong) (simp_all add: same)
  moreover have "fold (\<lambda>n. bt_insert (im_id n) (snd (written n target (bt_get (bt_remove (im_id m) old) (im_id n))))) ms t =
      fold (\<lambda>n. bt_insert (im_id n) (snd (written n target (bt_get old (im_id n))))) ms t" for t
    by (rule fold_cong) (simp_all add: same)
  ultimately show ?case using Cons by (simp add: rebuild_entry_def written_eq)
qed simp

lemma fold_remove_get:
  "bt_get (fold (\<lambda>m. bt_remove (im_id m)) ms t) i = (if i \<in> im_id ` set ms then None else bt_get t i)"
  by (induction ms arbitrary: t) (auto simp: btree_simps)

lemma fold_drop_get:
  "distinct (map fst es) \<Longrightarrow>
     bt_get (fold drop_member es changes) i =
       (case map_of es i of Some p \<Rightarrow> Some (Dropped i p) | None \<Rightarrow> bt_get changes i)"
proof (induction es arbitrary: changes)
  case (Cons e es)
  then have "fst e = i \<Longrightarrow> map_of es i = None" by (auto simp: map_of_eq_None_iff)
  then show ?case using Cons by (cases e) (auto simp: drop_member_def btree_simps split: option.splits)
qed simp

section \<open>What each change builds\<close>

fun batch_of :: "('m, 'p, 'r) index_change \<Rightarrow> ('m, 'p) index_member list" where
  "batch_of (Insert ms) = ms"
| "batch_of (Rebuild _ ms) = ms"
| "batch_of _ = []"

fun config_after :: "('m, 'p, 'r) index_change \<Rightarrow> index_config \<Rightarrow> index_config" where
  "config_after (Rebuild config _) _ = config"
| "config_after (Create config) _ = config"
| "config_after _ config = config"

fun config_replaced :: "('m, 'p, 'r) index_change \<Rightarrow> index_config \<Rightarrow> index_config option" where
  "config_replaced (Rebuild _ _) config = Some config"
| "config_replaced _ _ = None"

text \<open>The identities a change names.\<close>

fun named :: "('m, 'p, 'r) index_change \<Rightarrow> 'm set" where
  "named (Insert ms) = im_id ` set ms"
| "named (Remove ids) = set ids"
| "named (Rebuild _ ms) = im_id ` set ms"
| "named _ = {}"

text \<open>
  The corpus counter a change starts to count from, and the tokens its documents add to it. A
  rebuild counts from an empty engine.
\<close>

fun corpus_before :: "('m, 'p, 'r) index_change \<Rightarrow> 'm::linorder version_engine \<Rightarrow> nat" where
  "corpus_before (Insert _) e = corpus_length e"
| "corpus_before _ e = 0"

definition batch_tokens :: "unicode \<Rightarrow> ('m, 'p, 'r) index_change \<Rightarrow> nat" where
  "batch_tokens uc change = (\<Sum>m\<leftarrow>batch_of change. content_tokens uc (im_content m))"

text \<open>
  The outcome of building a change on a payload: the version counter is exhausted, the corpus
  counter of a full-text engine has no room for the batch, or the version the specification asks
  for, with its log.
\<close>

definition builds ::
    "unicode \<Rightarrow> ('m::linorder, 'p, 'r) index_change \<Rightarrow> ('m, 'p) version_payload \<Rightarrow> ('m, 'p) built \<Rightarrow> bool" where
  "builds uc change p b \<longleftrightarrow>
     bu_from b = Some (vp_version p) \<and> version_successor (vp_version p) = Inr (bu_target b) \<and>
     bu_config b = config_after change (vp_config p) \<and>
     bu_previous_config b = config_replaced change (vp_config p) \<and>
     engine_ok uc (bu_config b) (bu_engine b) \<and>
     engine_holds (bu_engine b) = spec_holds uc change (engine_holds (vp_engine p)) \<and>
     bt_get (bu_members b) = spec_table (bu_target b) change (bt_get (vp_members p)) \<and>
     logs (bu_changes b) (vp_members p) (bu_members b) \<and>
     change_id ` set (bu_changes b) \<subseteq> named change \<union> {i. bt_get (vp_members p) i \<noteq> None}"

definition build_failure ::
    "unicode \<Rightarrow> ('m, 'p, 'r) index_change \<Rightarrow> ('m::linorder, 'p) version_payload \<Rightarrow> failure \<Rightarrow> bool" where
  "build_failure uc change p f \<longleftrightarrow>
     (\<exists>e. version_successor (vp_version p) = Inl e \<and> f = Err e) \<or>
     f = Panic \<and> usize_max < corpus_before change (vp_engine p) + batch_tokens uc change"

lemma sorted_members_sum: "(\<Sum>m\<leftarrow>sorted_members ms. g m :: nat) = (\<Sum>m\<leftarrow>ms. g m)"
  by (simp add: sorted_members_def flip: sum_mset_sum_list)

lemma sorted_members_strict:
  "distinct (map im_id ms) \<Longrightarrow> sorted_wrt (<) (map im_id (sorted_members ms))"
  by (simp add: strict_sorted_iff sorted_members_ids)

lemma insert_builds:
  assumes "engine_ok uc (vp_config p) (vp_engine p)" "distinct (map im_id ms)"
    and "\<forall>m \<in> set ms. check_content (vp_config p) (im_content m) = Inr ()"
  shows "case apply_insert uc ms p of
      Inl f \<Rightarrow> build_failure uc (Insert ms :: ('m::linorder, 'p, 'r) index_change) p f
    | Inr b \<Rightarrow> builds uc (Insert ms :: ('m, 'p, 'r) index_change) p b"
proof (cases "version_successor (vp_version p)")
  case (Inl e)
  then show ?thesis by (simp add: apply_insert_def build_failure_def)
next
  case (Inr target)
  let ?ms = "sorted_members ms"
  have ms: "distinct (map im_id ?ms)" using assms(2) by simp
  note loop = ver.ins_loop [OF assms(1), where ms = ?ms and content = im_content and key = im_id
    and g = "insert_entry target" and a = "(vp_members p, [])", folded insert_member_loop]
  show ?thesis
  proof (cases "fold_res (insert_member uc target) ?ms (vp_engine p, vp_members p, [])")
    case (Inl f)
    then show ?thesis using loop assms(3) Inr by (auto simp: apply_insert_def build_failure_def batch_tokens_def sorted_members_sum)
  next
    case (Inr r)
    obtain e t cs where r: "r = (e, t, cs)" by (cases r)
    then have e: "engine_ok uc (vp_config p) e"
      and tcs: "(t, cs) = fold (insert_entry target) ?ms (vp_members p, [])"
      and holds: "engine_holds e = fold (\<lambda>m h. h(im_id m \<mapsto> kept_of uc (im_content m))) ?ms (engine_holds (vp_engine p))"
      using loop assms(3) Inr by simp_all
    have t: "bt_get t i = (case batch ms i of Some m \<Rightarrow> Some (entry_of target m (bt_get (vp_members p) (im_id m)))
        | None \<Rightarrow> bt_get (vp_members p) i)" for i
      using tcs by (simp add: fold_insert_entry [OF ms] fold_batch_get [OF ms] batch_sorted_members [OF assms(2)])
    have cs: "cs = map (\<lambda>m. snd (written m target (bt_get (vp_members p) (im_id m)))) ?ms"
      using tcs by (simp add: fold_insert_entry [OF ms])
    then have ids: "map change_id cs = map im_id ?ms" by simp
    then have changed: "change_id ` set cs = im_id ` set ms" by (metis list.set_map set_sorted_members)
    then have "bt_get t i = bt_get (vp_members p) i" if "i \<notin> change_id ` set cs" for i
      using that distinct_batch(2) [OF assms(2), of i] by (simp add: t)
    moreover have "sorted_wrt (<) (map change_id cs)" unfolding ids by (rule sorted_members_strict [OF assms(2)])
    moreover have "displaced c = bt_get (vp_members p) (change_id c)" if "c \<in> set cs" for c
      using that unfolding cs by auto
    ultimately have "logs cs (vp_members p) t" unfolding logs_def by blast
    moreover have "bt_get t = spec_table target (Insert ms :: ('m, 'p, 'r) index_change) (bt_get (vp_members p))"
      using batch_id [OF assms(2)] by (auto simp: fun_eq_iff t split: option.split)
    moreover have "engine_holds e = spec_holds uc (Insert ms :: ('m, 'p, 'r) index_change) (engine_holds (vp_engine p))"
      by (simp add: fun_eq_iff holds fold_batch_map [OF ms] batch_sorted_members [OF assms(2)])
    ultimately show ?thesis
      using Inr r e changed \<open>version_successor (vp_version p) = Inr target\<close>
      by (simp add: apply_insert_def builds_def)
  qed
qed

lemma remove_builds:
  assumes "engine_ok uc (vp_config p) (vp_engine p)" "distinct ids" "holds_exactly (vp_engine p) (vp_members p)"
  shows "case apply_remove ids p of
      Inl f \<Rightarrow> build_failure uc (Remove ids :: ('m::linorder, 'p, 'r) index_change) p f
    | Inr b \<Rightarrow> builds uc (Remove ids :: ('m, 'p, 'r) index_change) p b"
proof (cases "version_successor (vp_version p)")
  case (Inl e)
  then show ?thesis by (simp add: apply_remove_def build_failure_def)
next
  case (Inr target)
  have "\<exists>e'. fold_res remove_member (sort ids) (vp_engine p, vp_members p, []) =
      Inr (e', fold remove_entry (sort ids) (vp_members p, [])) \<and> engine_ok uc (vp_config p) e' \<and>
      engine_holds e' = (\<lambda>j. if j \<in> set (sort ids) then None else engine_holds (vp_engine p) j)"
    unfolding remove_member_loop
    by (rule ver.rem_loop [OF assms(1)])
      (use assms(3) engine_members in \<open>auto simp: remove_entry_def btree_simps\<close>)
  moreover obtain t cs where "fold remove_entry (sort ids) (vp_members p, []) = (t, cs)"
    and t: "\<forall>i. bt_get t i = (if i \<in> set ids then None else bt_get (vp_members p) i)"
    and ids: "map change_id cs = sort ids" "\<forall>c \<in> set cs. displaced c = bt_get (vp_members p) (change_id c)"
    using fold_remove_entry [of "sort ids" "vp_members p" "[]"] assms(2) by auto
  ultimately obtain e where run: "fold_res remove_member (sort ids) (vp_engine p, vp_members p, []) = Inr (e, t, cs)"
    "engine_ok uc (vp_config p) e"
    "engine_holds e = spec_holds uc (Remove ids :: ('m, 'p, 'r) index_change) (engine_holds (vp_engine p))"
    by (auto simp: fun_eq_iff)
  have changed: "change_id ` set cs = set ids" by (metis ids(1) list.set_map set_sort)
  then have "logs cs (vp_members p) t"
    using ids t assms(2) by (auto simp: logs_def strict_sorted_iff)
  moreover have "bt_get t = spec_table target (Remove ids :: ('m, 'p, 'r) index_change) (bt_get (vp_members p))"
    using t by (simp add: fun_eq_iff)
  ultimately show ?thesis using Inr run changed by (simp add: apply_remove_def builds_def)
qed

lemma bt_values_map: "bt_values m = map snd (bt_entries m)"
  by (simp add: bt_values_def)

lemma rebuild_builds:
  assumes "lowercase_nonempty uc" "config_valid config" "distinct (map im_id ms)"
    and "\<forall>m \<in> set ms. check_content config (im_content m) = Inr ()"
  shows "case apply_rebuild uc config ms p of
      Inl f \<Rightarrow> build_failure uc (Rebuild config ms :: ('m::linorder, 'p, 'r) index_change) p f
    | Inr b \<Rightarrow> builds uc (Rebuild config ms :: ('m, 'p, 'r) index_change) p b"
proof (cases "version_successor (vp_version p)")
  case (Inl e)
  then show ?thesis by (simp add: apply_rebuild_def build_failure_def)
next
  case (Inr target)
  let ?ms = "sorted_members ms" and ?start = "(vp_members p, bt_empty, bt_empty)"
  have ms: "distinct (map im_id ?ms)" using assms(3) by simp
  have empty: "engine_ok uc config (engine_empty config :: 'm version_engine) \<and>
      engine_holds (engine_empty config :: 'm version_engine) = (\<lambda>_. None)"
    using engine_empty_ok [OF assms(1,2)] .
  note loop = ver.ins_loop [OF conjunct1 [OF empty], where ms = ?ms and content = im_content and key = im_id
    and g = "rebuild_entry target" and a = ?start, folded rebuild_member_loop]
  have used: "corpus_length (engine_empty config :: 'm version_engine) = 0" by (cases config) (simp_all add: bm25_new_def)
  show ?thesis
  proof (cases "fold_res (rebuild_member uc target) ?ms (engine_empty config, ?start)")
    case (Inl f)
    then show ?thesis using loop assms(4) Inr used
      by (auto simp: apply_rebuild_def build_failure_def batch_tokens_def sorted_members_sum)
  next
    case (Inr r)
    obtain e old t changes where r: "r = (e, old, t, changes)" by (cases r)
    then have e: "engine_ok uc config e"
      and folded: "(old, t, changes) = fold (rebuild_entry target) ?ms ?start"
      and holds: "engine_holds e = fold (\<lambda>m h. h(im_id m \<mapsto> kept_of uc (im_content m))) ?ms (\<lambda>_. None)"
      using loop assms(4) Inr empty by simp_all
    have get: "bt_get old i = (if i \<in> im_id ` set ms then None else bt_get (vp_members p) i)"
      "bt_get t i = map_option (\<lambda>m. entry_of target m (bt_get (vp_members p) (im_id m))) (batch ms i)"
      "bt_get changes i = map_option (\<lambda>m. snd (written m target (bt_get (vp_members p) (im_id m)))) (batch ms i)" for i
      using folded by (simp_all add: fold_rebuild_entry [OF ms] fold_remove_get fold_batch_get [OF ms]
          batch_sorted_members [OF assms(3)] map_option_case split: option.split)
    let ?all = "fold drop_member (bt_entries old) changes"
    have all: "bt_get ?all i = (case bt_get old i of Some q \<Rightarrow> Some (Dropped i q) | None \<Rightarrow> bt_get changes i)" for i
      by (simp add: fold_drop_get)
    have keyed: "change_id c = i \<and> displaced c = bt_get (vp_members p) i" if "bt_get ?all i = Some c" for i c
      using that distinct_batch(1) [OF assms(3)] by (auto simp: all get split: option.splits if_splits)
    have "map change_id (bt_values ?all) = bt_keys ?all"
      unfolding bt_values_map bt_keys_def map_map o_def by (rule map_cong) (use keyed bt_entries_iff in force)+
    moreover from this have changed: "change_id ` set (bt_values ?all) = {i. bt_get ?all i \<noteq> None}"
      by (metis list.set_map set_bt_keys)
    moreover have "bt_get t i = bt_get (vp_members p) i" if "bt_get ?all i = None" for i
      using that distinct_batch(2) [OF assms(3)] by (auto simp: all get split: option.splits if_splits)
    ultimately have "logs (bt_values ?all) (vp_members p) t"
      using bt_keys_sorted [of ?all] keyed by (auto simp: logs_def bt_values_iff)
    moreover have "bt_get t = spec_table target (Rebuild config ms :: ('m, 'p, 'r) index_change) (bt_get (vp_members p))"
      using batch_id [OF assms(3)] by (auto simp: fun_eq_iff get map_option_case split: option.split)
    moreover have "engine_holds e = spec_holds uc (Rebuild config ms :: ('m, 'p, 'r) index_change) (engine_holds (vp_engine p))"
      by (simp add: fun_eq_iff holds fold_batch_map [OF ms] batch_sorted_members [OF assms(3)] map_option_case)
    moreover have "change_id ` set (bt_values ?all) \<subseteq> im_id ` set ms \<union> {i. bt_get (vp_members p) i \<noteq> None}"
      using distinct_batch(1) [OF assms(3)] unfolding changed by (auto simp: all get split: option.splits if_splits)
    ultimately show ?thesis
      using Inr r e \<open>version_successor (vp_version p) = Inr target\<close> by (simp add: apply_rebuild_def builds_def)
  qed
qed

section \<open>A validated operation on the current version\<close>

text \<open>The head an operation was permitted from, with the payload it names.\<close>

definition current_ok :: "unicode \<Rightarrow> ('r index_record \<times> ('m::linorder, 'p) version_payload) option \<Rightarrow> bool" where
  "current_ok uc current \<longleftrightarrow>
     (case current of
        None \<Rightarrow> True
      | Some (r, p) \<Rightarrow> ir_state r = Active (vp_version p) \<and> ir_config r = vp_config p \<and> ir_identity r = vp_index p \<and>
          payload_ok p \<and> engine_ok uc (vp_config p) (vp_engine p))"

lemma permit_changes:
  assumes "check c op = Inr co" "permit (map_option fst current) co = Inr vo" "current_ok uc current"
  shows "co_operation co = op" "vo_checked vo = co" "acceptable c (lo_change op)"
    and "permitted (map_option fst current) op"
  using assms by (auto simp: check_Inr permit_Inr)

lemma successor_builds:
  fixes op :: "('m::linorder, 'p, 'r) lifecycle_operation"
  assumes uc: "lowercase_nonempty uc" and check: "check c op = Inr co"
    and permit: "permit (map_option fst current) co = Inr vo" and current: "current_ok uc current"
  shows "case successor uc vo current of
      Inl f \<Rightarrow> \<exists>r p. current = Some (r, p) \<and> build_failure uc (lo_change op) p f
    | Inr s \<Rightarrow>
        (\<exists>config. lo_change op = Create config \<and> config_valid config \<and> current = None \<and>
           s = published op (co_identity co) (built_empty config)) \<or>
        (\<exists>r p b. current = Some (r, p) \<and> builds uc (lo_change op) p b \<and> s = published op (co_identity co) b) \<or>
        (\<exists>retention r p. lo_change op = Destroy retention \<and> current = Some (r, p) \<and>
           s = apply_destroy op (co_identity co) retention r p)"
proof -
  note facts = permit_changes [OF check permit current]
  show ?thesis
  proof (cases current)
    case None
    then obtain config where "lo_change op = Create config" using facts(4) by (auto simp: permitted_def)
    then show ?thesis using facts None by (simp add: successor_def)
  next
    case (Some rp)
    then obtain r p where rp: "current = Some (r, p)" by (cases rp) simp
    then have p: "payload_ok p" "engine_ok uc (vp_config p) (vp_engine p)" "ir_config r = vp_config p"
      using current by (simp_all add: current_ok_def)
    have fits: "fits_record (lo_change op) (vp_config p)" using facts(4) rp p by (simp add: permitted_def)
    show ?thesis
    proof (cases "lo_change op")
      case (Insert ms)
      then have "distinct (map im_id ms)" "\<forall>m \<in> set ms. check_content (vp_config p) (im_content m) = Inr ()"
        using facts(3) fits by (simp_all add: batch_ok_def check_content_Inr)
      then show ?thesis
        using insert_builds [OF p(2), of ms, where 'r = 'r] Insert rp facts(1,2)
        by (cases "apply_insert uc ms p") (auto simp: successor_def)
    next
      case (Remove ids)
      then show ?thesis
        using remove_builds [OF p(2), of ids, where 'r = 'r] p(1) rp facts(1-3)
        by (cases "apply_remove ids p") (auto simp: successor_def payload_ok_def)
    next
      case (Rebuild config ms)
      then have "config_valid config" "distinct (map im_id ms)"
        "\<forall>m \<in> set ms. check_content config (im_content m) = Inr ()"
        using facts(3) by (simp_all add: batch_ok_def check_content_Inr)
      then show ?thesis
        using rebuild_builds [OF uc, of config ms p, where 'r = 'r] Rebuild rp facts(1,2)
        by (cases "apply_rebuild uc config ms p") (auto simp: successor_def)
    qed (use rp facts fits in \<open>auto simp: successor_def\<close>)
  qed
qed

section \<open>The built version\<close>

lemma successor_version_less: "version_successor v = Inr w \<Longrightarrow> v < w"
  by (simp add: version_successor_Inr version_less_iff)

lemma spec_table_entry:
  fixes change :: "('m, 'p, 'r) index_change"
  assumes "spec_table target change old i = Some e"
  shows "old i = Some e \<or> (\<exists>m :: ('m, 'p) index_member. e = entry_of target m (old i))"
  using assms by (cases change) (auto split: option.splits if_splits)

lemma spec_members:
  assumes "\<forall>i. holds i = None \<longleftrightarrow> old i = None"
  shows "spec_holds uc change holds i = None \<longleftrightarrow> spec_table target change old i = None"
  using assms by (cases change) (auto split: option.splits)

lemma built_payload_ok:
  assumes b: "builds uc change p b" and p: "payload_ok p"
  shows "payload_ok (version_payload_new index (bu_target b) ident (bu_config b) (bu_engine b) (bu_members b))"
proof -
  let ?old = "bt_get (vp_members p)"
  have target: "vp_version p < bu_target b" using b by (auto simp: builds_def intro: successor_version_less)
  have "holds_exactly (vp_engine p) (vp_members p)" using p by (simp add: payload_ok_def)
  then have "holds_exactly (bu_engine b) (bu_members b)"
    using b spec_members [of "engine_holds (vp_engine p)" ?old uc change _ "bu_target b"]
    unfolding engine_members by (simp add: builds_def)
  moreover have "entry_precedes (bu_target b) e" if "bt_get (bu_members b) i = Some e" for i e
  proof -
    have old: "entry_precedes (vp_version p) x" if "?old i = Some x" for x
      using p that by (auto simp: payload_ok_def list_all_iff bt_values_iff)
    have "?old i = Some e \<or> (\<exists>m :: ('a, 'b) index_member. e = entry_of (bu_target b) m (?old i))"
      using b that by (intro spec_table_entry) (simp add: builds_def)
    then show ?thesis
      using old target by (cases "?old i") (auto simp: entry_precedes_def entry_of_def)
  qed
  moreover have "is_built_under (bu_engine b) (bu_config b)" using b unfolding builds_def engine_ok_def by blast
  ultimately show ?thesis
    by (auto simp: payload_ok_def version_payload_new_def list_all_iff bt_values_iff)
qed

lemma empty_payload_ok:
  assumes "config_valid config" "lowercase_nonempty uc"
  shows "payload_ok (version_payload_new index version_first ident config (engine_empty config) (bt_empty :: ('m::linorder, 'p) table))"
proof -
  have empty: "engine_ok uc config (engine_empty config :: 'm version_engine)"
    "engine_holds (engine_empty config :: 'm version_engine) = (\<lambda>_. None)"
    using engine_empty_ok [OF assms(2,1)] by blast+
  then have "holds_exactly (engine_empty config :: 'm version_engine) (bt_empty :: ('m, 'p) table)"
    by (simp add: engine_members)
  moreover have "predecessor_of version_first \<noteq> Some w" for w
    using predecessor_of_iff [of version_first w] version_get_pos [of w] by simp
  then have "predecessor_of version_first = None" by (cases "predecessor_of version_first") auto
  ultimately show ?thesis
    using empty(1) by (auto simp: payload_ok_def version_payload_new_def engine_ok_def list_all_iff bt_values_iff)
qed

text \<open>What a successor publishes on a current version, as the next current version.\<close>

definition published_pair ::
    "('m::linorder, 'p, 'r) succession \<Rightarrow> ('r index_record \<times> ('m, 'p) version_payload) option" where
  "published_pair s = map_option (\<lambda>q. (su_head s, q)) (su_payload s)"

lemma published_ok:
  fixes op :: "('m::linorder, 'p, 'r) lifecycle_operation" and b :: "('m, 'p) built"
  assumes "payload_ok (version_payload_new (lo_index op) (bu_target b) ident (bu_config b) (bu_engine b) (bu_members b))"
    and "engine_ok uc (bu_config b) (bu_engine b)"
  shows "current_ok uc (published_pair (published op ident b)) \<and> (\<exists>q. su_payload (published op ident b) = Some q \<and>
    payload_try_from q = Inr q \<and> decode_engine (vp_engine q) = Inr (vp_engine q))"
proof -
  have "engine_wf (bu_engine b)" using assms(2) by (simp add: engine_ok_def)
  then show ?thesis
    using assms unfolding published_def published_pair_def current_ok_def Let_def version_payload_new_def
    by (simp add: payload_try_from_Inr)
qed

lemma published_built:
  fixes op :: "('m::linorder, 'p, 'r) lifecycle_operation"
  assumes "builds uc (lo_change op) p b" "payload_ok p"
  shows "current_ok uc (published_pair (published op ident b)) \<and> (\<exists>q. su_payload (published op ident b) = Some q \<and>
    payload_try_from q = Inr q \<and> decode_engine (vp_engine q) = Inr (vp_engine q))"
  by (rule published_ok [OF built_payload_ok [OF assms]]) (use assms(1) in \<open>auto simp only: builds_def\<close>)

lemma published_empty:
  fixes op :: "('m::linorder, 'p, 'r) lifecycle_operation"
  assumes "config_valid config" "lowercase_nonempty uc"
  shows "current_ok uc (published_pair (published op ident (built_empty config))) \<and>
    (\<exists>q. su_payload (published op ident (built_empty config)) = Some q \<and>
      payload_try_from q = Inr q \<and> decode_engine (vp_engine q) = Inr (vp_engine q))"
proof (rule published_ok)
  have "engine_ok uc config (engine_empty config :: 'm version_engine)" using engine_empty_ok [OF assms(2,1)] by blast
  then show "engine_ok uc (bu_config (built_empty config :: ('m, 'p) built)) (bu_engine (built_empty config :: ('m, 'p) built))"
    by (simp add: built_empty_def)
qed (use empty_payload_ok [OF assms] in \<open>simp add: built_empty_def\<close>)

lemma destroyed_pair:
  "published_pair (apply_destroy op ident x r p) = None" "su_payload (apply_destroy op ident x r p) = None"
  by (simp_all add: apply_destroy_def published_pair_def Let_def)

text \<open>Only a Destroy publishes no payload.\<close>

lemma built_not_destroy:
  "successor uc vo current = Inr s \<Longrightarrow> su_payload s = None \<longleftrightarrow> (\<exists>x. lo_change (co_operation (vo_checked vo)) = Destroy x)"
  by (cases "lo_change (co_operation (vo_checked vo))"; cases current)
    (auto simp: successor_def published_def apply_destroy_def Let_def and_then_Inr_iff)

section \<open>A sample operation\<close>

definition sample_insert :: "(64 word, 64 word, 64 word) lifecycle_operation" where
  "sample_insert = \<lparr>lo_index = sample_index, lo_key = sample_key,
     lo_change = Insert [\<lparr>im_id = 7, im_provenance = 5, im_content = CVector [0x3f800000]\<rparr>]\<rparr>"

definition sample_identity :: operation_identity where
  "sample_identity = \<lparr>op_key = sample_key, op_digest = sha256 word_codec []\<rparr>"

definition sample_payload :: "(64 word, 64 word) version_payload" where
  "sample_payload = version_payload_new sample_index version_first sample_identity (CfgVector sample_config)
     (engine_empty (CfgVector sample_config)) bt_empty"

definition sample_head :: "64 word index_record" where
  "sample_head = \<lparr>ir_identity = sample_index, ir_config = CfgVector sample_config, ir_state = Active version_first\<rparr>"

lemma sample_current_ok: "current_ok ascii_unicode (Some (sample_head, sample_payload))"
proof -
  note valid = config_valid_vector [OF sample_config_valid]
  have "payload_ok sample_payload"
    unfolding sample_payload_def by (rule empty_payload_ok [OF valid ascii_lowercase_nonempty])
  moreover have "engine_ok ascii_unicode (CfgVector sample_config) (engine_empty (CfgVector sample_config) :: 64 word version_engine)"
    using engine_empty_ok [OF ascii_lowercase_nonempty valid] by blast
  ultimately show ?thesis
    by (simp add: current_ok_def sample_head_def sample_payload_def version_payload_new_def del: engine_empty.simps)
qed

lemma sample_check: "\<exists>co. check word_consumer sample_insert = Inr co"
proof -
  have "\<not> isl (canonical_bytes word_codec sample_insert)" by code_simp
  then obtain d where "compute_digest word_codec sample_insert = Inr d"
    by (cases "canonical_bytes word_codec sample_insert") (auto simp: compute_digest_def)
  moreover have "op_codec.truncate word_consumer = word_codec"
    by (simp add: word_consumer_def op_codec.defs word_codec_def)
  moreover have "json_provenance word_consumer = word_io" by (simp add: word_consumer_def op_codec.defs)
  moreover have "list_all f32_is_finite [0x3f800000]" using sample_vectors(2) by (simp add: check_vector_ok)
  ultimately have "check word_consumer sample_insert = Inr
      \<lparr>co_operation = sample_insert, co_identity = \<lparr>op_key = sample_key, op_digest = d\<rparr>\<rparr>"
    by (simp add: check_Inr sample_insert_def batch_ok_def word_identifies word_reads_back)
  then show ?thesis by blast
qed

text \<open>The sample insertion runs through every step.\<close>

lemma sample_run:
  obtains co vo s where "check word_consumer sample_insert = Inr co"
    "permit (map_option fst (Some (sample_head, sample_payload))) co = Inr vo"
    "successor ascii_unicode vo (Some (sample_head, sample_payload)) = Inr s"
proof -
  obtain co where co: "check word_consumer sample_insert = Inr co" using sample_check by blast
  have "permitted (Some sample_head) sample_insert"
    using sample_vectors(2) config_valid_vector [OF sample_config_valid]
    by (simp add: permitted_def sample_head_def sample_insert_def check_vector_ok del: config_valid.simps)
  then obtain vo where vo: "permit (map_option fst (Some (sample_head, sample_payload))) co = Inr vo"
    using co permit_Inr [of "Some sample_head" co "\<lparr>vo_checked = co, vo_from = from_state (Some sample_head)\<rparr>"]
    by (auto simp: check_Inr)
  have "\<not> build_failure ascii_unicode (lo_change sample_insert) sample_payload f" for f
    by (auto simp: build_failure_def sample_insert_def sample_payload_def version_payload_new_def version_successor_def
        version_next_None batch_tokens_def split: option.splits)
  then show ?thesis
    using that [OF co vo] successor_builds [OF ascii_lowercase_nonempty co vo sample_current_ok]
    by (cases "successor ascii_unicode vo (Some (sample_head, sample_payload))") auto
qed

section \<open>Properties\<close>

text \<open>
  C16: Building a validated operation on a well-formed current version never meets an engine
  refusal. It fails only when the version counter is exhausted, or by a panic when a full-text
  engine's corpus counter has no room for the tokens of the batch; otherwise what it publishes is well formed again: the
  payload passes every check of its decoder, the head names it with its configuration, and a
  Destroy publishes no payload.
\<close>
theorem successor_publishes_decodable:
  assumes "lowercase_nonempty uc" "check c op = Inr co" "permit (map_option fst current) co = Inr vo"
    and "current_ok uc current"
  shows "case successor uc vo current of
      Inl f \<Rightarrow> \<exists>r p. current = Some (r, p) \<and> build_failure uc (lo_change op) p f
    | Inr s \<Rightarrow> current_ok uc (published_pair s) \<and>
        (case su_payload s of
           None \<Rightarrow> \<exists>x. lo_change op = Destroy x
         | Some q \<Rightarrow> payload_try_from q = Inr q \<and> decode_engine (vp_engine q) = Inr (vp_engine q))"
proof (cases "successor uc vo current")
  case (Inl f)
  then show ?thesis using successor_builds [OF assms] by simp
next
  case (Inr s)
  note facts = permit_changes [OF assms(2-4)]
  show ?thesis
  proof (cases "su_payload s")
    case None
    then have "\<exists>x. lo_change op = Destroy x" using built_not_destroy [OF Inr] facts by simp
    then show ?thesis using Inr None by (simp add: current_ok_def published_pair_def)
  next
    case (Some q)
    from successor_builds [OF assms] Inr
    consider config where "config_valid config" "s = published op (co_identity co) (built_empty config)"
      | r p b where "current = Some (r, p)" "builds uc (lo_change op) p b" "s = published op (co_identity co) b"
      | x r p where "s = apply_destroy op (co_identity co) x r p"
      by auto
    then have "current_ok uc (published_pair s) \<and> (\<exists>q. su_payload s = Some q \<and>
        payload_try_from q = Inr q \<and> decode_engine (vp_engine q) = Inr (vp_engine q))"
    proof cases
      case 1
      then show ?thesis using published_empty [OF 1(1) assms(1), of op] by simp
    next
      case 2
      then have "payload_ok p" using assms(4) by (simp add: current_ok_def)
      then show ?thesis using published_built [OF 2(2)] 2(3) by simp
    next
      case 3
      then show ?thesis using Some by (simp add: destroyed_pair)
    qed
    then show ?thesis using Inr Some by simp
  qed
qed

lemma successor_publishes_decodable_witness:
  "\<exists>vo s. successor ascii_unicode vo (Some (sample_head, sample_payload)) = Inr s \<and>
     current_ok ascii_unicode (published_pair s)"
proof -
  obtain co vo s where "check word_consumer sample_insert = Inr co"
    "permit (map_option fst (Some (sample_head, sample_payload))) co = Inr vo"
    and s: "successor ascii_unicode vo (Some (sample_head, sample_payload)) = Inr s" using sample_run .
  from successor_publishes_decodable [OF ascii_lowercase_nonempty this(1,2) sample_current_ok] s
  show ?thesis by auto
qed

text \<open>
  C5: The published version is the one the change asks for. Its number follows the current
  one, its configuration is the requested or the current one, its member table is the current
  table with the change applied, every written entry linked to the one it replaces, and its
  engine holds exactly what the change leaves of the current members.
\<close>
theorem built_version_refines_spec:
  assumes "lowercase_nonempty uc" "check c op = Inr co" "permit (Some r) co = Inr vo"
    and "current_ok uc (Some (r, p))" "successor uc vo (Some (r, p)) = Inr s" "su_payload s = Some q"
  shows "version_get (vp_version q) = Suc (version_get (vp_version p)) \<and>
    vp_config q = config_after (lo_change op) (vp_config p) \<and>
    bt_get (vp_members q) = spec_table (vp_version q) (lo_change op) (bt_get (vp_members p)) \<and>
    engine_holds (vp_engine q) = spec_holds uc (lo_change op) (engine_holds (vp_engine p))"
proof -
  have "permit (map_option fst (Some (r, p))) co = Inr vo" using assms(3) by simp
  from successor_builds [OF assms(1,2) this assms(4)] assms(5,6)
  obtain b where b: "builds uc (lo_change op) p b" "s = published op (co_identity co) b"
    by (auto simp: destroyed_pair)
  then have "q = version_payload_new (lo_index op) (bu_target b) (co_identity co) (bu_config b) (bu_engine b) (bu_members b)"
    using assms(6) by (simp add: published_def Let_def)
  then show ?thesis using b(1) by (auto simp: builds_def version_payload_new_def version_successor_Inr)
qed

lemma built_version_refines_spec_witness:
  "\<exists>vo s q. successor ascii_unicode vo (Some (sample_head, sample_payload)) = Inr s \<and> su_payload s = Some q \<and>
     version_get (vp_version q) = 2 \<and> engine_holds (vp_engine q) = [7 \<mapsto> KeptVector [0x3f800000]]"
proof -
  obtain co vo s where run: "check word_consumer sample_insert = Inr co"
    "permit (map_option fst (Some (sample_head, sample_payload))) co = Inr vo"
    and s: "successor ascii_unicode vo (Some (sample_head, sample_payload)) = Inr s" using sample_run .
  have "lo_change (co_operation (vo_checked vo)) = lo_change sample_insert"
    using permit_changes [OF run sample_current_ok] by simp
  then obtain q where q: "su_payload s = Some q"
    using built_not_destroy [OF s] by (cases "su_payload s") (auto simp: sample_insert_def)
  have "permit (Some sample_head) co = Inr vo" using run(2) by simp
  from built_version_refines_spec [OF ascii_lowercase_nonempty run(1) this sample_current_ok s q]
  have "version_get (vp_version q) = 2"
    "engine_holds (vp_engine q) = spec_holds ascii_unicode (lo_change sample_insert) (engine_holds (vp_engine sample_payload))"
    by (simp_all add: sample_payload_def version_payload_new_def)
  moreover have "spec_holds ascii_unicode (lo_change sample_insert) (engine_holds (vp_engine sample_payload)) = [7 \<mapsto> KeptVector [0x3f800000]]"
    by (auto simp: fun_eq_iff sample_insert_def sample_payload_def version_payload_new_def batch_def hnsw_vectors_new)
  ultimately show ?thesis using s q by metis
qed

text \<open>
  C17: The audit record explains the transition without the version it started from. It names
  that version and the configuration a rebuild replaced, lists one change per identity in
  ascending order, and undoing its changes on the published member table, or on no members
  after a Destroy, gives back the member table the operation was applied to.
\<close>
theorem audit_record_rewinds:
  assumes "lowercase_nonempty uc" "check c op = Inr co" "permit (Some r) co = Inr vo"
    and "current_ok uc (Some (r, p))" "successor uc vo (Some (r, p)) = Inr s"
  shows "rewind (or_changes (su_record s)) (case su_payload s of Some q \<Rightarrow> vp_members q | None \<Rightarrow> bt_empty) = vp_members p \<and>
    sorted_wrt (<) (map change_id (or_changes (su_record s))) \<and>
    or_from (su_record s) = Some (vp_version p) \<and> or_resulting (su_record s) = ir_state (su_head s) \<and>
    (case or_previous_config (su_record s) of Some config \<Rightarrow> config | None \<Rightarrow> ir_config (su_head s)) = vp_config p"
proof -
  have "permit (map_option fst (Some (r, p))) co = Inr vo" using assms(3) by simp
  from successor_builds [OF assms(1,2) this assms(4)] assms(5)
  consider b where "builds uc (lo_change op) p b" "s = published op (co_identity co) b"
    | x where "s = apply_destroy op (co_identity co) x r p"
    by auto
  then show ?thesis
  proof cases
    case 1
    then have "logs (bu_changes b) (vp_members p) (bu_members b)" by (simp add: builds_def)
    moreover have "config_replaced (lo_change op) (vp_config p) = None \<Longrightarrow>
        config_after (lo_change op) (vp_config p) = vp_config p" if "\<nexists>x. lo_change op = Create x"
      using that by (cases "lo_change op") simp_all
    moreover have "\<nexists>x. lo_change op = Create x"
      using permit_changes(4) [OF assms(2) \<open>permit (map_option fst (Some (r, p))) co = Inr vo\<close> assms(4)]
      by (auto simp: permitted_def)
    moreover have "config_replaced (lo_change op) (vp_config p) = Some x \<Longrightarrow> x = vp_config p" for x
      by (cases "lo_change op") simp_all
    ultimately show ?thesis
      using 1 rewind_logs [of "bu_changes b"]
      by (auto simp: published_def Let_def operation_record_new_def version_payload_new_def builds_def logs_def
          split: option.split)
  next
    case 2
    let ?changes = "map (\<lambda>(i, previous). Retired i previous) (bt_entries (vp_members p))"
    have ids: "map change_id ?changes = bt_keys (vp_members p)"
      by (simp add: bt_keys_def o_def case_prod_beta)
    then have "change_id ` set ?changes = {i. bt_get (vp_members p) i \<noteq> None}" by (metis list.set_map set_bt_keys)
    then have "logs ?changes (vp_members p) bt_empty"
      using bt_keys_sorted [of "vp_members p"] ids
      by (auto simp: logs_def bt_entries_iff)
    then show ?thesis
      using 2 rewind_logs [of ?changes] assms(4)
      by (simp add: apply_destroy_def Let_def operation_record_new_def logs_def current_ok_def)
  qed
qed

lemma audit_record_rewinds_witness:
  "\<exists>vo s. successor ascii_unicode vo (Some (sample_head, sample_payload)) = Inr s \<and>
     or_from (su_record s) = Some version_first \<and>
     rewind (or_changes (su_record s)) (case su_payload s of Some q \<Rightarrow> vp_members q | None \<Rightarrow> bt_empty) = bt_empty"
proof -
  obtain co vo s where run: "check word_consumer sample_insert = Inr co"
    "permit (map_option fst (Some (sample_head, sample_payload))) co = Inr vo"
    and s: "successor ascii_unicode vo (Some (sample_head, sample_payload)) = Inr s" using sample_run .
  have "permit (Some sample_head) co = Inr vo" using run(2) by simp
  from audit_record_rewinds [OF ascii_lowercase_nonempty run(1) this sample_current_ok s] s
  show ?thesis by (auto simp: sample_payload_def version_payload_new_def)
qed

end
