(* ===== verification/Catalogue.thy ===== *)
theory Catalogue
  imports Driver Successors
begin

text \<open>
  The decoded view of a lifecycle store: what its bytes stand for, the invariant of the bytes
  the lifecycle writes, the specification of an operation on the decoded catalogue, and what
  each storage write makes of the catalogue. Nothing here calls a backend.
\<close>

section \<open>What is stored faithfully\<close>

fun storable_state :: "('m, 'p, 'r, 'z) consumer_scheme \<Rightarrow> 'r index_state \<Rightarrow> bool" where
  "storable_state c (Active _) \<longleftrightarrow> True"
| "storable_state c (Destroyed _ retention _) \<longleftrightarrow> reads_back (json_retention c) retention"

definition storable_table :: "('m::linorder, 'p, 'r, 'z) consumer_scheme \<Rightarrow> ('m, 'p) table \<Rightarrow> bool" where
  "storable_table c t \<longleftrightarrow>
     (\<forall>i e. bt_get t i = Some e \<longrightarrow> identifies c i \<and> reads_back (json_provenance c) (me_provenance e))"

definition storable_change :: "('m, 'p, 'r, 'z) consumer_scheme \<Rightarrow> ('m, 'p) member_change \<Rightarrow> bool" where
  "storable_change c change \<longleftrightarrow> identifies c (change_id change) \<and>
     (\<forall>e. displaced change = Some e \<longrightarrow> reads_back (json_provenance c) (me_provenance e))"

text \<open>
  \<open>serde_json\<close> writes and reads back the stored records of values that read back one by one;
  a payload's engine and member table pass through the decoders of the derived code.
\<close>

definition codec_ok ::
    "('m::linorder, 'p, 'r, 'z) consumer_scheme \<Rightarrow> ('m, 'p, 'r, 'b) record_codec \<Rightarrow> bool" where
  "codec_ok c cod \<longleftrightarrow>
     (\<forall>h. storable_state c (ir_state (hb_record h)) \<longrightarrow>
        (\<exists>b. rc_head_write cod h = Inr b \<and> rc_header cod b = Inr (hb_format h) \<and> rc_head_read cod b = Inr h)) \<and>
     (\<forall>p. storable_table c (vp_members p) \<and> engine_wf (vp_engine p) \<longrightarrow>
        (\<exists>b. rc_payload_write cod p = Inr b \<and> rc_header cod b = Inr (vp_format p) \<and>
          (\<forall>engine_of table_of. rc_payload_read cod engine_of table_of b =
             and_then (engine_of (vp_engine p)) (\<lambda>e.
             and_then (table_of (bt_entries (vp_members p))) (\<lambda>t.
             Inr (p\<lparr>vp_engine := e, vp_members := t\<rparr>)))))) \<and>
     (\<forall>m. \<exists>b. rc_marker_write cod m = Inr b) \<and>
     (\<forall>r. storable_state c (or_resulting r) \<and> (\<forall>change \<in> set (or_changes r). storable_change c change) \<longrightarrow>
        (\<exists>b. rc_record_write cod r = Inr b \<and> rc_header cod b = Inr (or_format r) \<and> rc_record_read cod b = Inr r))"

lemma head_reads_back:
  assumes "codec_ok c cod" "storable_state c (ir_state r)"
  shows "\<exists>b. encode_head cod r = Inr b \<and> decode_head cod b (ir_identity r) = Inr r"
proof -
  let ?h = "\<lparr>hb_format = LIFECYCLE_FORMAT_VERSION, hb_record = r\<rparr>"
  have "storable_state c (ir_state (hb_record ?h))" using assms(2) by simp
  then obtain b where "rc_head_write cod ?h = Inr b" "rc_header cod b = Inr (hb_format ?h)" "rc_head_read cod b = Inr ?h"
    using assms(1) unfolding codec_ok_def by blast
  then show ?thesis
    by (simp add: encode_head_def encode_with_def decode_head_def check_format_def check_version_def)
qed

lemma payload_reads_back:
  assumes "codec_ok c cod" "storable_table c (vp_members p)" "engine_wf (vp_engine p)" "payload_ok p"
  shows "\<exists>b. encode_with (rc_payload_write cod) p = Inr b \<and>
    decode_payload dbg cod b (vp_index p) (vp_version p) = Inr p"
proof -
  obtain b where b: "rc_payload_write cod p = Inr b" "rc_header cod b = Inr (vp_format p)"
    "\<And>engine_of table_of. rc_payload_read cod engine_of table_of b =
       and_then (engine_of (vp_engine p)) (\<lambda>e. and_then (table_of (bt_entries (vp_members p))) (\<lambda>t.
       Inr (p\<lparr>vp_engine := e, vp_members := t\<rparr>)))"
    using assms(1-3) unfolding codec_ok_def by blast
  have "decode_engine (vp_engine p) = Inr (vp_engine p)" using assms(3) by simp
  moreover have "payload_try_from p = Inr p" "vp_format p = LIFECYCLE_FORMAT_VERSION"
    using assms(4) by (simp_all add: payload_try_from_Inr payload_ok_def)
  ultimately show ?thesis
    using b(1,2) by (simp add: encode_with_def decode_payload_def check_format_def check_version_def b(3)
        unique_member_table_entries del: decode_engine_Inr)
qed

lemma record_reads_back:
  assumes "codec_ok c cod" "storable_state c (or_resulting r)" "\<forall>change \<in> set (or_changes r). storable_change c change"
    and "or_format r = LIFECYCLE_FORMAT_VERSION"
  shows "\<exists>b. encode_with (rc_record_write cod) r = Inr b \<and>
    decode_operation cod b (or_index r) (op_key (or_operation r)) = Inr r"
proof -
  obtain b where "rc_record_write cod r = Inr b" "rc_header cod b = Inr (or_format r)" "rc_record_read cod b = Inr r"
    using assms(1-3) unfolding codec_ok_def by blast
  then show ?thesis
    using assms(4) by (simp add: encode_with_def decode_operation_def check_format_def check_version_def)
qed

lemma marker_written: "codec_ok c cod \<Longrightarrow> \<exists>b. encode_with (rc_marker_write cod) m = Inr b"
  unfolding codec_ok_def encode_with_def by (metis map_err_simps(2))

section \<open>The catalogue a store holds\<close>

text \<open>
  The decoded view: each index's head, the payload its head names, its operation records, and
  the versions staged for it.
\<close>

record (overloaded) ('m, 'p, 'r) catalogue =
  ca_head :: "index_identity \<Rightarrow> 'r index_record option"
  ca_payload :: "index_identity \<Rightarrow> ('m::linorder, 'p) version_payload option"
  ca_record :: "index_identity \<Rightarrow> operation_key \<Rightarrow> ('m, 'p, 'r) operation_record option"
  ca_staged :: "index_identity \<Rightarrow> index_version set"

definition opt_right :: "'e + 'a \<Rightarrow> 'a option" where
  "opt_right r = (case r of Inl _ \<Rightarrow> None | Inr a \<Rightarrow> Some a)"

lemma opt_right_simps [simp]: "opt_right (Inl e) = None" "opt_right (Inr a) = Some a"
  "opt_right r = Some a \<longleftrightarrow> r = Inr a"
  by (auto simp: opt_right_def split: sum.splits)

definition head_of :: "('m::linorder, 'p, 'r, 's, 'b) index_lifecycle \<Rightarrow> 'b store \<Rightarrow> index_identity \<Rightarrow> 'r index_record option" where
  "head_of L st i = Option.bind (st_heads st i) (\<lambda>b. opt_right (decode_head (lc_codec L) b i))"

definition payload_of ::
    "('m::linorder, 'p, 'r, 's, 'b) index_lifecycle \<Rightarrow> 'b store \<Rightarrow> index_identity \<Rightarrow> index_version \<Rightarrow>
       ('m, 'p) version_payload option" where
  "payload_of L st i v =
     Option.bind (st_versions st i v) (\<lambda>b. opt_right (decode_payload (debug (lc_consumer L)) (lc_codec L) b i v))"

definition record_of ::
    "('m::linorder, 'p, 'r, 's, 'b) index_lifecycle \<Rightarrow> 'b store \<Rightarrow> index_identity \<Rightarrow> operation_key \<Rightarrow>
       ('m, 'p, 'r) operation_record option" where
  "record_of L st i k = Option.bind (st_operations st i k) (\<lambda>b. opt_right (decode_operation (lc_codec L) b i k))"

definition active_of ::
    "('m::linorder, 'p, 'r, 's, 'b) index_lifecycle \<Rightarrow> 'b store \<Rightarrow> index_identity \<Rightarrow> ('m, 'p) version_payload option" where
  "active_of L st i =
     (case map_option ir_state (head_of L st i) of Some (Active v) \<Rightarrow> payload_of L st i v | _ \<Rightarrow> None)"

definition catalogue_of ::
    "('m::linorder, 'p, 'r, 's, 'b) index_lifecycle \<Rightarrow> 'b store \<Rightarrow> ('m, 'p, 'r) catalogue" where
  "catalogue_of L st = \<lparr>ca_head = head_of L st, ca_payload = active_of L st, ca_record = record_of L st,
     ca_staged = (\<lambda>i. {v. st_staging st i v \<noteq> None})\<rparr>"

definition ca_current ::
    "('m::linorder, 'p, 'r) catalogue \<Rightarrow> index_identity \<Rightarrow> ('r index_record \<times> ('m, 'p) version_payload) option" where
  "ca_current a i =
     (case (ca_head a i, ca_payload a i) of (Some r, Some p) \<Rightarrow> Some (r, p) | _ \<Rightarrow> None)"

text \<open>
  The invariant of a store the lifecycle writes: heads and records decode, an active head names
  a stored payload it agrees with, and every stored version is staged or no later than the
  active one.
\<close>

definition head_ok :: "('m::linorder, 'p, 'r, 's, 'b) index_lifecycle \<Rightarrow> 'b store \<Rightarrow> index_identity \<Rightarrow> bool" where
  "head_ok L st i \<longleftrightarrow> st_heads st i = None \<or>
     (\<exists>r. head_of L st i = Some r \<and> storable_state (lc_consumer L) (ir_state r) \<and>
        (\<forall>v. ir_state r = Active v \<longrightarrow>
           (\<exists>p. payload_of L st i v = Some p \<and> current_ok (lc_unicode L) (Some (r, p)) \<and>
              storable_table (lc_consumer L) (vp_members p))))"

definition stored_ok :: "('m::linorder, 'p, 'r, 's, 'b) index_lifecycle \<Rightarrow> 'b store \<Rightarrow> bool" where
  "stored_ok L st \<longleftrightarrow> (\<forall>i. head_ok L st i \<and>
     (\<forall>v. st_versions st i v \<noteq> None \<longrightarrow> st_staging st i v \<noteq> None \<or>
        (\<exists>p. active_of L st i = Some p \<and> v \<le> vp_version p)) \<and>
     (\<forall>k. st_operations st i k \<noteq> None \<longrightarrow> record_of L st i k \<noteq> None))"

lemma stored_ok_empty [simp]: "stored_ok L empty_store"
  by (simp add: stored_ok_def head_ok_def empty_store_def)

lemma head_of_Some: "head_of L st i = Some r \<longleftrightarrow> (\<exists>b. st_heads st i = Some b \<and> decode_head (lc_codec L) b i = Inr r)"
  by (auto simp: head_of_def bind_eq_Some_conv)

lemma payload_of_Some: "payload_of L st i v = Some p \<longleftrightarrow>
    (\<exists>b. st_versions st i v = Some b \<and> decode_payload (debug (lc_consumer L)) (lc_codec L) b i v = Inr p)"
  by (auto simp: payload_of_def bind_eq_Some_conv)

lemma record_of_Some: "record_of L st i k = Some r \<longleftrightarrow>
    (\<exists>b. st_operations st i k = Some b \<and> decode_operation (lc_codec L) b i k = Inr r)"
  by (auto simp: record_of_def bind_eq_Some_conv)

text \<open>What the head of an index can be.\<close>

lemma head_cases:
  assumes "stored_ok L st"
  obtains (absent) "st_heads st i = None" "head_of L st i = None" "active_of L st i = None"
    | (active) b r p where "st_heads st i = Some b" "decode_head (lc_codec L) b i = Inr r" "head_of L st i = Some r"
        "ir_state r = Active (vp_version p)" "payload_of L st i (vp_version p) = Some p" "active_of L st i = Some p"
        "current_ok (lc_unicode L) (Some (r, p))" "storable_table (lc_consumer L) (vp_members p)"
    | (destroyed) b r v x k where "st_heads st i = Some b" "decode_head (lc_codec L) b i = Inr r"
        "head_of L st i = Some r" "ir_state r = Destroyed v x k" "active_of L st i = None"
proof (cases "st_heads st i")
  case None
  then show ?thesis using absent by (simp add: head_of_def active_of_def)
next
  case (Some b)
  have "head_ok L st i" using assms by (simp add: stored_ok_def)
  with Some obtain r where r: "head_of L st i = Some r"
    "\<And>v. ir_state r = Active v \<Longrightarrow> \<exists>p. payload_of L st i v = Some p \<and> current_ok (lc_unicode L) (Some (r, p)) \<and>
       storable_table (lc_consumer L) (vp_members p)"
    unfolding head_ok_def by (metis option.distinct(1))
  then have b: "decode_head (lc_codec L) b i = Inr r" using Some by (simp add: head_of_Some)
  show ?thesis
  proof (cases "ir_state r")
    case (Active v)
    then obtain p where p: "payload_of L st i v = Some p" "current_ok (lc_unicode L) (Some (r, p))"
      "storable_table (lc_consumer L) (vp_members p)" using r(2) by blast
    then have "v = vp_version p" using Active by (simp add: current_ok_def)
    then show ?thesis using active [OF Some b r(1), of p] Active p r(1) by (simp add: active_of_def)
  next
    case (Destroyed v x k)
    then show ?thesis using destroyed [OF Some b r(1)] r(1) by (simp add: active_of_def)
  qed
qed

section \<open>The specification of an operation\<close>

definition receipt_of :: "('m, 'p, 'r) operation_record \<Rightarrow> bool \<Rightarrow> 'r publish_receipt" where
  "receipt_of rcd replayed = \<lparr>pr_index = or_index rcd, pr_operation = or_operation rcd, pr_transition = or_transition rcd,
     pr_state = or_resulting rcd, pr_replayed = replayed\<rparr>"

definition ca_publish ::
    "index_identity \<Rightarrow> operation_key \<Rightarrow> ('m::linorder, 'p, 'r) succession \<Rightarrow> ('m, 'p, 'r) catalogue \<Rightarrow> ('m, 'p, 'r) catalogue" where
  "ca_publish i k su a = a\<lparr>ca_head := (ca_head a)(i \<mapsto> su_head su), ca_payload := (ca_payload a)(i := su_payload su),
     ca_record := set2 i k (Some (su_record su)) (ca_record a)\<rparr>"

definition ca_stage :: "index_identity \<Rightarrow> index_version \<Rightarrow> ('m::linorder, 'p, 'r) catalogue \<Rightarrow> ('m, 'p, 'r) catalogue" where
  "ca_stage i v a = a\<lparr>ca_staged := (ca_staged a)(i := insert v (ca_staged a i))\<rparr>"

text \<open>
  Applying an operation to a catalogue: refused by its own checks, replayed or in conflict with
  the record under its key, refused by the permission step, by an orphan staged version or by
  the build, or published whole. Only the last changes the catalogue.
\<close>

inductive lifecycle_step ::
    "unicode \<Rightarrow> ('m::linorder, 'p, 'r) consumer \<Rightarrow> ('m, 'p, 'r) lifecycle_operation \<Rightarrow> ('m, 'p, 'r) catalogue \<Rightarrow>
       failure + 'r publish_receipt \<Rightarrow> ('m, 'p, 'r) catalogue \<Rightarrow> bool"
  for uc c op a where
  step_refused: "check c op = Inl e \<Longrightarrow> lifecycle_step uc c op a (fail e) a"
| step_replayed: "check c op = Inr co \<Longrightarrow> ca_record a (lo_index op) (lo_key op) = Some rcd \<Longrightarrow>
    op_digest (or_operation rcd) = op_digest (co_identity co) \<Longrightarrow>
    lifecycle_step uc c op a (Inr (receipt_of rcd True)) a"
| step_conflict: "check c op = Inr co \<Longrightarrow> ca_record a (lo_index op) (lo_key op) = Some rcd \<Longrightarrow>
    op_digest (or_operation rcd) \<noteq> op_digest (co_identity co) \<Longrightarrow>
    lifecycle_step uc c op a (fail (OperationConflict \<lparr>oc_index = lo_index op, oc_key = lo_key op,
      oc_recorded = op_digest (or_operation rcd), oc_requested = op_digest (co_identity co)\<rparr>)) a"
| step_not_permitted: "check c op = Inr co \<Longrightarrow> ca_record a (lo_index op) (lo_key op) = None \<Longrightarrow>
    permit (ca_head a (lo_index op)) co = Inl e \<Longrightarrow> lifecycle_step uc c op a (fail e) a"
| step_orphaned: "check c op = Inr co \<Longrightarrow> ca_record a (lo_index op) (lo_key op) = None \<Longrightarrow>
    permit (ca_head a (lo_index op)) co = Inr vo \<Longrightarrow> v \<in> ca_staged a (lo_index op) \<Longrightarrow>
    (\<And>w. w \<in> ca_staged a (lo_index op) \<Longrightarrow> v \<le> w) \<Longrightarrow>
    lifecycle_step uc c op a (fail (StagedStateExists (lo_index op) v)) a"
| step_unbuildable: "check c op = Inr co \<Longrightarrow> ca_record a (lo_index op) (lo_key op) = None \<Longrightarrow>
    permit (ca_head a (lo_index op)) co = Inr vo \<Longrightarrow> ca_staged a (lo_index op) = {} \<Longrightarrow>
    successor uc vo (ca_current a (lo_index op)) = Inl f \<Longrightarrow> lifecycle_step uc c op a (Inl f) a"
| step_applied: "check c op = Inr co \<Longrightarrow> ca_record a (lo_index op) (lo_key op) = None \<Longrightarrow>
    permit (ca_head a (lo_index op)) co = Inr vo \<Longrightarrow> ca_staged a (lo_index op) = {} \<Longrightarrow>
    successor uc vo (ca_current a (lo_index op)) = Inr su \<Longrightarrow>
    lifecycle_step uc c op a (Inr (receipt_of (su_record su) False)) (ca_publish (lo_index op) (lo_key op) su a)"

lemma catalogue_of_sel [simp]:
  "ca_head (catalogue_of L st) = head_of L st" "ca_payload (catalogue_of L st) = active_of L st"
  "ca_record (catalogue_of L st) = record_of L st" "v \<in> ca_staged (catalogue_of L st) i \<longleftrightarrow> st_staging st i v \<noteq> None"
  by (simp_all add: catalogue_of_def)

lemma not_permitted_destroyed: "ir_state r = Destroyed v x k \<Longrightarrow> permit (Some r) co \<noteq> Inr vo"
  by (auto simp: permit_Inr permitted_def)

section \<open>What a validated operation builds can be stored\<close>

lemma acceptable_named: "acceptable c change \<Longrightarrow> i \<in> named change \<Longrightarrow> identifies c i"
  by (cases change) (auto simp: batch_ok_def)

lemma spec_table_storable:
  assumes "acceptable c change" "storable_table c old" "spec_table target change (bt_get old) i = Some e"
  shows "identifies c i \<and> reads_back (json_provenance c) (me_provenance e)"
proof -
  have batch: "identifies c i \<and> reads_back (json_provenance c) (im_provenance m)"
    if "batch_ok c ms" "batch ms i = Some m" for ms m
    using that distinct_batch(1) [of ms i m] by (auto simp: batch_ok_def)
  show ?thesis
    using assms batch by (cases change)
      (auto simp: storable_table_def entry_of_def split: option.splits if_splits)
qed

definition succession_ok ::
    "('m::linorder, 'p, 'r) consumer \<Rightarrow> unicode \<Rightarrow> ('m, 'p, 'r) lifecycle_operation \<Rightarrow>
       ('r index_record \<times> ('m, 'p) version_payload) option \<Rightarrow> ('m, 'p, 'r) succession \<Rightarrow> bool" where
  "succession_ok c uc op current su \<longleftrightarrow>
     ir_identity (su_head su) = lo_index op \<and> storable_state c (ir_state (su_head su)) \<and>
     or_format (su_record su) = LIFECYCLE_FORMAT_VERSION \<and> or_index (su_record su) = lo_index op \<and>
     op_key (or_operation (su_record su)) = lo_key op \<and> or_resulting (su_record su) = ir_state (su_head su) \<and>
     (\<forall>change \<in> set (or_changes (su_record su)). storable_change c change) \<and>
     (case su_payload su of
        Some q \<Rightarrow> current_ok uc (Some (su_head su, q)) \<and> storable_table c (vp_members q) \<and>
          (\<forall>r p. current = Some (r, p) \<longrightarrow> vp_version p < vp_version q)
      | None \<Rightarrow> \<exists>r p x k. current = Some (r, p) \<and> ir_state (su_head su) = Destroyed (vp_version p) x k)"

lemma published_succession_ok:
  assumes "current_ok uc (published_pair (published op ident b))" "op_key ident = lo_key op"
    and "\<forall>change \<in> set (bu_changes b). storable_change c change" "storable_table c (bu_members b)"
    and "\<forall>r p. current = Some (r, p) \<longrightarrow> vp_version p < bu_target b"
  shows "succession_ok c uc op current (published op ident b)"
  using assms by (simp add: succession_ok_def published_def published_pair_def Let_def operation_record_new_def
      version_payload_new_def)

lemma built_changes_storable:
  assumes "builds uc change p b" "acceptable c change" "storable_table c (vp_members p)" "ch \<in> set (bu_changes b)"
  shows "storable_change c ch"
proof -
  have "change_id ch \<in> named change \<union> {i. bt_get (vp_members p) i \<noteq> None}"
    and "displaced ch = bt_get (vp_members p) (change_id ch)"
    using assms(1,4) by (auto simp: builds_def logs_def)
  then show ?thesis
    using acceptable_named [OF assms(2)] assms(3) by (auto simp: storable_change_def storable_table_def)
qed

lemma successor_storable:
  fixes op :: "('m::linorder, 'p, 'r) lifecycle_operation"
  assumes uc: "lowercase_nonempty uc" and check: "check c op = Inr co"
    and permit: "permit (map_option fst current) co = Inr vo" and current: "current_ok uc current"
    and tables: "\<forall>r p. current = Some (r, p) \<longrightarrow> storable_table c (vp_members p)"
    and su: "successor uc vo current = Inr su"
  shows "succession_ok c uc op current su"
proof -
  have ident: "op_key (co_identity co) = lo_key op" using check by (simp add: check_Inr)
  note facts = permit_changes [OF check permit current]
  from successor_builds [OF uc check permit current] su
  consider config where "lo_change op = Create config" "config_valid config" "current = None"
      "su = published op (co_identity co) (built_empty config)"
    | r p b where "current = Some (r, p)" "builds uc (lo_change op) p b" "su = published op (co_identity co) b"
    | x r p where "lo_change op = Destroy x" "current = Some (r, p)" "su = apply_destroy op (co_identity co) x r p"
    by auto
  then show ?thesis
  proof cases
    case 1
    then show ?thesis
      using published_succession_ok [OF _ ident] published_empty [OF 1(2) uc, of op "co_identity co"]
      by (simp add: built_empty_def storable_table_def)
  next
    case 2
    then have p: "payload_ok p" "storable_table c (vp_members p)" using current tables by (simp_all add: current_ok_def)
    have get: "bt_get (bu_members b) = spec_table (bu_target b) (lo_change op) (bt_get (vp_members p))"
      and target: "version_successor (vp_version p) = Inr (bu_target b)"
      using 2(2) unfolding builds_def by blast+
    have "storable_table c (bu_members b)"
      using spec_table_storable [OF facts(3) p(2)] unfolding storable_table_def get by blast
    moreover have "vp_version p < bu_target b" using successor_version_less [OF target] .
    ultimately show ?thesis
      using published_succession_ok [OF _ ident, of uc b c current] published_built [OF 2(2) p(1), of "co_identity co"]
        built_changes_storable [OF 2(2) facts(3) p(2)] 2(1,3) by simp
  next
    case 3
    then have "storable_table c (vp_members p)" using tables by simp
    then have "storable_change c ch"
      if "ch \<in> set (map (\<lambda>(i, previous). Retired i previous) (bt_entries (vp_members p)))" for ch
      using that by (auto simp: storable_change_def storable_table_def bt_entries_iff)
    then show ?thesis
      using 3 ident facts(3) by (simp add: succession_ok_def apply_destroy_def Let_def operation_record_new_def)
  qed
qed

section \<open>The encoded plan\<close>

lemma versions_up_to_all: "\<exists>vs. versions_up_to v = Inr vs \<and> set vs = {w. w \<le> v}"
proof (intro exI conjI)
  let ?ns = "[1..<Suc (version_get v)]"
  have get: "version_get (Index_version n) = n" if "n \<in> set ?ns" for n
    using that version_get_bound [of v] by (intro Index_version_inverse) (auto simp: nonzero_u64_def)
  then show "versions_up_to v = Inr (map Index_version ?ns)"
    unfolding versions_up_to_def by (intro map_res_all_Inr) simp
  show "set (map Index_version ?ns) = {w. w \<le> v}"
  proof (intro equalityI subsetI)
    fix w assume "w \<in> set (map Index_version ?ns)"
    then obtain n where n: "n \<in> set ?ns" "w = Index_version n" by auto
    then have "version_get w = n" using get by simp
    then show "w \<in> {w. w \<le> v}" using n(1) by (auto simp: version_le_iff)
  next
    fix w assume "w \<in> {w. w \<le> v}"
    then have "version_get w \<le> version_get v" by (simp add: version_le_iff)
    then have "version_get w \<in> set ?ns"
      using version_get_pos [of w] unfolding set_upt atLeastLessThan_iff by linarith
    then show "w \<in> set (map Index_version ?ns)"
      unfolding set_map by (rule rev_image_eqI) (simp add: version_get_inverse)
  qed
qed

definition plan_encodes ::
    "('m::linorder, 'p, 'r, 'b) record_codec \<Rightarrow> ('m, 'p, 'r) lifecycle_operation \<Rightarrow> ('m, 'p, 'r) succession \<Rightarrow>
       ('r, 'b) plan \<Rightarrow> bool" where
  "plan_encodes cod op su plan \<longleftrightarrow>
     pl_index plan = lo_index op \<and> op_key (pl_operation plan) = lo_key op \<and>
     decode_head cod (pl_head plan) (lo_index op) = Inr (su_head su) \<and>
     decode_operation cod (pl_record plan) (lo_index op) (lo_key op) = Inr (su_record su) \<and>
     receipt_of (su_record su) False = \<lparr>pr_index = pl_index plan, pr_operation = pl_operation plan,
       pr_transition = pl_transition plan, pr_state = pl_resulting plan, pr_replayed = False\<rparr>"

lemma encode_plan_ok:
  assumes cod: "codec_ok c cod" and su: "succession_ok c uc op current su" and head: "current \<noteq> None \<longrightarrow> eh \<noteq> None"
  obtains (version) plan q marker b where "su_payload su = Some q" "plan_encodes cod op su plan"
      "encode_plan cod su eh op = Inr (plan, PlannedVersion eh (vp_version q) marker b)"
      "decode_payload dbg cod b (lo_index op) (vp_version q) = Inr q"
  | (destroy) plan h vs r p where "su_payload su = None" "plan_encodes cod op su plan" "eh = Some h" "current = Some (r, p)"
      "encode_plan cod su eh op = Inr (plan, PlannedDestroy h vs)" "set vs = {w. w \<le> vp_version p}"
proof -
  obtain hb where hb: "encode_head cod (su_head su) = Inr hb" "decode_head cod hb (lo_index op) = Inr (su_head su)"
    using head_reads_back [OF cod, of "su_head su"] su by (auto simp: succession_ok_def)
  obtain rb where rb: "encode_with (rc_record_write cod) (su_record su) = Inr rb"
    "decode_operation cod rb (lo_index op) (lo_key op) = Inr (su_record su)"
    using record_reads_back [OF cod, of "su_record su"] su by (auto simp: succession_ok_def)
  let ?plan = "\<lparr>pl_index = or_index (su_record su), pl_operation = or_operation (su_record su),
     pl_transition = or_transition (su_record su), pl_resulting = or_resulting (su_record su),
     pl_head = hb, pl_record = rb\<rparr>"
  have plan: "plan_encodes cod op su ?plan"
    using su hb rb by (simp add: plan_encodes_def receipt_of_def succession_ok_def)
  have run: "plan_write cod su eh op = Inr planned \<Longrightarrow> encode_plan cod su eh op = Inr (?plan, planned)" for planned
    using hb(1) rb(1) by (simp add: encode_plan_def)
  show ?thesis
  proof (cases "su_payload su")
    case (Some q)
    obtain m where m: "encode_with (rc_marker_write cod) (staging_marker_new (vp_index q) (vp_version q)
        (or_operation (su_record su)) (or_transition (su_record su))) = Inr m"
      using marker_written [OF cod] by blast
    have q: "current_ok uc (Some (su_head su, q))" "storable_table c (vp_members q)" using su Some by (simp_all add: succession_ok_def)
    then have "vp_index q = lo_index op" using su by (simp add: succession_ok_def current_ok_def)
    moreover obtain b where "encode_with (rc_payload_write cod) q = Inr b"
      "decode_payload dbg cod b (vp_index q) (vp_version q) = Inr q"
      using payload_reads_back [OF cod q(2), of dbg] q(1) by (auto simp: current_ok_def engine_ok_def)
    ultimately show ?thesis using version [OF Some plan run] m Some by (simp add: plan_write_def)
  next
    case None
    then obtain r p x k where p: "current = Some (r, p)" "ir_state (su_head su) = Destroyed (vp_version p) x k"
      using su by (auto simp: succession_ok_def)
    moreover obtain h where "eh = Some h" using head p(1) by auto
    moreover obtain vs where "versions_up_to (vp_version p) = Inr vs" "set vs = {w. w \<le> vp_version p}"
      using versions_up_to_all by blast
    ultimately show ?thesis using destroy [OF None plan _ _ run] None by (simp add: plan_write_def)
  qed
qed

section \<open>The store after each write\<close>

definition staged_store :: "index_identity \<Rightarrow> index_version \<Rightarrow> 'b \<Rightarrow> 'b \<Rightarrow> 'b store \<Rightarrow> 'b store" where
  "staged_store i v marker payload st = st\<lparr>st_versions := set2 i v (Some payload) (st_versions st),
     st_staging := set2 i v (Some marker) (st_staging st)\<rparr>"

definition published_store :: "index_identity \<Rightarrow> operation_key \<Rightarrow> index_version \<Rightarrow> 'b \<Rightarrow> 'b \<Rightarrow> 'b store \<Rightarrow> 'b store" where
  "published_store i k v head rcd st = st\<lparr>st_heads := (st_heads st)(i \<mapsto> head),
     st_operations := set2 i k (Some rcd) (st_operations st), st_staging := set2 i v None (st_staging st)\<rparr>"

definition destroyed_store :: "index_identity \<Rightarrow> operation_key \<Rightarrow> 'b \<Rightarrow> 'b \<Rightarrow> index_version list \<Rightarrow> 'b store \<Rightarrow> 'b store" where
  "destroyed_store i k head rcd vs st = st\<lparr>st_heads := (st_heads st)(i \<mapsto> head),
     st_operations := set2 i k (Some rcd) (st_operations st),
     st_versions := (st_versions st)(i := (\<lambda>v. if v \<in> set vs then None else st_versions st i v))\<rparr>"

lemma views_cong:
  "st_heads st' i = st_heads st i \<Longrightarrow> head_of L st' i = head_of L st i"
  "st_versions st' i v = st_versions st i v \<Longrightarrow> payload_of L st' i v = payload_of L st i v"
  "st_operations st' i k = st_operations st i k \<Longrightarrow> record_of L st' i k = record_of L st i k"
  by (simp_all add: head_of_def payload_of_def record_of_def)

text \<open>A write that leaves an index's head, its active payload and its records leaves what is read of it.\<close>

lemma active_of_cong:
  assumes "stored_ok L st" "st_heads st' i = st_heads st i"
    and "\<And>v x. st_versions st i v = Some x \<Longrightarrow> st_versions st' i v = Some x"
  shows "active_of L st' i = active_of L st i"
  using assms(1)
proof (cases rule: head_cases [of L st i])
  case (active b r p)
  have "st_versions st' i (vp_version p) = st_versions st i (vp_version p)"
    using active(5) assms(3) by (auto simp: payload_of_Some)
  from views_cong(2) [OF this, of L] show ?thesis
    using active views_cong(1) [OF assms(2), of L] by (simp add: active_of_def)
qed (use views_cong(1) [OF assms(2), of L] in \<open>simp_all add: active_of_def\<close>)

lemma head_ok_cong:
  assumes "head_ok L st i" "st_heads st' i = st_heads st i"
    and "\<And>v x. st_versions st i v = Some x \<Longrightarrow> st_versions st' i v = Some x"
  shows "head_ok L st' i"
proof -
  have "payload_of L st' i v = Some p" if "payload_of L st i v = Some p" for v p
    using that assms(3) by (auto simp: payload_of_Some)
  then show ?thesis using assms(1,2) views_cong(1) [OF assms(2), of L] unfolding head_ok_def by metis
qed

lemma staged_store_ok:
  assumes ok: "stored_ok L st" and fresh: "st_versions st i v = None" "nothing_staged st i"
  shows "stored_ok L (staged_store i v marker payload st)"
    and "catalogue_of L (staged_store i v marker payload st) = ca_stage i v (catalogue_of L st)"
proof -
  let ?st = "staged_store i v marker payload st"
  have heads: "st_heads ?st j = st_heads st j" and ops: "st_operations ?st j k = st_operations st j k"
    and kept: "st_versions st j w = Some x \<Longrightarrow> st_versions ?st j w = Some x" for j k w x
    using fresh by (auto simp: staged_store_def)
  have active: "active_of L ?st j = active_of L st j" for j by (rule active_of_cong [OF ok heads kept])
  have records: "record_of L ?st = record_of L st" by (intro ext views_cong(3) ops)
  show "catalogue_of L ?st = ca_stage i v (catalogue_of L st)"
  proof (rule catalogue.equality)
    show "ca_staged (catalogue_of L ?st) = ca_staged (ca_stage i v (catalogue_of L st))"
      by (auto simp: catalogue_of_def ca_stage_def staged_store_def fun_eq_iff split: if_splits)
  qed (simp_all add: ca_stage_def fun_eq_iff active records views_cong(1) [OF heads])
  have "head_ok L ?st j" for j
    by (rule head_ok_cong [OF _ heads kept]) (use ok in \<open>auto simp: stored_ok_def\<close>)
  moreover have "st_versions ?st j w \<noteq> None \<longrightarrow> st_staging ?st j w \<noteq> None \<or>
      (\<exists>p. active_of L ?st j = Some p \<and> w \<le> vp_version p)" for j w
  proof -
    have "st_versions st j w \<noteq> None \<longrightarrow> st_staging st j w \<noteq> None \<or> (\<exists>p. active_of L st j = Some p \<and> w \<le> vp_version p)"
      using ok unfolding stored_ok_def by blast
    then show ?thesis unfolding active by (cases "j = i \<and> w = v") (auto simp: staged_store_def)
  qed
  moreover have "st_operations ?st j k \<noteq> None \<longrightarrow> record_of L ?st j k \<noteq> None" for j k
    using ok unfolding stored_ok_def records ops by blast
  ultimately show "stored_ok L ?st" unfolding stored_ok_def by blast
qed

text \<open>
  Publishing: the new head, its record, and the payload it names; versions that remain stored
  are no later than the new active one.
\<close>

lemma publish_ok:
  fixes st st' :: "'b store" and L :: "('m::linorder, 'p, 'r, 's, 'b) index_lifecycle"
  assumes ok: "stored_ok L st" and su: "succession_ok (lc_consumer L) (lc_unicode L) op current su"
    and plan: "plan_encodes (lc_codec L) op su plan" and i: "i = lo_index op"
    and heads: "st_heads st' = (st_heads st)(i \<mapsto> pl_head plan)"
    and ops: "st_operations st' = set2 i (lo_key op) (Some (pl_record plan)) (st_operations st)"
    and others: "\<And>j v. j \<noteq> i \<Longrightarrow> st_versions st' j v = st_versions st j v"
    and staged: "st_staging st' = st_staging st"
    and payload: "\<And>q. su_payload su = Some q \<Longrightarrow> payload_of L st' i (vp_version q) = Some q"
    and later: "\<And>v. st_versions st' i v \<noteq> None \<Longrightarrow> st_staging st' i v = None \<Longrightarrow>
      \<exists>q. su_payload su = Some q \<and> v \<le> vp_version q"
  shows "stored_ok L st' \<and> catalogue_of L st' = ca_publish i (lo_key op) su (catalogue_of L st)"
proof -
  have head: "head_of L st' i = Some (su_head su)"
    using plan heads i by (simp add: head_of_Some plan_encodes_def)
  have "op_key (or_operation (su_record su)) = lo_key op" using su by (simp add: succession_ok_def)
  have rcd: "record_of L st' i (lo_key op) = Some (su_record su)"
    using plan ops i by (simp add: record_of_Some plan_encodes_def)
  have active: "active_of L st' i = su_payload su"
  proof (cases "su_payload su")
    case None
    then show ?thesis using su head by (auto simp: active_of_def succession_ok_def)
  next
    case (Some q)
    then have "ir_state (su_head su) = Active (vp_version q)" using su by (simp add: succession_ok_def current_ok_def)
    then show ?thesis using head payload [OF Some] Some by (simp add: active_of_def)
  qed
  have heads': "st_heads st' j = st_heads st j" and kept: "st_versions st j w = Some x \<Longrightarrow> st_versions st' j w = Some x"
    if "j \<noteq> i" for j w x
    using that heads others by auto
  have active': "active_of L st' j = active_of L st j" if "j \<noteq> i" for j
    by (rule active_of_cong [OF ok heads' kept]) (use that in auto)
  have records: "record_of L st' = set2 i (lo_key op) (Some (su_record su)) (record_of L st)"
    using rcd by (auto simp: fun_eq_iff ops intro!: views_cong(3))
  have "catalogue_of L st' = ca_publish i (lo_key op) su (catalogue_of L st)"
  proof (rule catalogue.equality)
    show "ca_staged (catalogue_of L st') = ca_staged (ca_publish i (lo_key op) su (catalogue_of L st))"
      by (simp add: catalogue_of_def ca_publish_def staged)
  qed (simp_all add: ca_publish_def fun_eq_iff head active active' records views_cong(1) [OF heads'])
  moreover have "head_ok L st' j" for j
  proof (cases "j = i")
    case True
    have "storable_state (lc_consumer L) (ir_state (su_head su))" using su by (simp add: succession_ok_def)
    moreover have "\<exists>p. payload_of L st' i v = Some p \<and> current_ok (lc_unicode L) (Some (su_head su, p)) \<and>
        storable_table (lc_consumer L) (vp_members p)" if v: "ir_state (su_head su) = Active v" for v
    proof (cases "su_payload su")
      case None
      then show ?thesis using su v by (auto simp: succession_ok_def)
    next
      case (Some q)
      then show ?thesis using su v payload [OF Some] by (auto simp: succession_ok_def current_ok_def)
    qed
    ultimately show ?thesis using head True by (simp add: head_ok_def)
  next
    case False
    have "head_ok L st j" using ok unfolding stored_ok_def by blast
    then show ?thesis by (rule head_ok_cong [OF _ heads' [OF False] kept [OF False]])
  qed
  moreover have "st_versions st' j w \<noteq> None \<longrightarrow> st_staging st' j w \<noteq> None \<or>
      (\<exists>p. active_of L st' j = Some p \<and> w \<le> vp_version p)" for j w
  proof (cases "j = i")
    case True
    then show ?thesis using later [of w] active by auto
  next
    case False
    have "st_versions st j w \<noteq> None \<longrightarrow> st_staging st j w \<noteq> None \<or> (\<exists>p. active_of L st j = Some p \<and> w \<le> vp_version p)"
      using ok unfolding stored_ok_def by blast
    then show ?thesis by (simp only: active' [OF False] others [OF False] staged)
  qed
  moreover have "st_operations st' j k \<noteq> None \<longrightarrow> record_of L st' j k \<noteq> None" for j k
  proof -
    have "st_operations st j k \<noteq> None \<longrightarrow> record_of L st j k \<noteq> None" using ok unfolding stored_ok_def by blast
    then show ?thesis unfolding records ops by simp
  qed
  ultimately show ?thesis unfolding stored_ok_def by blast
qed

end
