(* ===== verification/Persistence.thy ===== *)
theory Persistence
  imports Hnsw_Snapshot Bm25
begin

text \<open>
  Named snapshots of whole indexes (\<open>crates/heurema/src/persistence.rs\<close>, and the
  \<open>PersistenceBackend\<close> of \<open>crates/atmis/src/lib.rs\<close>): the versioned envelope, its decoder,
  and the adapter's two name spaces. What \<open>serde_json\<close> writes and reads for an envelope of the
  caller's index type is a parameter; for heurema's own engines it runs their snapshot checks.
\<close>

section \<open>The envelope\<close>

definition SNAPSHOT_FORMAT_VERSION :: nat where
  "SNAPSHOT_FORMAT_VERSION = 1"

record 'x snapshot_envelope =
  ev_format_version :: nat
  ev_family :: snapshot_family
  ev_payload :: 'x

definition validate_header :: "nat \<Rightarrow> snapshot_family \<Rightarrow> snapshot_family \<Rightarrow> heurema_error + unit" where
  "validate_header format_version family expected =
     (if format_version \<noteq> SNAPSHOT_FORMAT_VERSION
      then Inl (UnsupportedSnapshotVersion format_version SNAPSHOT_FORMAT_VERSION)
      else if family \<noteq> expected then Inl (SnapshotFormat expected family) else Inr ())"

definition envelope_new :: "snapshot_family \<Rightarrow> 'x \<Rightarrow> 'x snapshot_envelope" where
  "envelope_new family payload =
     \<lparr>ev_format_version = SNAPSHOT_FORMAT_VERSION, ev_family = family, ev_payload = payload\<rparr>"

definition into_payload :: "'x snapshot_envelope \<Rightarrow> snapshot_family \<Rightarrow> heurema_error + 'x" where
  "into_payload e expected =
     and_then (validate_header (ev_format_version e) (ev_family e) expected) (\<lambda>_. Inr (ev_payload e))"

text \<open>\<open>serde_json\<close> on envelopes: the whole value, and the header with its payload ignored.\<close>

record ('x, 'b) snapshot_codec =
  sc_write :: "'x snapshot_envelope \<Rightarrow> string + 'b"
  sc_header :: "'b \<Rightarrow> string + nat \<times> snapshot_family"
  sc_read :: "'b \<Rightarrow> snapshot_refusal + 'x snapshot_envelope"

definition snapshot_error :: "string \<Rightarrow> heurema_error" where
  "snapshot_error e = CorruptSnapshot (SerdeError e)"

definition snapshot_failure :: "snapshot_refusal \<Rightarrow> failure" where
  "snapshot_failure r = (case r of Refused e \<Rightarrow> Err (snapshot_error e) | DecodePanic \<Rightarrow> Panic)"

definition decode_snapshot_payload :: "('x, 'b) snapshot_codec \<Rightarrow> 'b \<Rightarrow> snapshot_family \<Rightarrow> 'x res" where
  "decode_snapshot_payload cod b expected =
     and_then (map_err (Err \<circ> snapshot_error) (sc_header cod b)) (\<lambda>(format_version, family).
     and_then (map_err Err (validate_header format_version family expected)) (\<lambda>_.
     and_then (map_err snapshot_failure (sc_read cod b)) (\<lambda>e.
     map_err Err (into_payload e expected))))"

section \<open>Saving and loading\<close>

text \<open>
  Both adapters save by encoding the envelope and putting the bytes under a name, and load by
  getting a name's bytes and decoding them. \<open>put\<close> and \<open>get\<close> are the adapter's.
\<close>

type_synonym ('b, 's) put = "string \<Rightarrow> 'b \<Rightarrow> 's \<Rightarrow> (heurema_error + unit) \<times> 's"

definition save_snapshot ::
    "('x, 'b) snapshot_codec \<Rightarrow> snapshot_family \<Rightarrow> ('b, 's) put \<Rightarrow> string \<Rightarrow> 'x \<Rightarrow> 's \<Rightarrow> (heurema_error + unit) \<times> 's" where
  "save_snapshot cod family put name idx s =
     (case sc_write cod (envelope_new family idx) of
        Inl e \<Rightarrow> (Inl (Persistence (SerdeError e)), s)
      | Inr b \<Rightarrow> put name b s)"

definition load_snapshot ::
    "('x, 'b) snapshot_codec \<Rightarrow> snapshot_family \<Rightarrow> (string \<Rightarrow> 's \<Rightarrow> heurema_error + 'b) \<Rightarrow> string \<Rightarrow> 's \<Rightarrow> 'x res" where
  "load_snapshot cod family get name s =
     and_then (map_err Err (get name s)) (\<lambda>b. decode_snapshot_payload cod b family)"

section \<open>The in-memory adapter's name spaces\<close>

text \<open>Two independent maps; a poisoned lock on either is recovered, so it leaves no mark.\<close>

record 'b atmis_snapshots =
  vector_snapshots :: "string \<Rightarrow> 'b option"
  fts_snapshots :: "string \<Rightarrow> 'b option"

definition atmis_snapshots_new :: "'b atmis_snapshots" where
  "atmis_snapshots_new = \<lparr>vector_snapshots = (\<lambda>_. None), fts_snapshots = (\<lambda>_. None)\<rparr>"

definition found_or :: "string \<Rightarrow> 'b option \<Rightarrow> heurema_error + 'b" where
  "found_or name x = (case x of None \<Rightarrow> Inl (IndexNotFound name) | Some b \<Rightarrow> Inr b)"

definition atmis_put_vector :: "('b, 'b atmis_snapshots) put" where
  "atmis_put_vector name b s = (Inr (), s\<lparr>vector_snapshots := (vector_snapshots s)(name \<mapsto> b)\<rparr>)"

definition atmis_put_fts :: "('b, 'b atmis_snapshots) put" where
  "atmis_put_fts name b s = (Inr (), s\<lparr>fts_snapshots := (fts_snapshots s)(name \<mapsto> b)\<rparr>)"

definition atmis_get_vector :: "string \<Rightarrow> 'b atmis_snapshots \<Rightarrow> heurema_error + 'b" where
  "atmis_get_vector name s = found_or name (vector_snapshots s name)"

definition atmis_get_fts :: "string \<Rightarrow> 'b atmis_snapshots \<Rightarrow> heurema_error + 'b" where
  "atmis_get_fts name s = found_or name (fts_snapshots s name)"

definition atmis_save_vector_index ::
    "('x, 'b) snapshot_codec \<Rightarrow> string \<Rightarrow> 'x \<Rightarrow> 'b atmis_snapshots \<Rightarrow> (heurema_error + unit) \<times> 'b atmis_snapshots" where
  "atmis_save_vector_index cod = save_snapshot cod FamVector atmis_put_vector"

definition atmis_load_vector_index :: "('x, 'b) snapshot_codec \<Rightarrow> string \<Rightarrow> 'b atmis_snapshots \<Rightarrow> 'x res" where
  "atmis_load_vector_index cod = load_snapshot cod FamVector atmis_get_vector"

definition atmis_save_fts_index ::
    "('x, 'b) snapshot_codec \<Rightarrow> string \<Rightarrow> 'x \<Rightarrow> 'b atmis_snapshots \<Rightarrow> (heurema_error + unit) \<times> 'b atmis_snapshots" where
  "atmis_save_fts_index cod = save_snapshot cod FamFts atmis_put_fts"

definition atmis_load_fts_index :: "('x, 'b) snapshot_codec \<Rightarrow> string \<Rightarrow> 'b atmis_snapshots \<Rightarrow> 'x res" where
  "atmis_load_fts_index cod = load_snapshot cod FamFts atmis_get_fts"

section \<open>Named snapshots as a map\<close>

text \<open>
  The contract of one name space: a put that succeeds sets the name's bytes and nothing else, a
  put that fails may or may not have, a get returns the name's bytes, and the other name space
  is separate. It holds for names and bytes that fit in the storage.
\<close>

locale snapshot_space =
  fixes ok :: "'s \<Rightarrow> bool"
    and names :: "'s \<Rightarrow> string \<Rightarrow> 'b option"
    and put :: "('b, 's) put"
    and get :: "string \<Rightarrow> 's \<Rightarrow> heurema_error + 'b"
    and other :: "('b, 's) put"
    and fits :: "string \<Rightarrow> 'b \<Rightarrow> bool"
  assumes put_sets: "ok s \<Longrightarrow> fits n b \<Longrightarrow> put n b s = (r, s') \<Longrightarrow> ok s' \<and>
      (r = Inr () \<and> names s' = (names s)(n \<mapsto> b) \<or>
       (\<exists>src. r = Inl (Persistence src)) \<and> (names s' = names s \<or> names s' = (names s)(n \<mapsto> b)))"
    and get_returns: "ok s \<Longrightarrow> get n s = found_or n (names s n) \<or> (\<exists>src. get n s = Inl (Persistence src))"
    and other_keeps: "ok s \<Longrightarrow> fits n b \<Longrightarrow> other n b s = (r, s') \<Longrightarrow> ok s' \<and> names s' = names s"
begin

lemma put_keeps: "ok s \<Longrightarrow> fits n b \<Longrightarrow> put n b s = (r, s') \<Longrightarrow> m \<noteq> n \<Longrightarrow> ok s' \<and> names s' m = names s m"
  using put_sets [of s n b r s'] by auto

end

interpretation atmis_vec: snapshot_space "\<lambda>_. True" vector_snapshots atmis_put_vector atmis_get_vector atmis_put_fts "\<lambda>_ _. True"
  by unfold_locales (auto simp: atmis_put_vector_def atmis_get_vector_def atmis_put_fts_def)

interpretation atmis_fts: snapshot_space "\<lambda>_. True" fts_snapshots atmis_put_fts atmis_get_fts atmis_put_vector "\<lambda>_ _. True"
  by unfold_locales (auto simp: atmis_put_vector_def atmis_get_fts_def atmis_put_fts_def)

section \<open>Histories of saves\<close>

text \<open>A save of an index of the family at hand, or of the other.\<close>

datatype ('x, 'y) snapshot_call = SaveHere string 'x | SaveThere string 'y

fun run_snapshot_call ::
    "('x, 'b) snapshot_codec \<Rightarrow> snapshot_family \<Rightarrow> ('b, 's) put \<Rightarrow>
     ('y, 'b) snapshot_codec \<Rightarrow> snapshot_family \<Rightarrow> ('b, 's) put \<Rightarrow> ('x, 'y) snapshot_call \<Rightarrow> 's \<Rightarrow> 's" where
  "run_snapshot_call cx fx here cy fy there (SaveHere n x) s = snd (save_snapshot cx fx here n x s)"
| "run_snapshot_call cx fx here cy fy there (SaveThere n y) s = snd (save_snapshot cy fy there n y s)"

text \<open>The bytes of every saved index fit, under its name.\<close>

fun call_fits ::
    "('x, 'b) snapshot_codec \<Rightarrow> snapshot_family \<Rightarrow> ('y, 'b) snapshot_codec \<Rightarrow> snapshot_family \<Rightarrow>
     (string \<Rightarrow> 'b \<Rightarrow> bool) \<Rightarrow> ('x, 'y) snapshot_call \<Rightarrow> bool" where
  "call_fits cx fx cy fy fits (SaveHere n x) \<longleftrightarrow> (\<forall>b. sc_write cx (envelope_new fx x) = Inr b \<longrightarrow> fits n b)"
| "call_fits cx fx cy fy fits (SaveThere n y) \<longleftrightarrow> (\<forall>b. sc_write cy (envelope_new fy y) = Inr b \<longrightarrow> fits n b)"

lemma call_fits_all [simp]: "call_fits cx fx cy fy (\<lambda>_ _. True) call"
  by (cases call) simp_all

text \<open>
  \<open>serde_json\<close> writes the envelope of an index, and reads it back by way of the checks that the
  index type's \<open>Deserialize\<close> runs.
\<close>

definition serialises ::
    "('x, 'b) snapshot_codec \<Rightarrow> ('x \<Rightarrow> snapshot_refusal + 'x) \<Rightarrow> snapshot_family \<Rightarrow> 'x \<Rightarrow> bool" where
  "serialises cod decoder family idx \<longleftrightarrow>
     (\<exists>b. sc_write cod (envelope_new family idx) = Inr b \<and> sc_header cod b = Inr (SNAPSHOT_FORMAT_VERSION, family) \<and>
        sc_read cod b = and_then (decoder idx) (\<lambda>i. Inr (envelope_new family i)))"

lemma decode_serialised:
  assumes "serialises cod decoder family idx" "decoder idx = Inr idx"
  obtains b where "sc_write cod (envelope_new family idx) = Inr b" "decode_snapshot_payload cod b family = Inr idx"
  using assms by (auto simp: serialises_def decode_snapshot_payload_def validate_header_def into_payload_def envelope_new_def)

context snapshot_space
begin

lemma calls_keep:
  assumes "ok s" "\<forall>call \<in> set calls. call_fits cx fx cy fy fits call" "\<forall>x. SaveHere n x \<notin> set calls"
  shows "ok (fold (run_snapshot_call cx fx put cy fy other) calls s) \<and>
    names (fold (run_snapshot_call cx fx put cy fy other) calls s) n = names s n"
  using assms
proof (induction calls arbitrary: s)
  case (Cons call calls)
  have "ok (run_snapshot_call cx fx put cy fy other call s) \<and> names (run_snapshot_call cx fx put cy fy other call s) n = names s n"
  proof (cases call)
    case (SaveHere m x)
    then have "m \<noteq> n" using Cons.prems(3) by auto
    then show ?thesis
      using SaveHere Cons.prems(1,2) put_keeps [of s m _ _ _ n]
      by (auto simp: save_snapshot_def split: sum.split) (metis prod.collapse)+
  next
    case (SaveThere m y)
    then show ?thesis
      using Cons.prems(1,2) other_keeps [of s m]
      by (auto simp: save_snapshot_def split: sum.split) (metis prod.collapse)+
  qed
  then show ?case using Cons.IH [of "run_snapshot_call cx fx put cy fy other call s"] Cons.prems(2,3) by simp
qed simp

lemma round_trip:
  assumes "ok s" "serialises cx decoder fx idx" "decoder idx = Inr idx" "save_snapshot cx fx put n idx s = (r, s')"
    and fits: "\<forall>call \<in> set (SaveHere n idx # calls). call_fits cx fx cy fy fits call"
    and "\<forall>x. SaveHere n x \<notin> set calls"
  shows "(r = Inr () \<longrightarrow> load_snapshot cx fx get n (fold (run_snapshot_call cx fx put cy fy other) calls s') = Inr idx \<or>
      (\<exists>src. load_snapshot cx fx get n (fold (run_snapshot_call cx fx put cy fy other) calls s') = fail (Persistence src))) \<and>
    (r \<noteq> Inr () \<longrightarrow> (\<exists>src. r = Inl (Persistence src)))"
proof -
  obtain b where b: "sc_write cx (envelope_new fx idx) = Inr b" "decode_snapshot_payload cx b fx = Inr idx"
    using decode_serialised [OF assms(2,3)] .
  then have put: "put n b s = (r, s')" using assms(4) by (simp add: save_snapshot_def)
  let ?t = "fold (run_snapshot_call cx fx put cy fy other) calls s'"
  have "load_snapshot cx fx get n ?t = Inr idx \<or> (\<exists>src. load_snapshot cx fx get n ?t = fail (Persistence src))" if "r = Inr ()"
  proof -
    have "ok s' \<and> names s' n = Some b" using put_sets [OF assms(1) _ put] b(1) fits that by auto
    then have "ok ?t \<and> names ?t n = Some b" using calls_keep [of s' calls cx fx cy fy n] fits assms(6) by simp
    then show ?thesis using get_returns [of ?t n] b(2) by (auto simp: load_snapshot_def found_or_def)
  qed
  then show ?thesis using put_sets [OF assms(1) _ put] b(1) fits by auto
qed

end

section \<open>Both families side by side\<close>

fun saved_name :: "('x, 'y) snapshot_call \<Rightarrow> string" where
  "saved_name (SaveHere n x) = n"
| "saved_name (SaveThere n y) = n"

fun swapped :: "('x, 'y) snapshot_call \<Rightarrow> ('y, 'x) snapshot_call" where
  "swapped (SaveHere n x) = SaveThere n x"
| "swapped (SaveThere n y) = SaveHere n y"

lemma run_swapped: "run_snapshot_call cy fy there cx fx here (swapped c) = run_snapshot_call cx fx here cy fy there c"
  by (cases c) (simp_all add: fun_eq_iff)

lemma call_fits_swapped: "call_fits cy fy cx fx fits (swapped c) = call_fits cx fx cy fy fits c"
  by (cases c) simp_all

lemma saved_name_swapped [simp]: "saved_name (swapped c) = saved_name c"
  by (cases c) simp_all

lemma history_swapped:
  "fold (run_snapshot_call cy fy there cx fx here) (map swapped calls) = fold (run_snapshot_call cx fx here cy fy there) calls"
  by (simp add: fold_map comp_def run_swapped)

abbreviation atmis_saves ::
    "('x, 'b) snapshot_codec \<Rightarrow> ('y, 'b) snapshot_codec \<Rightarrow> ('x, 'y) snapshot_call list \<Rightarrow> 'b atmis_snapshots \<Rightarrow> 'b atmis_snapshots" where
  "atmis_saves vc fc \<equiv> fold (run_snapshot_call vc FamVector atmis_put_vector fc FamFts atmis_put_fts)"

lemma atmis_round_trip:
  assumes "serialises cx decoder fx idx" "decoder idx = Inr idx"
  shows "\<forall>x. SaveHere n x \<notin> set calls \<Longrightarrow> fst (save_snapshot cx fx atmis_put_vector n idx s) = Inr () \<and>
      load_snapshot cx fx atmis_get_vector n (fold (run_snapshot_call cx fx atmis_put_vector cy fy atmis_put_fts) calls
        (snd (save_snapshot cx fx atmis_put_vector n idx s))) = Inr idx"
    and "\<forall>x. SaveHere n x \<notin> set calls' \<Longrightarrow> fst (save_snapshot cx fx atmis_put_fts n idx s) = Inr () \<and>
      load_snapshot cx fx atmis_get_fts n (fold (run_snapshot_call cx fx atmis_put_fts cz fz atmis_put_vector) calls'
        (snd (save_snapshot cx fx atmis_put_fts n idx s))) = Inr idx"
proof -
  obtain b where b: "sc_write cx (envelope_new fx idx) = Inr b" "decode_snapshot_payload cx b fx = Inr idx"
    using decode_serialised [OF assms] .
  show "fst (save_snapshot cx fx atmis_put_vector n idx s) = Inr () \<and>
      load_snapshot cx fx atmis_get_vector n (fold (run_snapshot_call cx fx atmis_put_vector cy fy atmis_put_fts) calls
        (snd (save_snapshot cx fx atmis_put_vector n idx s))) = Inr idx" if "\<forall>x. SaveHere n x \<notin> set calls"
    using atmis_vec.calls_keep [OF TrueI _ that, where cx = cx and fx = fx and cy = cy and fy = fy and s = "snd (save_snapshot cx fx atmis_put_vector n idx s)"] b
    by (simp add: save_snapshot_def load_snapshot_def atmis_put_vector_def atmis_get_vector_def found_or_def)
  show "fst (save_snapshot cx fx atmis_put_fts n idx s) = Inr () \<and>
      load_snapshot cx fx atmis_get_fts n (fold (run_snapshot_call cx fx atmis_put_fts cz fz atmis_put_vector) calls'
        (snd (save_snapshot cx fx atmis_put_fts n idx s))) = Inr idx" if "\<forall>x. SaveHere n x \<notin> set calls'"
    using atmis_fts.calls_keep [OF TrueI _ that, where cx = cx and fx = fx and cy = cz and fy = fz and s = "snd (save_snapshot cx fx atmis_put_fts n idx s)"] b
    by (simp add: save_snapshot_def load_snapshot_def atmis_put_fts_def atmis_get_fts_def found_or_def)
qed

text \<open>
  C29: Whatever an application builds by inserting into and removing from a vector index and
  a text index it can save, even both under one name, and after any later saves of either family
  under other names both load exactly as they were saved: no snapshot check refuses an index
  that the engines themselves built, and the two families do not overwrite each other.
\<close>

theorem snapshots_reload:
  assumes "validate_config config = Inr ()" "fold_res hnsw_step ws (hnsw_new config) = Inr ix"
    and "lowercase_nonempty uc" "bm25_reachable uc fconfig jx"
    and "serialises vc hnsw_try_from FamVector ix" "serialises fc (map_err Refused \<circ> bm25_try_from) FamFts jx"
    and "atmis_save_vector_index vc n ix s0 = (r1, s1)" "atmis_save_fts_index fc n jx s1 = (r2, s2)"
    and "\<forall>call \<in> set calls. saved_name call \<noteq> n"
  shows "r1 = Inr () \<and> r2 = Inr () \<and>
    atmis_load_vector_index vc n (atmis_saves vc fc calls s2) = Inr ix \<and>
    atmis_load_fts_index fc n (atmis_saves vc fc calls s2) = Inr jx"
proof -
  have ix: "hnsw_try_from ix = Inr ix"
    using hnsw_history_refines [OF hnsw_new_wf [OF assms(1)], of ws] assms(2) by (simp add: hnsw_try_from_iff)
  have jx: "(map_err Refused \<circ> bm25_try_from) jx = Inr jx"
    using bm25_reachable_wf [OF assms(3,4)] bm25_try_from_iff [of jx jx] by simp
  note saves = assms(7,8) [unfolded atmis_save_vector_index_def atmis_save_fts_index_def]
  have "\<forall>x. SaveHere n x \<notin> set (SaveThere n jx # calls)" "\<forall>x. SaveHere n x \<notin> set (map swapped calls)"
    using assms(9) by (force dest: arg_cong [where f = saved_name])+
  from atmis_round_trip(1) [OF assms(5) ix this(1), of s0 fc FamFts] atmis_round_trip(2) [OF assms(6) jx this(2), of s1 vc FamVector]
  show ?thesis
    by (simp add: saves history_swapped atmis_load_vector_index_def atmis_load_fts_index_def)
qed

text \<open>A storage library that keeps envelopes as they are.\<close>

type_synonym sample_bytes = "nat hnsw snapshot_envelope + nat bm25 snapshot_envelope"

definition sample_vector_codec :: "(nat hnsw, sample_bytes) snapshot_codec" where
  "sample_vector_codec = \<lparr>sc_write = (\<lambda>e. Inr (Inl e)),
     sc_header = (\<lambda>b. Inr (case b of Inl e \<Rightarrow> (ev_format_version e, ev_family e) | Inr e \<Rightarrow> (ev_format_version e, ev_family e))),
     sc_read = (\<lambda>b. case b of Inl e \<Rightarrow> and_then (hnsw_try_from (ev_payload e)) (\<lambda>i. Inr (e\<lparr>ev_payload := i\<rparr>))
       | Inr _ \<Rightarrow> Inl (Refused ''not a vector index''))\<rparr>"

definition sample_fts_codec :: "(nat bm25, sample_bytes) snapshot_codec" where
  "sample_fts_codec = \<lparr>sc_write = (\<lambda>e. Inr (Inr e)), sc_header = sc_header sample_vector_codec,
     sc_read = (\<lambda>b. case b of Inr e \<Rightarrow> map_err Refused (and_then (bm25_try_from (ev_payload e)) (\<lambda>i. Inr (e\<lparr>ev_payload := i\<rparr>)))
       | Inl _ \<Rightarrow> Inl (Refused ''not a text index''))\<rparr>"

lemma sample_codecs_serialise:
  "serialises sample_vector_codec hnsw_try_from FamVector ix"
  "serialises sample_fts_codec (map_err Refused \<circ> bm25_try_from) FamFts jx"
  by (simp_all add: serialises_def sample_vector_codec_def sample_fts_codec_def envelope_new_def
    and_then_def map_err_def split: sum.splits)

theorem snapshots_reload_witness:
  "\<exists>ix s. fold_res hnsw_step [HInsert 1 [0]] (hnsw_new sample_config) = Inr ix \<and>
     s = snd (atmis_save_fts_index sample_fts_codec ''docs'' sample_bm25
           (snd (atmis_save_vector_index sample_vector_codec ''docs'' ix atmis_snapshots_new))) \<and>
     atmis_load_vector_index sample_vector_codec ''docs''
       (atmis_saves sample_vector_codec sample_fts_codec [SaveHere ''other'' ix] s) = Inr ix"
proof -
  obtain ix where ix: "fold_res hnsw_step [HInsert 1 [0]] (hnsw_new sample_config) = Inr (ix :: nat hnsw)"
    using hnsw_history_refines [OF hnsw_new_wf [OF sample_config_valid], of "[HInsert (1 :: nat) [0]]"]
    by (simp add: hnsw_new_def sample_vectors split: sum.splits)
  show ?thesis
    using snapshots_reload [OF sample_config_valid ix ascii_lowercase_nonempty sample_bm25_reachable
      sample_codecs_serialise prod.collapse [symmetric] prod.collapse [symmetric],
      where n = "''docs''" and calls = "[SaveHere ''other'' ix]"] ix
    by (auto intro!: exI [of _ ix])
qed

end
