(* ===== verification/Thesauros.thy ===== *)
theory Thesauros
  imports Backend Persistence
begin

text \<open>
  The durable adapter (\<open>crates/thesauros/src/lib.rs\<close>): lifecycle state and named snapshots in
  seven keyspaces of an fjall database. The database is a parameter: the calls the adapter makes
  on it, over a database state, with what fjall documents about them as the hypothesis
  \<open>fjall_ok\<close> of \<open>Thesauros_Laws\<close>.
\<close>

section \<open>The database\<close>

datatype keyspace =
    VECTOR_PARTITION | FTS_PARTITION | LIFECYCLE_HEADS | LIFECYCLE_VERSIONS
  | LIFECYCLE_STAGING | LIFECYCLE_OPERATIONS | LIFECYCLE_QUARANTINE

datatype 'b batch_item = BatchInsert keyspace string 'b | BatchRemove keyspace string

text \<open>
  The calls on fjall: reads of a snapshot of the database, whose iterators yield one guard per
  entry that may fail; a batch's commit with its fsync; a single insert and the journal's fsync.
\<close>

record ('d, 'b) fjall =
  fj_get :: "'d \<Rightarrow> keyspace \<Rightarrow> string \<Rightarrow> string + 'b option"
  fj_contains_key :: "'d \<Rightarrow> keyspace \<Rightarrow> string \<Rightarrow> string + bool"
  fj_prefix :: "'d \<Rightarrow> keyspace \<Rightarrow> string \<Rightarrow> (string + string \<times> 'b) list"
  fj_iter :: "'d \<Rightarrow> keyspace \<Rightarrow> (string + string \<times> 'b) list"
  fj_last_key_value :: "'d \<Rightarrow> keyspace \<Rightarrow> (string + string) option"
  fj_commit :: "'b batch_item list \<Rightarrow> 'd \<Rightarrow> (string + unit) \<times> 'd"
  fj_insert :: "keyspace \<Rightarrow> string \<Rightarrow> 'b \<Rightarrow> 'd \<Rightarrow> (string + unit) \<times> 'd"
  fj_persist :: "'d \<Rightarrow> (string + unit) \<times> 'd"

text \<open>The adapter: the database, the commit lock's poison flag, and the largest value it stores.\<close>

record 'd thesauros =
  th_db :: 'd
  th_poisoned :: bool
  th_value_limit :: nat

definition MAX_VALUE_LEN :: nat where
  "MAX_VALUE_LEN = 2 ^ 32 - 1"

definition thesauros_open :: "'d \<Rightarrow> 'd thesauros" where
  "thesauros_open d = \<lparr>th_db = d, th_poisoned = False, th_value_limit = MAX_VALUE_LEN\<rparr>"

definition or_persistence :: "string + 'a \<Rightarrow> heurema_error + 'a" where
  "or_persistence r = map_err (Persistence \<circ> FjallError) r"

section \<open>Checks\<close>

definition refuse_oversized :: "'d thesauros \<Rightarrow> string \<Rightarrow> nat \<Rightarrow> heurema_error + unit" where
  "refuse_oversized s what len =
     (if len > th_value_limit s then Inl (Persistence (OversizedValue what len (th_value_limit s))) else Inr ())"

definition commit_lock :: "'d thesauros \<Rightarrow> heurema_error + unit" where
  "commit_lock s = (if th_poisoned s then Inl (Persistence CommitLockPoisoned) else Inr ())"

definition th_get :: "('d, 'b) fjall \<Rightarrow> 'd \<Rightarrow> keyspace \<Rightarrow> string \<Rightarrow> heurema_error + 'b option" where
  "th_get F d ks key = or_persistence (fj_get F d ks key)"

definition th_contains :: "('d, 'b) fjall \<Rightarrow> 'd \<Rightarrow> keyspace \<Rightarrow> string \<Rightarrow> heurema_error + bool" where
  "th_contains F d ks key = or_persistence (fj_contains_key F d ks key)"

definition th_first_staged :: "('d, 'b) fjall \<Rightarrow> 'd \<Rightarrow> string \<Rightarrow> heurema_error + (index_version \<times> 'b) option" where
  "th_first_staged F d p =
     (case fj_prefix F d LIFECYCLE_STAGING p of
        [] \<Rightarrow> Inr None
      | guard # _ \<Rightarrow>
          and_then (or_persistence guard) (\<lambda>(key, marker).
          and_then (parse_staging key) (\<lambda>(_, version). Inr (Some (version, marker)))))"

definition th_check_head ::
    "('d, 'b) fjall \<Rightarrow> 'd \<Rightarrow> index_identity \<Rightarrow> string \<Rightarrow> 'b option \<Rightarrow> heurema_error + unit" where
  "th_check_head F d i hkey expected =
     and_then (or_persistence (fj_get F d LIFECYCLE_HEADS hkey)) (\<lambda>stored.
     if stored = expected then Inr () else Inl (HeadChanged i))"

definition th_refuse_staged :: "('d, 'b) fjall \<Rightarrow> 'd \<Rightarrow> index_identity \<Rightarrow> string \<Rightarrow> heurema_error + unit" where
  "th_refuse_staged F d i p =
     and_then (th_first_staged F d p) (\<lambda>found.
     case found of None \<Rightarrow> Inr () | Some (version, _) \<Rightarrow> Inl (StagedStateExists i version))"

definition th_refuse_stored_version ::
    "('d, 'b) fjall \<Rightarrow> 'd \<Rightarrow> index_identity \<Rightarrow> index_version \<Rightarrow> string \<Rightarrow> heurema_error + unit" where
  "th_refuse_stored_version F d i v vkey =
     and_then (th_contains F d LIFECYCLE_VERSIONS vkey) (\<lambda>stored.
     if stored then Inl (VersionStored i v) else Inr ())"

definition th_check_marker ::
    "('d, 'b) fjall \<Rightarrow> 'd \<Rightarrow> index_identity \<Rightarrow> index_version \<Rightarrow> string \<Rightarrow> 'b \<Rightarrow> heurema_error + unit" where
  "th_check_marker F d i v skey marker =
     and_then (or_persistence (fj_get F d LIFECYCLE_STAGING skey)) (\<lambda>stored.
     if stored = Some marker then Inr () else Inl (StagedStateMissing i v))"

definition th_check_payload ::
    "('d, 'b) fjall \<Rightarrow> 'd \<Rightarrow> index_identity \<Rightarrow> index_version \<Rightarrow> string \<Rightarrow> heurema_error + unit" where
  "th_check_payload F d i v vkey =
     and_then (th_contains F d LIFECYCLE_VERSIONS vkey) (\<lambda>stored.
     if stored then Inr () else Inl (StagedStateMissing i v))"

definition th_refuse_recorded ::
    "('d, 'b) fjall \<Rightarrow> 'd \<Rightarrow> index_identity \<Rightarrow> operation_key \<Rightarrow> string \<Rightarrow> heurema_error + unit" where
  "th_refuse_recorded F d i k okey =
     and_then (th_contains F d LIFECYCLE_OPERATIONS okey) (\<lambda>recorded.
     if recorded then Inl (OperationRecorded i k) else Inr ())"

definition th_next_sequence :: "('d, 'b) fjall \<Rightarrow> 'd \<Rightarrow> heurema_error + nat" where
  "th_next_sequence F d =
     (case fj_last_key_value F d LIFECYCLE_QUARANTINE of
        None \<Rightarrow> Inr FIRST_SEQUENCE
      | Some guard \<Rightarrow>
          and_then (or_persistence guard) (\<lambda>key.
          and_then (parse_quarantine key) (\<lambda>(last, _).
          case usize_checked_add last 1 of
            Some next \<Rightarrow> Inr next
          | None \<Rightarrow> Inl (Persistence (QuarantineSequenceExhausted ThesaurosAdapter)))))"

section \<open>Reads\<close>

definition thesauros_read_head :: "('d, 'b) fjall \<Rightarrow> 'd thesauros \<Rightarrow> index_identity \<Rightarrow> heurema_error + 'b option" where
  "thesauros_read_head F s i = th_get F (th_db s) LIFECYCLE_HEADS (head_key i)"

definition thesauros_read_version ::
    "('d, 'b) fjall \<Rightarrow> 'd thesauros \<Rightarrow> index_identity \<Rightarrow> index_version \<Rightarrow> heurema_error + 'b option" where
  "thesauros_read_version F s i v = th_get F (th_db s) LIFECYCLE_VERSIONS (version_key i v)"

definition thesauros_read_operation ::
    "('d, 'b) fjall \<Rightarrow> 'd thesauros \<Rightarrow> index_identity \<Rightarrow> operation_key \<Rightarrow> heurema_error + 'b option" where
  "thesauros_read_operation F s i k = th_get F (th_db s) LIFECYCLE_OPERATIONS (operation_storage_key i k)"

definition thesauros_read_staging ::
    "('d, 'b) fjall \<Rightarrow> 'd thesauros \<Rightarrow> index_identity \<Rightarrow> heurema_error + (index_version \<times> 'b) option" where
  "thesauros_read_staging F s i = th_first_staged F (th_db s) (index_prefix i)"

section \<open>Writes\<close>

text \<open>The commit of a batch that passed its checks; a refused write commits nothing.\<close>

definition th_commit ::
    "('d, 'b) fjall \<Rightarrow> heurema_error + 'b batch_item list \<Rightarrow> 'd thesauros \<Rightarrow> (heurema_error + unit) \<times> 'd thesauros" where
  "th_commit F outcome s =
     (case outcome of
        Inl e \<Rightarrow> (Inl e, s)
      | Inr batch \<Rightarrow> (case fj_commit F batch (th_db s) of (r, d) \<Rightarrow> (or_persistence r, s\<lparr>th_db := d\<rparr>)))"

definition thesauros_stage ::
    "('d, 'b) fjall \<Rightarrow> ('b \<Rightarrow> nat) \<Rightarrow> 'b stage_write \<Rightarrow> 'd thesauros \<Rightarrow> (heurema_error + unit) \<times> 'd thesauros" where
  "thesauros_stage F len w s =
     (let i = sw_index w; v = sw_version w; d = th_db s;
          vkey = version_key i v; skey = staging_key i v;
          okey = operation_storage_key i (sw_key w)
      in th_commit F
        (and_then (refuse_oversized s ''a version payload'' (len (sw_payload w))) (\<lambda>_.
         and_then (refuse_oversized s ''a staging marker'' (len (sw_marker w))) (\<lambda>_.
         and_then (refuse_oversized s ''a head record'' (sw_head_len w)) (\<lambda>_.
         and_then (refuse_oversized s ''an operation record'' (sw_operation_len w)) (\<lambda>_.
         and_then (commit_lock s) (\<lambda>_.
         and_then (th_check_head F d i (head_key i) (sw_expected_head w)) (\<lambda>_.
         and_then (th_refuse_staged F d i (index_prefix i)) (\<lambda>_.
         and_then (th_refuse_stored_version F d i v vkey) (\<lambda>_.
         and_then (th_refuse_recorded F d i (sw_key w) okey) (\<lambda>_.
         Inr [BatchInsert LIFECYCLE_VERSIONS vkey (sw_payload w),
              BatchInsert LIFECYCLE_STAGING skey (sw_marker w)]))))))))))
        s)"

definition thesauros_publish ::
    "('d, 'b) fjall \<Rightarrow> ('b \<Rightarrow> nat) \<Rightarrow> 'b publish_write \<Rightarrow> 'd thesauros \<Rightarrow> (heurema_error + unit) \<times> 'd thesauros" where
  "thesauros_publish F len w s =
     (let i = pw_index w; v = pw_version w; d = th_db s;
          vkey = version_key i v; skey = staging_key i v;
          okey = operation_storage_key i (pw_key w)
      in th_commit F
        (and_then (refuse_oversized s ''a head record'' (len (pw_head w))) (\<lambda>_.
         and_then (refuse_oversized s ''an operation record'' (len (pw_operation w))) (\<lambda>_.
         and_then (commit_lock s) (\<lambda>_.
         and_then (th_check_head F d i (head_key i) (pw_expected_head w)) (\<lambda>_.
         and_then (th_check_marker F d i v skey (pw_marker w)) (\<lambda>_.
         and_then (th_check_payload F d i v vkey) (\<lambda>_.
         and_then (th_refuse_recorded F d i (pw_key w) okey) (\<lambda>_.
         Inr [BatchInsert LIFECYCLE_HEADS (head_key i) (pw_head w),
              BatchInsert LIFECYCLE_OPERATIONS okey (pw_operation w),
              BatchRemove LIFECYCLE_STAGING skey]))))))))
        s)"

definition thesauros_destroy ::
    "('d, 'b) fjall \<Rightarrow> ('b \<Rightarrow> nat) \<Rightarrow> 'b destroy_write \<Rightarrow> 'd thesauros \<Rightarrow> (heurema_error + unit) \<times> 'd thesauros" where
  "thesauros_destroy F len w s =
     (let i = dw_index w; d = th_db s; okey = operation_storage_key i (dw_key w)
      in th_commit F
        (and_then (refuse_oversized s ''a head record'' (len (dw_head w))) (\<lambda>_.
         and_then (refuse_oversized s ''an operation record'' (len (dw_operation w))) (\<lambda>_.
         and_then (commit_lock s) (\<lambda>_.
         and_then (th_check_head F d i (head_key i) (Some (dw_expected_head w))) (\<lambda>_.
         and_then (th_refuse_staged F d i (index_prefix i)) (\<lambda>_.
         and_then (th_refuse_recorded F d i (dw_key w) okey) (\<lambda>_.
         Inr ([BatchInsert LIFECYCLE_HEADS (head_key i) (dw_head w),
               BatchInsert LIFECYCLE_OPERATIONS okey (dw_operation w)] @
              map (\<lambda>v. BatchRemove LIFECYCLE_VERSIONS (version_key i v)) (dw_versions w)))))))))
        s)"

definition thesauros_quarantine ::
    "('d, 'b) fjall \<Rightarrow> ('b \<Rightarrow> nat) \<Rightarrow> 'b quarantine_write \<Rightarrow> 'd thesauros \<Rightarrow> (heurema_error + unit) \<times> 'd thesauros" where
  "thesauros_quarantine F len w s =
     (let i = qw_index w; v = qw_version w; d = th_db s;
          vkey = version_key i v; skey = staging_key i v
      in th_commit F
        (and_then (refuse_oversized s ''a staging marker'' (len (qw_marker w))) (\<lambda>_.
         and_then (commit_lock s) (\<lambda>_.
         and_then (th_check_marker F d i v skey (qw_marker w)) (\<lambda>_.
         and_then (or_persistence (fj_get F d LIFECYCLE_VERSIONS vkey)) (\<lambda>payload.
         and_then (th_next_sequence F d) (\<lambda>sequence.
         Inr ([BatchInsert LIFECYCLE_QUARANTINE (quarantine_key sequence i v Marker) (qw_marker w)] @
              (case payload of None \<Rightarrow> []
               | Some payload \<Rightarrow> [BatchInsert LIFECYCLE_QUARANTINE (quarantine_key sequence i v Payload) payload]) @
              [BatchRemove LIFECYCLE_STAGING skey, BatchRemove LIFECYCLE_VERSIONS vkey])))))))
        s)"

section \<open>Listings\<close>

definition thesauros_list_heads :: "('d, 'b) fjall \<Rightarrow> 'd thesauros \<Rightarrow> heurema_error + (index_identity \<times> 'b) list" where
  "thesauros_list_heads F s =
     map_res (\<lambda>guard. and_then (or_persistence guard) (\<lambda>(key, head).
       and_then (parse_head key) (\<lambda>i. Inr (i, head)))) (fj_iter F (th_db s) LIFECYCLE_HEADS)"

definition thesauros_list_staged :: "('d, 'b) fjall \<Rightarrow> 'd thesauros \<Rightarrow> heurema_error + 'b staged_entry list" where
  "thesauros_list_staged F s =
     map_res (\<lambda>guard. and_then (or_persistence guard) (\<lambda>(key, marker).
       and_then (parse_staging key) (\<lambda>(i, v). Inr \<lparr>se_index = i, se_version = v, se_marker = marker\<rparr>)))
       (fj_iter F (th_db s) LIFECYCLE_STAGING)"

definition thesauros_list_operations ::
    "('d, 'b) fjall \<Rightarrow> 'd thesauros \<Rightarrow> index_identity \<Rightarrow> heurema_error + (operation_key \<times> 'b) list" where
  "thesauros_list_operations F s i =
     map_res (\<lambda>guard. and_then (or_persistence guard) (\<lambda>(key, operation).
       and_then (parse_operation key) (\<lambda>(_, k). Inr (k, operation))))
       (fj_prefix F (th_db s) LIFECYCLE_OPERATIONS (index_prefix i))"

text \<open>
  One row of the quarantine keyspace: a marker opens an entry, a payload completes the entry
  opened last. The arm of the source for other parts is for parts a later version may add.
\<close>

definition quarantine_row ::
    "string \<times> 'b \<Rightarrow> 'b quarantined_entry list \<Rightarrow> heurema_error + 'b quarantined_entry list" where
  "quarantine_row row entries =
     (case row of (key, val) \<Rightarrow>
      and_then (parse_quarantine key) (\<lambda>(sequence, i, v, part).
      case part of
        Marker \<Rightarrow> Inr (entries @ [\<lparr>qe_sequence = sequence, qe_index = i, qe_version = v, qe_marker = val, qe_payload = None\<rparr>])
      | Payload \<Rightarrow>
          (if entries \<noteq> [] \<and> qe_sequence (last entries) = sequence \<and> qe_index (last entries) = i \<and>
              qe_version (last entries) = v \<and> qe_payload (last entries) = None
           then Inr (butlast entries @ [(last entries)\<lparr>qe_payload := Some val\<rparr>])
           else Inl (CorruptSnapshot (UnpairedQuarantineEntry sequence ''holds a payload without its marker'')))))"

definition thesauros_list_quarantined :: "('d, 'b) fjall \<Rightarrow> 'd thesauros \<Rightarrow> heurema_error + 'b quarantined_entry list" where
  "thesauros_list_quarantined F s =
     fold_res (\<lambda>guard entries. and_then (or_persistence guard) (\<lambda>row. quarantine_row row entries))
       (fj_iter F (th_db s) LIFECYCLE_QUARANTINE) []"

definition thesauros_backend :: "('d, 'b) fjall \<Rightarrow> ('b \<Rightarrow> nat) \<Rightarrow> ('d thesauros, 'b) lifecycle_backend" where
  "thesauros_backend F len = \<lparr>b_read_head = thesauros_read_head F, b_read_version = thesauros_read_version F,
     b_read_operation = thesauros_read_operation F, b_read_staging = thesauros_read_staging F,
     b_stage = thesauros_stage F len, b_publish = thesauros_publish F len, b_destroy = thesauros_destroy F len,
     b_list_heads = thesauros_list_heads F, b_list_staged = thesauros_list_staged F,
     b_list_operations = thesauros_list_operations F, b_quarantine = thesauros_quarantine F len,
     b_list_quarantined = thesauros_list_quarantined F\<rparr>"

section \<open>Named snapshots\<close>

text \<open>A put inserts and then syncs the journal; either call may fail.\<close>

definition thesauros_put :: "('d, 'b) fjall \<Rightarrow> keyspace \<Rightarrow> ('b, 'd thesauros) put" where
  "thesauros_put F ks name b s =
     (case fj_insert F ks name b (th_db s) of
        (Inl e, d) \<Rightarrow> (or_persistence (Inl e), s\<lparr>th_db := d\<rparr>)
      | (Inr _, d) \<Rightarrow> (case fj_persist F d of (r, d') \<Rightarrow> (or_persistence r, s\<lparr>th_db := d'\<rparr>)))"

definition thesauros_fetch :: "('d, 'b) fjall \<Rightarrow> keyspace \<Rightarrow> string \<Rightarrow> 'd thesauros \<Rightarrow> heurema_error + 'b" where
  "thesauros_fetch F ks name s = and_then (or_persistence (fj_get F (th_db s) ks name)) (found_or name)"

definition thesauros_save_vector_index ::
    "('d, 'b) fjall \<Rightarrow> ('x, 'b) snapshot_codec \<Rightarrow> string \<Rightarrow> 'x \<Rightarrow> 'd thesauros \<Rightarrow> (heurema_error + unit) \<times> 'd thesauros" where
  "thesauros_save_vector_index F cod = save_snapshot cod FamVector (thesauros_put F VECTOR_PARTITION)"

definition thesauros_load_vector_index ::
    "('d, 'b) fjall \<Rightarrow> ('x, 'b) snapshot_codec \<Rightarrow> string \<Rightarrow> 'd thesauros \<Rightarrow> 'x res" where
  "thesauros_load_vector_index F cod = load_snapshot cod FamVector (thesauros_fetch F VECTOR_PARTITION)"

definition thesauros_save_fts_index ::
    "('d, 'b) fjall \<Rightarrow> ('x, 'b) snapshot_codec \<Rightarrow> string \<Rightarrow> 'x \<Rightarrow> 'd thesauros \<Rightarrow> (heurema_error + unit) \<times> 'd thesauros" where
  "thesauros_save_fts_index F cod = save_snapshot cod FamFts (thesauros_put F FTS_PARTITION)"

definition thesauros_load_fts_index ::
    "('d, 'b) fjall \<Rightarrow> ('x, 'b) snapshot_codec \<Rightarrow> string \<Rightarrow> 'd thesauros \<Rightarrow> 'x res" where
  "thesauros_load_fts_index F cod = load_snapshot cod FamFts (thesauros_fetch F FTS_PARTITION)"

end
