(* ===== verification/Thesauros_Laws.thy ===== *)
theory Thesauros_Laws
  imports Thesauros
begin

text \<open>
  The durable adapter meets the storage contract over every database that keeps fjall's documented
  promises: the hypothesis \<open>fjall_ok\<close>, the abstract store a database holds, each check and write
  against the contract, the listings, the snapshots' name spaces, and the adapter's
  properties.
\<close>

section \<open>What fjall documents\<close>

text \<open>
  The contents of a database are seven ordered maps. A read returns what they hold or an error; an
  iterator yields its entries in key order until it ends or a guard fails; a batch whose keys
  and values are within fjall's limits is committed whole, or fails with no effect or its
  whole effect; so does an insert. Nothing is said of a batch beyond the limits, on which fjall
  panics.
\<close>

type_synonym 'b contents = "keyspace \<Rightarrow> (string, 'b) btree"

definition MAX_KEY_LEN :: nat where
  "MAX_KEY_LEN = 65535"

fun within_limits :: "('b \<Rightarrow> nat) \<Rightarrow> 'b batch_item \<Rightarrow> bool" where
  "within_limits len (BatchInsert ks k b) \<longleftrightarrow> length k \<le> MAX_KEY_LEN \<and> len b \<le> MAX_VALUE_LEN"
| "within_limits len (BatchRemove ks k) \<longleftrightarrow> length k \<le> MAX_KEY_LEN"

fun apply_item :: "'b batch_item \<Rightarrow> 'b contents \<Rightarrow> 'b contents" where
  "apply_item (BatchInsert ks k b) c = c(ks := bt_insert k b (c ks))"
| "apply_item (BatchRemove ks k) c = c(ks := bt_remove k (c ks))"

definition returns :: "string + 'a \<Rightarrow> 'a \<Rightarrow> bool" where
  "returns r x \<longleftrightarrow> r = Inr x \<or> (\<exists>e. r = Inl e)"

definition yields :: "(string + 'a) list \<Rightarrow> 'a list \<Rightarrow> bool" where
  "yields guards xs \<longleftrightarrow> guards = map Inr xs \<or> (\<exists>n e rest. guards = map Inr (take n xs) @ Inl e # rest)"

definition commits :: "(string + unit) \<times> 'd \<Rightarrow> ('d \<Rightarrow> 'b contents) \<Rightarrow> 'd \<Rightarrow> 'b contents \<Rightarrow> bool" where
  "commits out contents d c \<longleftrightarrow>
     (case out of (r, d') \<Rightarrow> contents d' = c \<or> (\<exists>e. r = Inl e) \<and> contents d' = contents d)"

definition fjall_ok :: "('d, 'b) fjall \<Rightarrow> ('b \<Rightarrow> nat) \<Rightarrow> ('d \<Rightarrow> 'b contents) \<Rightarrow> bool" where
  "fjall_ok F len contents \<longleftrightarrow>
     (\<forall>d ks k. returns (fj_get F d ks k) (bt_get (contents d ks) k)) \<and>
     (\<forall>d ks k. returns (fj_contains_key F d ks k) (bt_contains (contents d ks) k)) \<and>
     (\<forall>d ks p. yields (fj_prefix F d ks p) (filter (\<lambda>(k, _). prefix p k) (bt_entries (contents d ks)))) \<and>
     (\<forall>d ks. yields (fj_iter F d ks) (bt_entries (contents d ks))) \<and>
     (\<forall>d ks. case fj_last_key_value F d ks of
        None \<Rightarrow> bt_entries (contents d ks) = []
      | Some guard \<Rightarrow> (\<exists>e. guard = Inl e) \<or>
          bt_entries (contents d ks) \<noteq> [] \<and> guard = Inr (fst (last (bt_entries (contents d ks))))) \<and>
     (\<forall>batch d. (\<forall>item \<in> set batch. within_limits len item) \<longrightarrow>
        commits (fj_commit F batch d) contents d (fold apply_item batch (contents d))) \<and>
     (\<forall>ks k b d. within_limits len (BatchInsert ks k b) \<longrightarrow>
        commits (fj_insert F ks k b d) contents d (apply_item (BatchInsert ks k b) (contents d))) \<and>
     (\<forall>d. commits (fj_persist F d) contents d (contents d))"

text \<open>What a failed call on the database becomes.\<close>

lemma or_persistence_cases [consumes 1]:
  assumes "returns r x"
  obtains "or_persistence r = Inr x" | src where "or_persistence r = Inl (Persistence src)"
  using assms by (auto simp: returns_def or_persistence_def map_err_def)

lemma or_persistence_iff:
  "or_persistence r = Inr x \<longleftrightarrow> r = Inr x"
  "or_persistence r = Inl e \<longleftrightarrow> (\<exists>e'. r = Inl e' \<and> e = Persistence (FjallError e'))"
  by (auto simp: or_persistence_def map_err_def split: sum.splits)

lemma yields_first:
  "yields (guard # rest) xs \<Longrightarrow> (\<exists>e. guard = Inl e) \<or> (\<exists>x ys. xs = x # ys \<and> guard = Inr x)"
  "yields [] xs \<Longrightarrow> xs = []"
  by (auto simp: yields_def Cons_eq_append_conv Cons_eq_map_conv take_Cons' split: if_splits)
    (metis list.set_cases list.set_intros(1) take_eq_Nil neq_Nil_conv nth_Cons_0 take_Suc_Cons old.nat.exhaust list.sel(1))+

section \<open>The abstract store\<close>

text \<open>The rows of one quarantined entry, and the entries that a quarantine keyspace lists.\<close>

definition rows_of :: "'b quarantined_entry \<Rightarrow> (string \<times> 'b) list" where
  "rows_of e = (let key = quarantine_key (qe_sequence e) (qe_index e) (qe_version e)
     in (key Marker, qe_marker e) # (case qe_payload e of None \<Rightarrow> [] | Some p \<Rightarrow> [(key Payload, p)]))"

definition logged_entries :: "(string \<times> 'b) list \<Rightarrow> 'b quarantined_entry list" where
  "logged_entries rows = (case fold_res quarantine_row rows [] of Inr log \<Rightarrow> log | Inl _ \<Rightarrow> [])"

definition thesauros_store :: "'b contents \<Rightarrow> 'b store" where
  "thesauros_store c = \<lparr>st_heads = (\<lambda>i. bt_get (c LIFECYCLE_HEADS) (head_key i)),
     st_versions = (\<lambda>i v. bt_get (c LIFECYCLE_VERSIONS) (version_key i v)),
     st_staging = (\<lambda>i v. bt_get (c LIFECYCLE_STAGING) (staging_key i v)),
     st_operations = (\<lambda>i k. bt_get (c LIFECYCLE_OPERATIONS) (operation_storage_key i k)),
     st_quarantine = logged_entries (bt_entries (c LIFECYCLE_QUARANTINE))\<rparr>"

definition quarantine_ok :: "(string \<times> 'b) list \<Rightarrow> 'b quarantined_entry list \<Rightarrow> bool" where
  "quarantine_ok rows log \<longleftrightarrow> rows = concat (map rows_of log) \<and> sorted_wrt (<) (map qe_sequence log) \<and>
     (\<forall>e \<in> set log. qe_sequence e < 2 ^ 64)"

text \<open>Every key follows the grammar, stored payloads fit, and the quarantine rows pair up.\<close>

definition contents_ok :: "('b \<Rightarrow> nat) \<Rightarrow> 'b contents \<Rightarrow> bool" where
  "contents_ok len c \<longleftrightarrow>
     (\<forall>k x. bt_get (c LIFECYCLE_HEADS) k = Some x \<longrightarrow> (\<exists>i. k = head_key i)) \<and>
     (\<forall>k x. bt_get (c LIFECYCLE_VERSIONS) k = Some x \<longrightarrow> (\<exists>i v. k = version_key i v) \<and> len x \<le> MAX_VALUE_LEN) \<and>
     (\<forall>k x. bt_get (c LIFECYCLE_STAGING) k = Some x \<longrightarrow> (\<exists>i v. k = staging_key i v)) \<and>
     (\<forall>k x. bt_get (c LIFECYCLE_OPERATIONS) k = Some x \<longrightarrow> (\<exists>i o'. k = operation_storage_key i o')) \<and>
     (\<exists>log. quarantine_ok (bt_entries (c LIFECYCLE_QUARANTINE)) log)"

definition thesauros_wf :: "('b \<Rightarrow> nat) \<Rightarrow> ('d \<Rightarrow> 'b contents) \<Rightarrow> 'd thesauros \<Rightarrow> bool" where
  "thesauros_wf len contents s \<longleftrightarrow> th_value_limit s \<le> MAX_VALUE_LEN \<and> contents_ok len (contents (th_db s))"

abbreviation thesauros_abs :: "('d \<Rightarrow> 'b contents) \<Rightarrow> 'd thesauros \<Rightarrow> 'b store" where
  "thesauros_abs contents s \<equiv> thesauros_store (contents (th_db s))"

lemma thesauros_store_sel [simp]:
  "st_heads (thesauros_store c) i = bt_get (c LIFECYCLE_HEADS) (head_key i)"
  "st_versions (thesauros_store c) i v = bt_get (c LIFECYCLE_VERSIONS) (version_key i v)"
  "st_staging (thesauros_store c) i v = bt_get (c LIFECYCLE_STAGING) (staging_key i v)"
  "st_operations (thesauros_store c) i k = bt_get (c LIFECYCLE_OPERATIONS) (operation_storage_key i k)"
  "st_quarantine (thesauros_store c) = logged_entries (bt_entries (c LIFECYCLE_QUARANTINE))"
  by (simp_all add: thesauros_store_def)

lemma thesauros_empty:
  assumes "\<And>ks. contents d ks = bt_empty"
  shows "thesauros_wf len contents (thesauros_open d)" "thesauros_abs contents (thesauros_open d) = empty_store"
proof -
  have "quarantine_ok [] []" by (simp add: quarantine_ok_def)
  then show "thesauros_wf len contents (thesauros_open d)"
    by (auto simp: thesauros_wf_def contents_ok_def thesauros_open_def assms)
  show "thesauros_abs contents (thesauros_open d) = empty_store"
    by (simp add: thesauros_store_def thesauros_open_def empty_store_def assms logged_entries_def)
qed

text \<open>Listing the rows of well-formed entries gives them back.\<close>

lemma fold_rows_of:
  assumes "qe_sequence e < 2 ^ 64"
  shows "fold_res quarantine_row (rows_of e) acc = Inr (acc @ [e])"
proof -
  have "parse_quarantine (quarantine_key (qe_sequence e) (qe_index e) (qe_version e) p) =
      Inr (qe_sequence e, qe_index e, qe_version e, p)" for p
    using assms by (simp add: parse_quarantine_iff)
  then show ?thesis
    by (cases e; cases "qe_payload e") (simp_all add: rows_of_def Let_def quarantine_row_def)
qed

lemma fold_res_append: "fold_res f (xs @ ys) s = and_then (fold_res f xs s) (fold_res f ys)"
  by (induction xs arbitrary: s) (simp_all add: and_then_def split: sum.split)

lemma fold_rows:
  "\<forall>e \<in> set log. qe_sequence e < 2 ^ 64 \<Longrightarrow> fold_res quarantine_row (concat (map rows_of log)) acc = Inr (acc @ log)"
  by (induction log arbitrary: acc) (simp_all add: fold_res_append fold_rows_of)

lemma logged_entries_ok: "quarantine_ok rows log \<Longrightarrow> logged_entries rows = log"
  by (simp add: logged_entries_def quarantine_ok_def fold_rows)

text \<open>A key above every stored one goes last.\<close>

lemma bt_entries_insert_last:
  assumes "\<And>k' v'. (k', v') \<in> set (bt_entries m) \<Longrightarrow> k' < k"
  shows "bt_entries (bt_insert k v m) = bt_entries m @ [(k, v)]"
proof -
  have "sorted_wrt (<) (map fst (bt_entries m @ [(k, v)]))"
    using assms bt_entries_sorted [of m] by (force simp: sorted_wrt_append)
  then obtain n where n: "bt_entries n = bt_entries m @ [(k, v)]"
    using Btree_inverse [of "bt_entries m @ [(k, v)]"] by blast
  have absent: "map_of (bt_entries m) k = None"
    using assms map_of_SomeD [of "bt_entries m" k] by (cases "map_of (bt_entries m) k") auto
  have "bt_get n k' = bt_get (bt_insert k v m) k'" for k'
  proof -
    have "bt_get n k' = map_of (bt_entries m @ [(k, v)]) k'" by (simp only: bt_get.rep_eq n)
    also have "\<dots> = (if k' = k then Some v else bt_get m k')"
      unfolding bt_get.rep_eq using absent by (simp add: map_add_def split: option.split)
    also have "\<dots> = bt_get (bt_insert k v m) k'" by (simp add: bt_get_insert)
    finally show ?thesis .
  qed
  then have "n = bt_insert k v m" by (rule bt_eqI)
  with n show ?thesis by simp
qed

lemma rows_keys: "(k, x) \<in> set (rows_of e) \<Longrightarrow> \<exists>p. k = quarantine_key (qe_sequence e) (qe_index e) (qe_version e) p"
  by (auto simp: rows_of_def Let_def split: option.splits)

lemma quarantine_ok_snoc:
  assumes "quarantine_ok (bt_entries m) log" "qe_sequence e < 2 ^ 64" "\<forall>e' \<in> set log. qe_sequence e' < qe_sequence e"
  shows "quarantine_ok (bt_entries (fold (\<lambda>(k, x). bt_insert k x) (rows_of e) m)) (log @ [e])"
proof -
  let ?key = "quarantine_key (qe_sequence e) (qe_index e) (qe_version e)"
  have less: "k < ?key p" if "(k, x) \<in> set (bt_entries m)" for k x p
  proof -
    from that assms(1) obtain e' where "e' \<in> set log" "(k, x) \<in> set (rows_of e')"
      by (auto simp: quarantine_ok_def)
    with rows_keys assms(1-3) show ?thesis
      by (fastforce simp: quarantine_ok_def intro!: quarantine_key_less)
  qed
  have "bt_entries (fold (\<lambda>(k, x). bt_insert k x) (rows_of e) m) = bt_entries m @ rows_of e"
  proof (cases "qe_payload e")
    case None
    with less show ?thesis by (simp add: rows_of_def Let_def bt_entries_insert_last)
  next
    case (Some p)
    have one: "bt_entries (bt_insert (?key Marker) (qe_marker e) m) = bt_entries m @ [(?key Marker, qe_marker e)]"
      by (rule bt_entries_insert_last) (rule less)
    have "bt_entries (bt_insert (?key Payload) p (bt_insert (?key Marker) (qe_marker e) m)) =
        bt_entries m @ [(?key Marker, qe_marker e)] @ [(?key Payload, p)]"
      by (subst bt_entries_insert_last) (use less quarantine_marker_less in \<open>auto simp: one\<close>)
    with Some show ?thesis by (simp add: rows_of_def Let_def)
  qed
  with assms show ?thesis by (simp add: quarantine_ok_def sorted_wrt_append)
qed

section \<open>Keys stay within the limit\<close>

lemma grammar_length: "grammar_reason g s = None \<Longrightarrow> length s \<le> g_max_len g"
  by (auto simp: grammar_accepts_iff)

lemma identifier_lengths:
  "length (ns_str n) \<le> 64" "length (name_str m) \<le> 128" "length (key_str k) \<le> 128"
  using ns_str [of n] name_str [of m] key_str [of k]
  by (auto simp: OWNER_NAMESPACE_def INDEX_NAME_def OPERATION_KEY_def dest!: grammar_length)

lemma key_lengths:
  "length (head_key i) \<le> 193" "length (version_key i v) \<le> 214" "length (operation_storage_key i k) \<le> 322"
  using identifier_lengths(1) [of "namespace i"] identifier_lengths(2) [of "iname i"] identifier_lengths(3) [of k]
    version_get_bound [of v]
  by (simp_all add: key_defs pad_decimal_length DECIMAL_WIDTH_def)

lemma quarantine_key_length: "n < 2 ^ 64 \<Longrightarrow> length (quarantine_key n i v p) \<le> 243"
  using key_lengths(2) [of i v] by (cases p) (simp_all add: quarantine_key_def pad_decimal_length DECIMAL_WIDTH_def)

lemma keys_within [simp]:
  "length (head_key i) \<le> MAX_KEY_LEN" "length (version_key i v) \<le> MAX_KEY_LEN"
  "length (staging_key i v) \<le> MAX_KEY_LEN" "length (operation_storage_key i k) \<le> MAX_KEY_LEN"
  "n < 2 ^ 64 \<Longrightarrow> length (quarantine_key n i v p) \<le> MAX_KEY_LEN"
  using key_lengths(1) [of i] key_lengths(2) [of i v] key_lengths(3) [of i k] quarantine_key_length [of n i v p]
  by (simp_all add: MAX_KEY_LEN_def staging_key_def)

section \<open>Each check decides its condition\<close>

definition decides :: "heurema_error + unit \<Rightarrow> heurema_error \<Rightarrow> bool \<Rightarrow> bool" where
  "decides r e bad \<longleftrightarrow> r = (if bad then Inl e else Inr ()) \<or> (\<exists>src. r = Inl (Persistence src))"

lemma decidesD:
  "decides r e bad \<Longrightarrow> r = Inr () \<Longrightarrow> \<not> bad"
  "decides r e bad \<Longrightarrow> r = Inl e' \<Longrightarrow> e' = e \<and> bad \<or> (\<exists>src. e' = Persistence src)"
  by (auto simp: decides_def split: if_splits)

lemma fjall_laws:
  assumes "fjall_ok F len contents"
  shows "returns (fj_get F d ks k) (bt_get (contents d ks) k)"
    "returns (fj_contains_key F d ks k) (bt_contains (contents d ks) k)"
    "yields (fj_prefix F d ks p) (filter (\<lambda>(k, _). prefix p k) (bt_entries (contents d ks)))"
    "yields (fj_iter F d ks) (bt_entries (contents d ks))"
    "fj_last_key_value F d ks = None \<Longrightarrow> bt_entries (contents d ks) = []"
    "fj_last_key_value F d ks = Some (Inr key) \<Longrightarrow>
      bt_entries (contents d ks) \<noteq> [] \<and> key = fst (last (bt_entries (contents d ks)))"
    "\<forall>item \<in> set batch. within_limits len item \<Longrightarrow>
      commits (fj_commit F batch d) contents d (fold apply_item batch (contents d))"
    "within_limits len (BatchInsert ks k b) \<Longrightarrow>
      commits (fj_insert F ks k b d) contents d (apply_item (BatchInsert ks k b) (contents d))"
    "commits (fj_persist F d) contents d (contents d)"
proof -
  note laws = assms [unfolded fjall_ok_def]
  show "returns (fj_get F d ks k) (bt_get (contents d ks) k)"
    "returns (fj_contains_key F d ks k) (bt_contains (contents d ks) k)"
    "yields (fj_prefix F d ks p) (filter (\<lambda>(k, _). prefix p k) (bt_entries (contents d ks)))"
    "yields (fj_iter F d ks) (bt_entries (contents d ks))"
    using laws by blast+
  have "case fj_last_key_value F d ks of None \<Rightarrow> bt_entries (contents d ks) = []
      | Some guard \<Rightarrow> (\<exists>e. guard = Inl e) \<or>
          bt_entries (contents d ks) \<noteq> [] \<and> guard = Inr (fst (last (bt_entries (contents d ks))))"
    using laws by blast
  then show "fj_last_key_value F d ks = None \<Longrightarrow> bt_entries (contents d ks) = []"
    "fj_last_key_value F d ks = Some (Inr key) \<Longrightarrow>
      bt_entries (contents d ks) \<noteq> [] \<and> key = fst (last (bt_entries (contents d ks)))"
    by auto
  show "\<forall>item \<in> set batch. within_limits len item \<Longrightarrow>
      commits (fj_commit F batch d) contents d (fold apply_item batch (contents d))"
    "within_limits len (BatchInsert ks k b) \<Longrightarrow>
      commits (fj_insert F ks k b d) contents d (apply_item (BatchInsert ks k b) (contents d))"
    "commits (fj_persist F d) contents d (contents d)"
    using laws by blast+
qed

text \<open>The checks that look up one key.\<close>

lemma decides_read:
  "returns r x \<Longrightarrow> f x = (if bad then Inl e else Inr ()) \<Longrightarrow> decides (and_then (or_persistence r) f) e bad"
  by (auto simp: decides_def elim!: or_persistence_cases)

lemma key_checks:
  assumes "fjall_ok F len contents"
  shows "decides (th_check_head F d i k x) (HeadChanged i) (bt_get (contents d LIFECYCLE_HEADS) k \<noteq> x)"
    "decides (th_refuse_stored_version F d i v k) (VersionStored i v) (bt_get (contents d LIFECYCLE_VERSIONS) k \<noteq> None)"
    "decides (th_check_marker F d i v k m) (StagedStateMissing i v) (bt_get (contents d LIFECYCLE_STAGING) k \<noteq> Some m)"
    "decides (th_check_payload F d i v k) (StagedStateMissing i v) (bt_get (contents d LIFECYCLE_VERSIONS) k = None)"
    "decides (th_refuse_recorded F d i o' k) (OperationRecorded i o') (bt_get (contents d LIFECYCLE_OPERATIONS) k \<noteq> None)"
  unfolding th_check_head_def th_refuse_stored_version_def th_check_marker_def th_check_payload_def
    th_refuse_recorded_def th_contains_def
  by (rule decides_read, rule fjall_laws [OF assms], simp)+

lemma guard_checks:
  "refuse_oversized s what n = Inl e \<Longrightarrow> \<exists>src. e = Persistence src"
  "refuse_oversized s what n = Inr u \<Longrightarrow> n \<le> th_value_limit s"
  "commit_lock s = Inl e \<Longrightarrow> \<exists>src. e = Persistence src"
  by (auto simp: refuse_oversized_def commit_lock_def split: if_splits)

lemmas check_refused = key_checks [THEN decidesD(2)]
lemmas check_passed = key_checks [THEN decidesD(1)]

text \<open>The staged version a prefix scan meets first is the lowest.\<close>

lemma staging_scan:
  assumes wf: "contents_ok len c"
  shows "filter (\<lambda>(k, _). prefix (index_prefix i) k) (bt_entries (c LIFECYCLE_STAGING)) = [] \<longleftrightarrow>
      nothing_staged (thesauros_store c) i"
    and "filter (\<lambda>(k, _). prefix (index_prefix i) k) (bt_entries (c LIFECYCLE_STAGING)) = (key, m) # rest \<Longrightarrow>
      \<exists>v. key = staging_key i v \<and> lowest_staged (thesauros_store c) i v \<and> st_staging (thesauros_store c) i v = Some m"
proof -
  let ?f = "filter (\<lambda>(k, _). prefix (index_prefix i) k) (bt_entries (c LIFECYCLE_STAGING))"
  have keys: "\<exists>j v. k = staging_key j v" if "bt_get (c LIFECYCLE_STAGING) k = Some x" for k x
    using that wf by (auto simp: contents_ok_def)
  have member: "(k, x) \<in> set ?f \<longleftrightarrow> (\<exists>v. k = staging_key i v \<and> bt_get (c LIFECYCLE_STAGING) k = Some x)" for k x
    using keys [of k x] by (auto simp: bt_entries_iff staging_key_def)
  have "?f = [] \<longleftrightarrow> (\<forall>k x. (k, x) \<notin> set ?f)" by (metis list.set_intros(1) neq_Nil_conv set_empty2 emptyE surj_pair)
  then show "?f = [] \<longleftrightarrow> nothing_staged (thesauros_store c) i"
    unfolding member by (simp add: nothing_staged_def) (metis not_None_eq)
  assume f: "?f = (key, m) # rest"
  then have "(key, m) \<in> set ?f" by simp
  then obtain v where v: "key = staging_key i v" "bt_get (c LIFECYCLE_STAGING) key = Some m" by (auto simp only: member)
  have "sorted_wrt (\<lambda>a b. fst a < fst b) ?f"
    using bt_entries_sorted [of "c LIFECYCLE_STAGING"] by (simp add: sorted_wrt_map sorted_wrt_filter)
  then have "k = key \<or> key < k" if "(k, x) \<in> set ?f" for k x using that by (auto simp: f)
  then have "v \<le> w" if "bt_get (c LIFECYCLE_STAGING) (staging_key i w) = Some x" for w x
    using that member [of "staging_key i w" x] v(1) by (fastforce simp: staging_key_def version_key_less_iff)
  with v show "\<exists>v. key = staging_key i v \<and> lowest_staged (thesauros_store c) i v \<and> st_staging (thesauros_store c) i v = Some m"
    by (auto simp: lowest_staged_def)
qed

lemma first_staged_reads:
  assumes "fjall_ok F len contents" "contents_ok len (contents d)"
  shows "\<exists>x. reads (th_first_staged F d (index_prefix i)) x \<and> staged_view (thesauros_store (contents d)) i x"
proof (cases "fj_prefix F d LIFECYCLE_STAGING (index_prefix i)")
  case Nil
  then have "nothing_staged (thesauros_store (contents d)) i"
    using fjall_laws(3) [OF assms(1), of d LIFECYCLE_STAGING "index_prefix i"] staging_scan(1) [OF assms(2)]
    by (auto dest: yields_first)
  with Nil show ?thesis by (intro exI [of _ None]) (simp add: th_first_staged_def reads_def staged_view_def)
next
  case (Cons guard rest)
  have "(\<exists>e. guard = Inl e) \<or> (\<exists>x ys. filter (\<lambda>(k, _). prefix (index_prefix i) k) (bt_entries (contents d LIFECYCLE_STAGING)) = x # ys \<and> guard = Inr x)"
    using fjall_laws(3) [OF assms(1), of d LIFECYCLE_STAGING "index_prefix i"] unfolding Cons by (rule yields_first)
  then show ?thesis
  proof (elim disjE exE conjE)
    fix e assume "guard = Inl e"
    moreover have "\<exists>x. staged_view (thesauros_store (contents d)) i x"
    proof (cases "filter (\<lambda>(k, _). prefix (index_prefix i) k) (bt_entries (contents d LIFECYCLE_STAGING))")
      case Nil
      then show ?thesis using staging_scan(1) [OF assms(2), of i]
        by (intro exI [of _ None]) (simp add: staged_view_def)
    next
      case (Cons km rest)
      then obtain v where "lowest_staged (thesauros_store (contents d)) i v"
          "st_staging (thesauros_store (contents d)) i v = Some (snd km)"
        using staging_scan(2) [OF assms(2), of i "fst km" "snd km" rest] by auto
      then show ?thesis by (intro exI [of _ "Some (v, snd km)"]) (simp add: staged_view_def)
    qed
    ultimately show ?thesis using Cons by (auto simp: th_first_staged_def reads_def or_persistence_def map_err_def)
  next
    fix x ys
    assume f: "filter (\<lambda>(k, _). prefix (index_prefix i) k) (bt_entries (contents d LIFECYCLE_STAGING)) = x # ys" and "guard = Inr x"
    moreover obtain key m where x: "x = (key, m)" by force
    moreover obtain v where v: "key = staging_key i v" "lowest_staged (thesauros_store (contents d)) i v"
        "st_staging (thesauros_store (contents d)) i v = Some m"
      using staging_scan(2) [OF assms(2) f [unfolded x]] by blast
    ultimately show ?thesis using Cons
      by (intro exI [of _ "Some (v, m)"])
        (simp add: th_first_staged_def reads_def or_persistence_def map_err_def staged_view_def parse_staging_def
          staging_key_def parse_version_iff [THEN iffD2])
  qed
qed

lemma refuse_staged_checks:
  assumes "fjall_ok F len contents" "contents_ok len (contents d)"
  shows "th_refuse_staged F d i (index_prefix i) = Inr () \<Longrightarrow> nothing_staged (thesauros_store (contents d)) i"
    and "th_refuse_staged F d i (index_prefix i) = Inl e \<Longrightarrow>
      (\<exists>v. e = StagedStateExists i v \<and> lowest_staged (thesauros_store (contents d)) i v) \<or> (\<exists>src. e = Persistence src)"
  using first_staged_reads [OF assms, of i]
  by (auto simp: th_refuse_staged_def reads_def staged_view_def split: option.splits)

lemma next_sequence_checks:
  assumes "fjall_ok F len contents" "quarantine_ok (bt_entries (contents d LIFECYCLE_QUARANTINE)) log"
  shows "th_next_sequence F d = Inr n \<Longrightarrow> n < 2 ^ 64 \<and> (\<forall>e \<in> set log. qe_sequence e < n)"
    and "th_next_sequence F d = Inl e \<Longrightarrow> \<exists>src. e = Persistence src"
proof -
  let ?rows = "bt_entries (contents d LIFECYCLE_QUARANTINE)"
  have last_key: "\<exists>p. parse_quarantine (fst (last ?rows)) = Inr (qe_sequence (last log), qe_index (last log), qe_version (last log), p) \<and>
      log \<noteq> []" if "?rows \<noteq> []"
  proof -
    from that assms(2) have "log \<noteq> []" by (auto simp: quarantine_ok_def)
    with assms(2) have log: "log \<noteq> []" "?rows = concat (map rows_of log)" "qe_sequence (last log) < 2 ^ 64"
      by (simp_all add: quarantine_ok_def)
    then have "last ?rows \<in> set (rows_of (last log))"
      by (cases log rule: rev_cases) (auto simp: rows_of_def Let_def split: option.splits)
    then show ?thesis using log rows_keys [of "fst (last ?rows)" "snd (last ?rows)" "last log"]
      by (auto simp: parse_quarantine_iff)
  qed
  have below: "\<forall>e \<in> set log. qe_sequence e \<le> qe_sequence (last log)" if "log \<noteq> []"
    using that assms(2) by (cases log rule: rev_cases) (auto simp: quarantine_ok_def sorted_wrt_append)
  note seq = fjall_laws(5,6) [OF assms(1), of d LIFECYCLE_QUARANTINE]
  have empty: "?rows = [] \<Longrightarrow> log = []" using assms(2) by (auto simp: quarantine_ok_def rows_of_def Let_def)
  show "n < 2 ^ 64 \<and> (\<forall>e \<in> set log. qe_sequence e < n)" if "th_next_sequence F d = Inr n"
    using that seq last_key below empty
    by (fastforce simp: th_next_sequence_def res_simps or_persistence_iff usize_checked_add_def usize_max_def FIRST_SEQUENCE_def
      split: option.splits if_splits)
  show "\<exists>src. e = Persistence src" if "th_next_sequence F d = Inl e"
    using that seq last_key
    by (fastforce simp: th_next_sequence_def and_then_Inl_iff or_persistence_iff split: option.splits)
qed

text \<open>
  One shape for all four writes: a refusal the specification makes, or a batch within fjall's limits
  whose whole effect is the specified one.
\<close>

lemma th_commit_obeys:
  assumes "fjall_ok F len contents" "th_commit F outcome s = (r, s')" "thesauros_wf len contents s"
    and "\<And>e. outcome = Inl e \<Longrightarrow> spec (thesauros_abs contents s) (Inl e) (thesauros_abs contents s) \<or> (\<exists>src. e = Persistence src)"
    and "\<And>batch. outcome = Inr batch \<Longrightarrow> (\<forall>item \<in> set batch. within_limits len item) \<and>
      contents_ok len (fold apply_item batch (contents (th_db s))) \<and>
      spec (thesauros_abs contents s) (Inr ()) (thesauros_store (fold apply_item batch (contents (th_db s))))"
  shows "thesauros_wf len contents s' \<and> obeys spec (thesauros_abs contents s) r (thesauros_abs contents s')"
proof (cases outcome)
  case (Inl e)
  with assms(2-4) show ?thesis by (auto simp: th_commit_def obeys_def)
next
  case (Inr batch)
  obtain r' d' where out: "fj_commit F batch (th_db s) = (r', d')" by force
  from assms(5) [OF Inr] fjall_laws(7) [OF assms(1), of batch "th_db s"]
  have "commits (fj_commit F batch (th_db s)) contents (th_db s) (fold apply_item batch (contents (th_db s)))" by simp
  with out Inr assms(2,3) assms(5) [OF Inr] show ?thesis
    by (cases r') (auto simp: th_commit_def commits_def obeys_def thesauros_wf_def or_persistence_def map_err_def)
qed

lemma fold_remove_items:
  "fold apply_item (map (\<lambda>v. BatchRemove ks (f v)) vs) c = c(ks := fold bt_remove (map f vs) (c ks))"
  by (induction vs arbitrary: c) (simp_all add: fun_eq_iff)

lemma get_fold_remove: "bt_get (fold bt_remove ks m) k = (if k \<in> set ks then None else bt_get m k)"
  by (induction ks arbitrary: m) (auto simp: btree_simps)

lemma thesauros_stage_obeys:
  assumes "fjall_ok F len contents" "thesauros_wf len contents s" "thesauros_stage F len w s = (r, s')"
  shows "thesauros_wf len contents s' \<and> obeys (spec_stage w) (thesauros_abs contents s) r (thesauros_abs contents s')"
proof (rule th_commit_obeys [OF assms(1) assms(3) [unfolded thesauros_stage_def Let_def] assms(2)], goal_cases)
  have wf: "contents_ok len (contents (th_db s))" using assms(2) by (simp add: thesauros_wf_def)
  note refused = guard_checks check_refused [OF assms(1)] refuse_staged_checks(2) [OF assms(1) wf]
  note passed = guard_checks(2) check_passed [OF assms(1)] refuse_staged_checks(1) [OF assms(1) wf]
  {
    case (1 e)
    then show ?case
      unfolding and_then_Inl_iff by (auto simp: spec_stage.simps dest!: refused passed)
  next
    case (2 batch)
    then show ?case
      using assms(2) by (auto simp: res_simps thesauros_wf_def contents_ok_def btree_simps spec_stage.simps thesauros_store_def
        fun_eq_iff staging_key_def dest!: passed split: if_splits)
  }
qed

lemma thesauros_publish_obeys:
  assumes "fjall_ok F len contents" "thesauros_wf len contents s" "thesauros_publish F len w s = (r, s')"
  shows "thesauros_wf len contents s' \<and> obeys (spec_publish w) (thesauros_abs contents s) r (thesauros_abs contents s')"
proof (rule th_commit_obeys [OF assms(1) assms(3) [unfolded thesauros_publish_def Let_def] assms(2)], goal_cases)
  note refused = guard_checks check_refused [OF assms(1)]
  note passed = guard_checks(2) check_passed [OF assms(1)]
  {
    case (1 e)
    then show ?case
      unfolding and_then_Inl_iff by (auto simp: spec_publish.simps dest!: refused passed)
  next
    case (2 batch)
    then show ?case
      using assms(2) by (auto simp: res_simps thesauros_wf_def contents_ok_def btree_simps spec_publish.simps thesauros_store_def
        fun_eq_iff staging_key_def dest!: passed split: if_splits)
  }
qed

lemma thesauros_destroy_obeys:
  assumes "fjall_ok F len contents" "thesauros_wf len contents s" "thesauros_destroy F len w s = (r, s')"
  shows "thesauros_wf len contents s' \<and> obeys (spec_destroy w) (thesauros_abs contents s) r (thesauros_abs contents s')"
proof (rule th_commit_obeys [OF assms(1) assms(3) [unfolded thesauros_destroy_def Let_def] assms(2)], goal_cases)
  have wf: "contents_ok len (contents (th_db s))" using assms(2) by (simp add: thesauros_wf_def)
  note refused = guard_checks check_refused [OF assms(1)] refuse_staged_checks(2) [OF assms(1) wf]
  note passed = guard_checks(2) check_passed [OF assms(1)] refuse_staged_checks(1) [OF assms(1) wf]
  {
    case (1 e)
    then show ?case
      unfolding and_then_Inl_iff by (auto simp: spec_destroy.simps dest!: refused passed)
  next
    case (2 batch)
    then show ?case
      using assms(2) by (auto simp: res_simps thesauros_wf_def contents_ok_def btree_simps spec_destroy.simps thesauros_store_def
        fold_remove_items get_fold_remove image_iff fun_eq_iff staging_key_def dest!: passed split: if_splits)
  }
qed

lemma thesauros_quarantine_obeys:
  assumes "fjall_ok F len contents" "thesauros_wf len contents s" "thesauros_quarantine F len w s = (r, s')"
  shows "thesauros_wf len contents s' \<and> obeys (spec_quarantine w) (thesauros_abs contents s) r (thesauros_abs contents s')"
proof (rule th_commit_obeys [OF assms(1) assms(3) [unfolded thesauros_quarantine_def Let_def] assms(2)], goal_cases)
  have wf: "contents_ok len (contents (th_db s))" and limit: "th_value_limit s \<le> MAX_VALUE_LEN"
    using assms(2) by (simp_all add: thesauros_wf_def)
  then obtain log where log: "quarantine_ok (bt_entries (contents (th_db s) LIFECYCLE_QUARANTINE)) log"
    by (auto simp: contents_ok_def)
  note sequence = next_sequence_checks [OF assms(1) log]
  note payload = fjall_laws(1) [OF assms(1), of "th_db s" LIFECYCLE_VERSIONS "version_key (qw_index w) (qw_version w)"]
  {
    case (1 e)
    then show ?case
      unfolding and_then_Inl_iff
      by (auto simp: spec_quarantine.simps or_persistence_iff dest!: guard_checks check_refused [OF assms(1)] sequence)
  next
    case (2 batch)
    let ?i = "qw_index w" and ?v = "qw_version w" and ?c = "contents (th_db s)"
    from 2 obtain n where marker: "bt_get (?c LIFECYCLE_STAGING) (staging_key ?i ?v) = Some (qw_marker w)"
        and fits: "len (qw_marker w) \<le> th_value_limit s" and seq: "th_next_sequence F (th_db s) = Inr n"
        and batch: "batch = BatchInsert LIFECYCLE_QUARANTINE (quarantine_key n ?i ?v Marker) (qw_marker w) #
          (case bt_get (?c LIFECYCLE_VERSIONS) (version_key ?i ?v) of None \<Rightarrow> []
            | Some p \<Rightarrow> [BatchInsert LIFECYCLE_QUARANTINE (quarantine_key n ?i ?v Payload) p]) @
          [BatchRemove LIFECYCLE_STAGING (staging_key ?i ?v), BatchRemove LIFECYCLE_VERSIONS (version_key ?i ?v)]"
      using payload
      by (auto simp: res_simps or_persistence_iff returns_def dest!: guard_checks(2) check_passed [OF assms(1)])
    note n = sequence(1) [OF seq, THEN conjunct1] sequence(1) [OF seq, THEN conjunct2]
    let ?e = "\<lparr>qe_sequence = n, qe_index = ?i, qe_version = ?v, qe_marker = qw_marker w,
      qe_payload = bt_get (?c LIFECYCLE_VERSIONS) (version_key ?i ?v)\<rparr>"
    have after: "quarantine_ok (bt_entries (fold (\<lambda>(k, x). bt_insert k x) (rows_of ?e) (?c LIFECYCLE_QUARANTINE))) (log @ [?e])"
      using quarantine_ok_snoc [OF log, of ?e] n by simp
    have effect: "fold apply_item batch ?c = ?c(
        LIFECYCLE_QUARANTINE := fold (\<lambda>(k, x). bt_insert k x) (rows_of ?e) (?c LIFECYCLE_QUARANTINE),
        LIFECYCLE_STAGING := bt_remove (staging_key ?i ?v) (?c LIFECYCLE_STAGING),
        LIFECYCLE_VERSIONS := bt_remove (version_key ?i ?v) (?c LIFECYCLE_VERSIONS))"
      by (simp add: batch rows_of_def Let_def fun_eq_iff split: option.split)
    have "\<forall>item \<in> set batch. within_limits len item"
      using wf limit fits n(1) by (auto simp: batch rows_of_def Let_def contents_ok_def split: option.splits)
    moreover have "contents_ok len (fold apply_item batch ?c)"
      using wf after by (auto simp: effect contents_ok_def btree_simps split: if_splits)
    moreover have "spec_quarantine w (thesauros_store ?c) (Inr ()) (thesauros_store (fold apply_item batch ?c))"
      using marker n(2) logged_entries_ok [OF log] logged_entries_ok [OF after]
      by (auto simp: effect spec_quarantine.simps thesauros_store_def fun_eq_iff btree_simps staging_key_def)
    ultimately show ?case by blast
  }
qed

section \<open>The adapter meets the storage contract\<close>

lemma thesauros_backend_sel [simp]:
  "b_read_head (thesauros_backend F len) = thesauros_read_head F"
  "b_read_version (thesauros_backend F len) = thesauros_read_version F"
  "b_read_operation (thesauros_backend F len) = thesauros_read_operation F"
  "b_read_staging (thesauros_backend F len) = thesauros_read_staging F"
  "b_stage (thesauros_backend F len) = thesauros_stage F len"
  "b_publish (thesauros_backend F len) = thesauros_publish F len"
  "b_destroy (thesauros_backend F len) = thesauros_destroy F len"
  "b_quarantine (thesauros_backend F len) = thesauros_quarantine F len"
  by (simp_all add: thesauros_backend_def)

lemma reads_get: "fjall_ok F len contents \<Longrightarrow> reads (th_get F d ks k) (bt_get (contents d ks) k)"
  using fjall_laws(1) [of F len contents d ks k]
  by (auto simp: th_get_def reads_def elim!: or_persistence_cases)

text \<open>For every database that keeps fjall's promises.\<close>

abbreviation thesauros_inv :: "('d, 'b) fjall \<Rightarrow> ('b \<Rightarrow> nat) \<Rightarrow> ('d \<Rightarrow> 'b contents) \<Rightarrow> 'd thesauros \<Rightarrow> bool" where
  "thesauros_inv F len contents s \<equiv> fjall_ok F len contents \<and> thesauros_wf len contents s"

interpretation thesauros: lifecycle_store "thesauros_backend F len" "thesauros_abs contents" "thesauros_inv F len contents"
  for F :: "('d, 'b) fjall" and len :: "'b \<Rightarrow> nat" and contents :: "'d \<Rightarrow> 'b contents"
proof unfold_locales
  fix s :: "'d thesauros" and i v k
  assume inv: "thesauros_inv F len contents s"
  then have ok: "fjall_ok F len contents" and wf: "thesauros_wf len contents s" by simp_all
  show "reads (b_read_head (thesauros_backend F len) s i) (st_heads (thesauros_abs contents s) i)"
    "reads (b_read_version (thesauros_backend F len) s i v) (st_versions (thesauros_abs contents s) i v)"
    "reads (b_read_operation (thesauros_backend F len) s i k) (st_operations (thesauros_abs contents s) i k)"
    using reads_get [OF ok] by (simp_all add: thesauros_read_head_def thesauros_read_version_def thesauros_read_operation_def)
  show "\<exists>x. reads (b_read_staging (thesauros_backend F len) s i) x \<and> staged_view (thesauros_abs contents s) i x"
    using first_staged_reads [OF ok] wf by (simp add: thesauros_read_staging_def thesauros_wf_def)
qed (auto dest: thesauros_stage_obeys thesauros_publish_obeys thesauros_destroy_obeys thesauros_quarantine_obeys)

section \<open>Listings read the whole store\<close>

lemma map_res_yields:
  assumes "yields guards xs" "map_res f xs = Inr ys"
  shows "reads (map_res (\<lambda>guard. and_then (or_persistence guard) f) guards) ys"
proof -
  have good: "map_res (\<lambda>guard. and_then (or_persistence guard) f) (map Inr zs) = map_res f zs" for zs
    by (induction zs) (simp_all add: or_persistence_def)
  have take: "\<exists>zs. map_res f (take n xs) = Inr zs" for n
    using assms(2) by (induction xs arbitrary: n ys) (auto simp: res_simps take_Cons' split: if_splits)
  have stop: "\<exists>e'. map_res (\<lambda>guard. and_then (or_persistence guard) f) (map Inr zs @ Inl e # rest) = Inl (Persistence e')"
    if "map_res f zs = Inr us" for zs us e rest
    using that by (induction zs arbitrary: us) (auto simp: res_simps or_persistence_def)
  show ?thesis
    using assms good stop take unfolding yields_def reads_def by fastforce
qed

lemma fold_res_yields:
  assumes "yields guards xs" "fold_res f xs acc = Inr ys"
  shows "reads (fold_res (\<lambda>guard acc. and_then (or_persistence guard) (\<lambda>x. f x acc)) guards acc) ys"
proof -
  have good: "fold_res (\<lambda>guard acc. and_then (or_persistence guard) (\<lambda>x. f x acc)) (map Inr zs) acc = fold_res f zs acc" for zs acc
    by (induction zs arbitrary: acc) (simp_all add: or_persistence_def and_then_def split: sum.split)
  have take: "\<exists>zs. fold_res f (take n xs) acc = Inr zs" for n
    using assms(2) by (induction xs arbitrary: n acc) (auto simp: res_simps take_Cons' split: if_splits)
  have stop: "\<exists>e'. fold_res (\<lambda>guard acc. and_then (or_persistence guard) (\<lambda>x. f x acc)) (map Inr zs @ Inl e # rest) acc = Inl (Persistence e')"
    if "fold_res f zs acc = Inr us" for zs us e rest acc
    using that by (induction zs arbitrary: acc) (auto simp: res_simps or_persistence_def)
  show ?thesis
    using assms good stop take unfolding yields_def reads_def by fastforce
qed

lemma list_quarantined_reads:
  assumes "fjall_ok F len contents" "thesauros_wf len contents s"
  shows "reads (thesauros_list_quarantined F s) (st_quarantine (thesauros_abs contents s))"
proof -
  obtain log where log: "quarantine_ok (bt_entries (contents (th_db s) LIFECYCLE_QUARANTINE)) log"
    using assms(2) by (auto simp: thesauros_wf_def contents_ok_def)
  then have "fold_res quarantine_row (bt_entries (contents (th_db s) LIFECYCLE_QUARANTINE)) [] = Inr log"
    using fold_rows [of log "[]"] by (simp add: quarantine_ok_def)
  from fold_res_yields [OF fjall_laws(4) [OF assms(1)] this] show ?thesis
    by (simp add: thesauros_list_quarantined_def logged_entries_ok [OF log])
qed

lemma map_res_rendered:
  assumes "\<And>k x. (k, x) \<in> set xs \<Longrightarrow> \<exists>y. k = render y \<and> f (k, x) = Inr (out y x)"
  shows "\<exists>ys. map_res f xs = Inr (map (\<lambda>(y, x). out y x) ys) \<and> xs = map (\<lambda>(y, x). (render y, x)) ys"
  using assms
proof (induction xs)
  case (Cons kx xs)
  obtain k x where kx: "kx = (k, x)" by force
  with Cons.prems [of k x] obtain y where "k = render y" "f (k, x) = Inr (out y x)" by auto
  moreover from Cons obtain ys where "map_res f xs = Inr (map (\<lambda>(y, x). out y x) ys)" "xs = map (\<lambda>(y, x). (render y, x)) ys"
    by fastforce
  ultimately show ?case by (intro exI [of _ "(y, x) # ys"]) (simp add: kx)
qed simp

text \<open>The rows of a well-formed keyspace read as one list of parsed keys with their values, in key order.\<close>

lemma rendered_rows:
  fixes m :: "(string, 'b) btree"
  assumes "\<And>k x. bt_get m k = Some x \<Longrightarrow> P k \<Longrightarrow> \<exists>y. k = render y \<and> f (k, x) = Inr (out y x)"
    and "\<And>y z. render y = render z \<Longrightarrow> y = z"
  shows "\<exists>ys. map_res f (filter (\<lambda>(k, _). P k) (bt_entries m)) = Inr (map (\<lambda>(y, x). out y x) ys) \<and>
    sorted_wrt (<) (map (render \<circ> fst) ys) \<and> set ys = {(y, x). bt_get m (render y) = Some x \<and> P (render y)}"
proof -
  let ?xs = "filter (\<lambda>(k, _). P k) (bt_entries m)"
  obtain ys where ys: "map_res f ?xs = Inr (map (\<lambda>(y, x). out y x) ys)" "?xs = map (\<lambda>(y, x). (render y, x)) ys"
    using map_res_rendered [of ?xs render f out] assms(1) by (auto simp: bt_entries_iff)
  have "sorted_wrt (\<lambda>a b. fst a < fst b) ?xs"
    using bt_entries_sorted [of m] by (simp add: sorted_wrt_map sorted_wrt_filter)
  then have "sorted_wrt (<) (map (render \<circ> fst) ys)"
    by (simp add: ys(2) sorted_wrt_map case_prod_beta comp_def)
  moreover have "(y, x) \<in> set ys \<longleftrightarrow> (render y, x) \<in> set ?xs" for y x
    using assms(2) by (force simp: ys(2))
  then have "set ys = {(y, x). bt_get m (render y) = Some x \<and> P (render y)}" by (auto simp: bt_entries_iff)
  ultimately show ?thesis using ys(1) by blast
qed

lemma listings_read:
  assumes "fjall_ok F len contents" "thesauros_wf len contents s"
  shows "\<exists>hs. reads (thesauros_list_heads F s) hs \<and> sorted_wrt (<) (map (head_key \<circ> fst) hs) \<and>
      set hs = {(i, h). st_heads (thesauros_abs contents s) i = Some h}"
    and "\<exists>es. reads (thesauros_list_staged F s) es \<and> sorted_wrt (<) (map (\<lambda>e. staging_key (se_index e) (se_version e)) es) \<and>
      set es = {e. st_staging (thesauros_abs contents s) (se_index e) (se_version e) = Some (se_marker e)}"
    and "\<exists>os. reads (thesauros_list_operations F s i) os \<and> sorted_wrt (<) (map fst os) \<and>
      set os = {(k, x). st_operations (thesauros_abs contents s) i k = Some x}"
proof -
  let ?c = "contents (th_db s)"
  have keys: "bt_get (?c LIFECYCLE_HEADS) k = Some x \<Longrightarrow> \<exists>i. k = head_key i"
    "bt_get (?c LIFECYCLE_STAGING) k = Some x \<Longrightarrow> \<exists>i v. k = staging_key i v"
    "bt_get (?c LIFECYCLE_OPERATIONS) k = Some x \<Longrightarrow> \<exists>i o'. k = operation_storage_key i o'" for k x
    using assms(2) by (auto simp: thesauros_wf_def contents_ok_def)
  have "\<exists>ys. map_res (\<lambda>(key, head). and_then (parse_head key) (\<lambda>i. Inr (i, head))) (filter (\<lambda>(k, _). True) (bt_entries (?c LIFECYCLE_HEADS))) =
        Inr (map (\<lambda>(y, x). (y, x)) ys) \<and> sorted_wrt (<) (map (head_key \<circ> fst) ys) \<and>
      set ys = {(y, x). bt_get (?c LIFECYCLE_HEADS) (head_key y) = Some x \<and> True}"
    by (rule rendered_rows) (use keys(1) in \<open>auto simp: parse_head_iff res_simps\<close>)
  then show "\<exists>hs. reads (thesauros_list_heads F s) hs \<and> sorted_wrt (<) (map (head_key \<circ> fst) hs) \<and>
      set hs = {(i, h). st_heads (thesauros_abs contents s) i = Some h}"
    unfolding thesauros_list_heads_def
    using map_res_yields [OF fjall_laws(4) [OF assms(1), of "th_db s" LIFECYCLE_HEADS]] by (fastforce simp: case_prod_beta)
  have "\<exists>ys. map_res (\<lambda>(key, marker). and_then (parse_staging key) (\<lambda>(i, v). Inr \<lparr>se_index = i, se_version = v, se_marker = marker\<rparr>))
        (filter (\<lambda>(k, _). True) (bt_entries (?c LIFECYCLE_STAGING))) =
        Inr (map (\<lambda>(y, x). \<lparr>se_index = fst y, se_version = snd y, se_marker = x\<rparr>) ys) \<and>
      sorted_wrt (<) (map ((\<lambda>(i, v). staging_key i v) \<circ> fst) ys) \<and>
      set ys = {(y, x). bt_get (?c LIFECYCLE_STAGING) ((\<lambda>(i, v). staging_key i v) y) = Some x \<and> True}"
    by (rule rendered_rows) (use keys(2) in \<open>auto simp: parse_staging_def staging_key_def parse_version_iff res_simps\<close>)
  then obtain ys where "map_res (\<lambda>(key, marker). and_then (parse_staging key) (\<lambda>(i, v). Inr \<lparr>se_index = i, se_version = v, se_marker = marker\<rparr>))
        (bt_entries (?c LIFECYCLE_STAGING)) = Inr (map (\<lambda>(y, x). \<lparr>se_index = fst y, se_version = snd y, se_marker = x\<rparr>) ys)"
      "sorted_wrt (<) (map (\<lambda>e. staging_key (se_index e) (se_version e)) (map (\<lambda>(y, x). \<lparr>se_index = fst y, se_version = snd y, se_marker = x\<rparr>) ys))"
      and set: "set ys = {(y, x). bt_get (?c LIFECYCLE_STAGING) ((\<lambda>(i, v). staging_key i v) y) = Some x}"
    by (auto simp: comp_def case_prod_beta)
  moreover have "set (map (\<lambda>(y, x). \<lparr>se_index = fst y, se_version = snd y, se_marker = x\<rparr>) ys) =
      {e. st_staging (thesauros_abs contents s) (se_index e) (se_version e) = Some (se_marker e)}" (is "?l = ?r")
  proof
    show "?l \<subseteq> ?r" by (auto simp: set)
    show "?r \<subseteq> ?l"
    proof
      fix e :: "'b staged_entry" assume "e \<in> ?r"
      then have "((se_index e, se_version e), se_marker e) \<in> set ys" by (simp add: set)
      then show "e \<in> ?l" by (force simp: image_iff)
    qed
  qed
  ultimately show "\<exists>es. reads (thesauros_list_staged F s) es \<and> sorted_wrt (<) (map (\<lambda>e. staging_key (se_index e) (se_version e)) es) \<and>
      set es = {e. st_staging (thesauros_abs contents s) (se_index e) (se_version e) = Some (se_marker e)}"
    unfolding thesauros_list_staged_def
    using map_res_yields [OF fjall_laws(4) [OF assms(1), of "th_db s" LIFECYCLE_STAGING]] by blast
  have "\<exists>ys. map_res (\<lambda>(key, operation). and_then (parse_operation key) (\<lambda>(_, k). Inr (k, operation)))
        (filter (\<lambda>(k, _). prefix (index_prefix i) k) (bt_entries (?c LIFECYCLE_OPERATIONS))) =
        Inr (map (\<lambda>(y, x). (y, x)) ys) \<and> sorted_wrt (<) (map (operation_storage_key i \<circ> fst) ys) \<and>
      set ys = {(y, x). bt_get (?c LIFECYCLE_OPERATIONS) (operation_storage_key i y) = Some x \<and> prefix (index_prefix i) (operation_storage_key i y)}"
    by (rule rendered_rows) (use keys(3) in \<open>fastforce simp: parse_operation_iff res_simps\<close>)+
  then show "\<exists>os. reads (thesauros_list_operations F s i) os \<and> sorted_wrt (<) (map fst os) \<and>
      set os = {(k, x). st_operations (thesauros_abs contents s) i k = Some x}"
    unfolding thesauros_list_operations_def
    using map_res_yields [OF fjall_laws(3) [OF assms(1), of "th_db s" LIFECYCLE_OPERATIONS "index_prefix i"]]
    by (fastforce simp: sorted_wrt_map operation_key_less_iff case_prod_beta)
qed

section \<open>Snapshots keep two name spaces\<close>

definition entry_fits :: "('b \<Rightarrow> nat) \<Rightarrow> string \<Rightarrow> 'b \<Rightarrow> bool" where
  "entry_fits len name b \<longleftrightarrow> length name \<le> MAX_KEY_LEN \<and> len b \<le> MAX_VALUE_LEN"

lemma thesauros_put_sets:
  assumes "fjall_ok F len contents" "entry_fits len n b" "thesauros_put F ks n b s = (r, s')"
  shows "(r = Inr () \<and> contents (th_db s') = apply_item (BatchInsert ks n b) (contents (th_db s))) \<or>
    (\<exists>src. r = Inl (Persistence src)) \<and> (contents (th_db s') = contents (th_db s) \<or>
       contents (th_db s') = apply_item (BatchInsert ks n b) (contents (th_db s)))"
proof -
  obtain r1 d1 where ins: "fj_insert F ks n b (th_db s) = (r1, d1)" by force
  obtain r2 d2 where sync: "fj_persist F d1 = (r2, d2)" by force
  have "commits (r1, d1) contents (th_db s) (apply_item (BatchInsert ks n b) (contents (th_db s)))"
    using fjall_laws(8) [OF assms(1), of ks n b "th_db s"] assms(2) ins by (simp add: entry_fits_def)
  moreover have "commits (r2, d2) contents d1 (contents d1)" using fjall_laws(9) [OF assms(1), of d1] sync by simp
  ultimately show ?thesis
    using assms(3) by (cases r1; cases r2)
      (auto simp: thesauros_put_def ins sync commits_def or_persistence_def map_err_def)
qed

lemma thesauros_put_names:
  assumes "fjall_ok F len contents" "entry_fits len n b" "thesauros_put F ks n b s = (r, s')"
  shows "(r = Inr () \<and> bt_get (contents (th_db s') ks) = (bt_get (contents (th_db s) ks))(n \<mapsto> b)) \<or>
    (\<exists>src. r = Inl (Persistence src)) \<and> (bt_get (contents (th_db s') ks) = bt_get (contents (th_db s) ks) \<or>
       bt_get (contents (th_db s') ks) = (bt_get (contents (th_db s) ks))(n \<mapsto> b))"
    and "ks' \<noteq> ks \<Longrightarrow> contents (th_db s') ks' = contents (th_db s) ks'"
proof -
  have "bt_get (apply_item (BatchInsert ks n b) c ks) = (bt_get (c ks))(n \<mapsto> b)"
    "ks' \<noteq> ks \<Longrightarrow> apply_item (BatchInsert ks n b) c ks' = c ks'" for c :: "'b contents"
    by (simp_all add: fun_eq_iff btree_simps)
  then show "(r = Inr () \<and> bt_get (contents (th_db s') ks) = (bt_get (contents (th_db s) ks))(n \<mapsto> b)) \<or>
    (\<exists>src. r = Inl (Persistence src)) \<and> (bt_get (contents (th_db s') ks) = bt_get (contents (th_db s) ks) \<or>
       bt_get (contents (th_db s') ks) = (bt_get (contents (th_db s) ks))(n \<mapsto> b))"
    "ks' \<noteq> ks \<Longrightarrow> contents (th_db s') ks' = contents (th_db s) ks'"
    using thesauros_put_sets [OF assms] by (elim disjE exE conjE; simp del: apply_item.simps; blast)+
qed

lemma thesauros_fetch_returns:
  "fjall_ok F len contents \<Longrightarrow>
    thesauros_fetch F ks n s = found_or n (bt_get (contents (th_db s) ks) n) \<or> (\<exists>src. thesauros_fetch F ks n s = Inl (Persistence src))"
  using fjall_laws(1) [of F len contents "th_db s" ks n]
  by (auto simp: thesauros_fetch_def elim!: or_persistence_cases)

interpretation thesauros_vec: snapshot_space "\<lambda>s. fjall_ok F len contents"
    "\<lambda>s. bt_get (contents (th_db s) VECTOR_PARTITION)"
    "thesauros_put F VECTOR_PARTITION" "thesauros_fetch F VECTOR_PARTITION" "thesauros_put F FTS_PARTITION" "entry_fits len"
  for F :: "('d, 'b) fjall" and len :: "'b \<Rightarrow> nat" and contents :: "'d \<Rightarrow> 'b contents"
proof unfold_locales
qed (simp_all add: thesauros_put_names(1) thesauros_put_names(2) thesauros_fetch_returns)

interpretation thesauros_fts: snapshot_space "\<lambda>s. fjall_ok F len contents"
    "\<lambda>s. bt_get (contents (th_db s) FTS_PARTITION)"
    "thesauros_put F FTS_PARTITION" "thesauros_fetch F FTS_PARTITION" "thesauros_put F VECTOR_PARTITION" "entry_fits len"
  for F :: "('d, 'b) fjall" and len :: "'b \<Rightarrow> nat" and contents :: "'d \<Rightarrow> 'b contents"
proof unfold_locales
qed (simp_all add: thesauros_put_names(1) thesauros_put_names(2) thesauros_fetch_returns)

text \<open>Snapshots do not touch the lifecycle's keyspaces.\<close>

lemma thesauros_put_lifecycle:
  assumes "fjall_ok F len contents" "entry_fits len n b" "thesauros_put F ks n b s = (r, s')"
    and "ks = VECTOR_PARTITION \<or> ks = FTS_PARTITION"
  shows "thesauros_abs contents s' = thesauros_abs contents s"
  using thesauros_put_sets [OF assms(1-3)] assms(4) by (auto simp: thesauros_store_def)

section \<open>A sample database\<close>

text \<open>An in-memory database whose disk takes a given number of commits and is then full.\<close>

definition sample_fjall :: "(nat \<times> 'b contents, 'b) fjall" where
  "sample_fjall = \<lparr>fj_get = (\<lambda>(n, c) ks k. Inr (bt_get (c ks) k)),
     fj_contains_key = (\<lambda>(n, c) ks k. Inr (bt_contains (c ks) k)),
     fj_prefix = (\<lambda>(n, c) ks p. map Inr (filter (\<lambda>(k, _). prefix p k) (bt_entries (c ks)))),
     fj_iter = (\<lambda>(n, c) ks. map Inr (bt_entries (c ks))),
     fj_last_key_value = (\<lambda>(n, c) ks. if bt_entries (c ks) = [] then None else Some (Inr (fst (last (bt_entries (c ks)))))),
     fj_commit = (\<lambda>batch (n, c). if n = 0 then (Inl ''disk full'', (n, c)) else (Inr (), (n - 1, fold apply_item batch c))),
     fj_insert = (\<lambda>ks k b (n, c). if n = 0 then (Inl ''disk full'', (n, c)) else (Inr (), (n - 1, apply_item (BatchInsert ks k b) c))),
     fj_persist = (\<lambda>(n, c). (Inr (), (n, c)))\<rparr>"

lemma sample_fjall_ok: "fjall_ok sample_fjall len snd"
  unfolding fjall_ok_def by (auto simp: sample_fjall_def returns_def yields_def commits_def)

definition sample_disk :: "nat \<Rightarrow> nat \<times> 'b contents" where
  "sample_disk n = (n, \<lambda>_. bt_empty)"

definition sample_stage :: "nat stage_write" where
  "sample_stage = \<lparr>sw_index = Index_identity (projr (owner_namespace_parse ''owner'')) (projr (index_name_parse ''notes'')),
     sw_version = version_first, sw_key = projr (operation_key_parse ''k-1''), sw_expected_head = None,
     sw_marker = 1, sw_payload = 2, sw_head_len = 1, sw_operation_len = 1\<rparr>"

definition sample_publish :: "nat publish_write" where
  "sample_publish = \<lparr>pw_index = sw_index sample_stage, pw_version = version_first, pw_key = sw_key sample_stage,
     pw_expected_head = None, pw_marker = 1, pw_head = 3, pw_operation = 4\<rparr>"

section \<open>Properties\<close>

abbreviation thesauros_after ::
    "('d, 'b) fjall \<Rightarrow> ('b \<Rightarrow> nat) \<Rightarrow> 'd \<Rightarrow> 'b write_call list \<Rightarrow> 'd thesauros" where
  "thesauros_after F len d calls \<equiv> b_run (thesauros_backend F len) calls (thesauros_open d)"

lemma thesauros_after_wf:
  assumes "fjall_ok F len contents" "\<And>ks. contents d ks = bt_empty"
  shows "thesauros_wf len contents (thesauros_after F len d calls)"
    "store_inv (thesauros_abs contents (thesauros_after F len d calls))"
  using assms thesauros.run_inv [of F len contents "thesauros_open d" calls]
    thesauros.run_store_inv [of F len contents "thesauros_open d" calls] thesauros_empty [of contents d]
  by simp_all

text \<open>
  C6: Over any database that keeps fjall's documented promises, and whichever of its calls fail,
  every write after any history on a freshly opened adapter does what the storage contract
  says: its checks in the contract's order, a refusal without effect, an accepted write with
  its whole effect. A failure of the storage is reported as one and leaves no partial effect,
  and what the contract's invariant promises of stored state holds throughout. No batch
  exceeds the limits on which fjall panics.
\<close>

theorem thesauros_writes_refine_contract:
  assumes "fjall_ok F len contents" "\<And>ks. contents d ks = bt_empty"
    and "b_write (thesauros_backend F len) c (thesauros_after F len d calls) = (r, s')"
  shows "(spec_write c (thesauros_abs contents (thesauros_after F len d calls)) r (thesauros_abs contents s') \<or>
      (\<exists>src. r = Inl (Persistence src)) \<and>
        (thesauros_abs contents s' = thesauros_abs contents (thesauros_after F len d calls) \<or>
         spec_write c (thesauros_abs contents (thesauros_after F len d calls)) (Inr ()) (thesauros_abs contents s'))) \<and>
    store_inv (thesauros_abs contents s')"
proof -
  have inv: "thesauros_inv F len contents (thesauros_after F len d calls)"
    using thesauros_after_wf(1) [OF assms(1,2)] assms(1) by simp
  have "store_inv (thesauros_abs contents s')"
    using thesauros_after_wf(2) [OF assms(1,2)] thesauros.write_effect [OF inv, of c] assms(3)
    by (auto dest: store_inv_write)
  then show ?thesis using thesauros.write_obeys [OF inv assms(3)] by (auto simp: obeys_def)
qed

text \<open>A disk that takes the stage and is full at the publish: the staged version stays, nothing is published.\<close>

lemma sample_disk_empty: "snd (sample_disk n) ks = bt_empty"
  by (simp add: sample_disk_def)

theorem thesauros_writes_refine_contract_witness:
  "\<exists>r s'. b_write (thesauros_backend sample_fjall (\<lambda>_. 1)) (PublishCall sample_publish)
      (thesauros_after sample_fjall (\<lambda>_. 1) (sample_disk 1) [StageCall sample_stage]) = (r, s') \<and>
    store_inv (thesauros_abs snd s')"
proof -
  obtain r s' where run: "b_write (thesauros_backend sample_fjall (\<lambda>_. 1)) (PublishCall sample_publish)
      (thesauros_after sample_fjall (\<lambda>_. 1) (sample_disk 1) [StageCall sample_stage]) = (r, s')" by force
  then show ?thesis using thesauros_writes_refine_contract [OF sample_fjall_ok sample_disk_empty run] by blast
qed

text \<open>
  C35: The listings of the durable adapter return, unless the storage fails, exactly what
  is stored: every head, every staged marker and every operation record of an index once and
  in key order, and every quarantined entry in the order it was quarantined, each marker paired
  with its own payload.
\<close>

theorem thesauros_listings_complete:
  assumes "fjall_ok F len contents" "\<And>ks. contents d ks = bt_empty" "s = thesauros_after F len d calls"
  shows "(\<exists>hs. reads (thesauros_list_heads F s) hs \<and> sorted_wrt (<) (map (head_key \<circ> fst) hs) \<and>
      set hs = {(i, h). st_heads (thesauros_abs contents s) i = Some h}) \<and>
    (\<exists>es. reads (thesauros_list_staged F s) es \<and> sorted_wrt (<) (map (\<lambda>e. staging_key (se_index e) (se_version e)) es) \<and>
      set es = {e. st_staging (thesauros_abs contents s) (se_index e) (se_version e) = Some (se_marker e)}) \<and>
    (\<exists>os. reads (thesauros_list_operations F s i) os \<and> sorted_wrt (<) (map fst os) \<and>
      set os = {(k, x). st_operations (thesauros_abs contents s) i k = Some x}) \<and>
    reads (thesauros_list_quarantined F s) (st_quarantine (thesauros_abs contents s))"
  using listings_read [OF assms(1), of s] list_quarantined_reads [OF assms(1), of s] thesauros_after_wf(1) [OF assms(1,2)]
  unfolding assms(3) by blast

theorem thesauros_listings_complete_witness:
  "reads (thesauros_list_quarantined sample_fjall (thesauros_after sample_fjall (\<lambda>_. 1) (sample_disk 1) [StageCall sample_stage]))
     (st_quarantine (thesauros_abs snd (thesauros_after sample_fjall (\<lambda>_. 1) (sample_disk 1) [StageCall sample_stage])))"
  using thesauros_listings_complete [OF sample_fjall_ok sample_disk_empty refl] by blast

text \<open>
  C36: A stage checks the sizes of what its publish will store, so once an operation is staged
  its publish is not refused for the size of the head or the operation record, which would
  leave the staged version behind.
\<close>

theorem thesauros_stage_reserves_publish:
  assumes "thesauros_stage F len sw s = (Inr (), s')"
    and "len (pw_head pw) = sw_head_len sw" "len (pw_operation pw) = sw_operation_len sw"
    and "th_value_limit t = th_value_limit s'"
  shows "fst (thesauros_publish F len pw t) \<noteq> Inl (Persistence (OversizedValue what n limit))"
proof -
  have "th_value_limit s' = th_value_limit s" "sw_head_len sw \<le> th_value_limit s" "sw_operation_len sw \<le> th_value_limit s"
    using assms(1) by (auto simp: thesauros_stage_def Let_def th_commit_def res_simps dest!: guard_checks(2) split: sum.splits prod.splits)
  then have "and_then (refuse_oversized t ''a head record'' (len (pw_head pw))) f = f ()"
    "and_then (refuse_oversized t ''an operation record'' (len (pw_operation pw))) f = f ()" for f :: "unit \<Rightarrow> heurema_error + 'b batch_item list"
    using assms(2-4) by (simp_all add: refuse_oversized_def)
  then show ?thesis
    by (auto simp: thesauros_publish_def Let_def th_commit_def and_then_Inl_iff or_persistence_iff commit_lock_def
      th_check_head_def th_check_marker_def th_check_payload_def th_refuse_recorded_def th_contains_def
      split: sum.splits prod.splits if_splits)
qed

theorem thesauros_stage_reserves_publish_witness:
  "\<exists>s' :: (nat \<times> nat contents) thesauros.
     thesauros_stage sample_fjall (\<lambda>_. 1) sample_stage (thesauros_open (sample_disk 1)) = (Inr (), s') \<and>
     fst (thesauros_publish sample_fjall (\<lambda>_. 1) sample_publish s') \<noteq>
       Inl (Persistence (OversizedValue ''a head record'' 1 MAX_VALUE_LEN))"
proof -
  let ?s' = "snd (thesauros_stage sample_fjall (\<lambda>_. 1) sample_stage (thesauros_open (sample_disk 1)))"
  have ran: "thesauros_stage sample_fjall (\<lambda>_. 1) sample_stage (thesauros_open (sample_disk 1)) = (Inr (), ?s')"
    by (simp add: thesauros_stage_def Let_def th_commit_def refuse_oversized_def commit_lock_def thesauros_open_def
      th_check_head_def th_refuse_staged_def th_first_staged_def th_refuse_stored_version_def th_refuse_recorded_def
      th_contains_def or_persistence_def sample_disk_def sample_fjall_def sample_stage_def MAX_VALUE_LEN_def)
  show ?thesis
    using ran thesauros_stage_reserves_publish [OF ran, where pw = sample_publish and t = ?s'] by (auto simp: sample_stage_def)
qed

abbreviation thesauros_saves ::
    "('d, 'b) fjall \<Rightarrow> ('x, 'b) snapshot_codec \<Rightarrow> ('y, 'b) snapshot_codec \<Rightarrow> ('x, 'y) snapshot_call list \<Rightarrow> 'd thesauros \<Rightarrow> 'd thesauros" where
  "thesauros_saves F vc fc \<equiv>
     fold (run_snapshot_call vc FamVector (thesauros_put F VECTOR_PARTITION) fc FamFts (thesauros_put F FTS_PARTITION))"

text \<open>
  On the durable adapter too, a vector index and a text index that were saved, even both under
  one name, load as they were saved after any later saves under other names, unless the
  storage fails to read them; so long as names and encoded indexes are within fjall's limits,
  and even if later saves fail.
\<close>

theorem thesauros_snapshots_reload:
  assumes "fjall_ok F len contents"
    and "validate_config config = Inr ()" "fold_res hnsw_step ws (hnsw_new config) = Inr ix"
    and "lowercase_nonempty uc" "bm25_reachable uc fconfig jx"
    and "serialises vc hnsw_try_from FamVector ix" "serialises fc (map_err Refused \<circ> bm25_try_from) FamFts jx"
    and "thesauros_save_vector_index F vc n ix s0 = (Inr (), s1)" "thesauros_save_fts_index F fc n jx s1 = (Inr (), s2)"
    and "\<forall>call \<in> set (SaveHere n ix # SaveThere n jx # calls). call_fits vc FamVector fc FamFts (entry_fits len) call"
    and "\<forall>call \<in> set calls. saved_name call \<noteq> n"
  shows "thesauros_load_vector_index F vc n (thesauros_saves F vc fc calls s2) \<in> {Inr ix} \<union> range (fail \<circ> Persistence) \<and>
    thesauros_load_fts_index F fc n (thesauros_saves F vc fc calls s2) \<in> {Inr jx} \<union> range (fail \<circ> Persistence)"
proof -
  have ix: "hnsw_try_from ix = Inr ix"
    using hnsw_history_refines [OF hnsw_new_wf [OF assms(2)], of ws] assms(3) by (simp add: hnsw_try_from_iff)
  have jx: "(map_err Refused \<circ> bm25_try_from) jx = Inr jx"
    using bm25_reachable_wf [OF assms(4,5)] bm25_try_from_iff [of jx jx] by simp
  note saves = assms(8,9) [unfolded thesauros_save_vector_index_def thesauros_save_fts_index_def]
  have later: "\<forall>x. SaveHere n x \<notin> set (SaveThere n jx # calls)" "\<forall>x. SaveHere n x \<notin> set (map swapped calls)"
    using assms(11) by (force dest: arg_cong [where f = saved_name])+
  have fits: "\<forall>call \<in> set (SaveHere n ix # SaveThere n jx # calls). call_fits vc FamVector fc FamFts (entry_fits len) call"
    "\<forall>call \<in> set (SaveHere n jx # map swapped calls). call_fits fc FamFts vc FamVector (entry_fits len) call"
    using assms(10) by (auto simp: call_fits_swapped)
  show ?thesis
    using thesauros_vec.round_trip [OF assms(1) assms(6) ix saves(1) fits(1) later(1)]
      thesauros_fts.round_trip [OF assms(1) assms(7) jx saves(2) fits(2) later(2)]
    by (auto simp: saves history_swapped thesauros_load_vector_index_def thesauros_load_fts_index_def)
qed

theorem thesauros_snapshots_reload_witness:
  "\<exists>(ix :: nat hnsw) s1 s2.
     thesauros_save_vector_index sample_fjall sample_vector_codec ''docs'' ix (thesauros_open (sample_disk 2)) = (Inr (), s1) \<and>
     thesauros_save_fts_index sample_fjall sample_fts_codec ''docs'' sample_bm25 s1 = (Inr (), s2) \<and>
     thesauros_load_vector_index sample_fjall sample_vector_codec ''docs''
       (thesauros_saves sample_fjall sample_vector_codec sample_fts_codec [SaveHere ''other'' ix] s2) \<in> {Inr ix} \<union> range (fail \<circ> Persistence)"
proof -
  obtain ix where ix: "fold_res hnsw_step [HInsert 1 [0]] (hnsw_new sample_config) = Inr (ix :: nat hnsw)"
    using hnsw_history_refines [OF hnsw_new_wf [OF sample_config_valid], of "[HInsert (1 :: nat) [0]]"]
    by (simp add: hnsw_new_def sample_vectors split: sum.splits)
  obtain r1 s1 where s1: "thesauros_save_vector_index sample_fjall sample_vector_codec ''docs'' ix (thesauros_open (sample_disk 2)) = (r1, s1)" by force
  obtain r2 s2 where s2: "thesauros_save_fts_index sample_fjall sample_fts_codec ''docs'' sample_bm25 s1 = (r2, s2)" by force
  have saved: "r1 = Inr ()" "r2 = Inr ()"
    using s1 s2 by (auto simp: thesauros_save_vector_index_def thesauros_save_fts_index_def save_snapshot_def thesauros_put_def
      sample_vector_codec_def sample_fts_codec_def sample_fjall_def sample_disk_def thesauros_open_def or_persistence_def)
  have fits: "\<forall>call \<in> set (SaveHere ''docs'' ix # SaveThere ''docs'' sample_bm25 # [SaveHere ''other'' ix]).
      call_fits sample_vector_codec FamVector sample_fts_codec FamFts (entry_fits (\<lambda>_. 1)) call"
    by (simp add: entry_fits_def MAX_KEY_LEN_def MAX_VALUE_LEN_def)
  have "thesauros_load_vector_index sample_fjall sample_vector_codec ''docs''
       (thesauros_saves sample_fjall sample_vector_codec sample_fts_codec [SaveHere ''other'' ix] s2) \<in> {Inr ix} \<union> range (fail \<circ> Persistence)"
    using thesauros_snapshots_reload [OF sample_fjall_ok sample_config_valid ix ascii_lowercase_nonempty
      sample_bm25_reachable sample_codecs_serialise s1 [unfolded saved] s2 [unfolded saved] fits] by simp
  with s1 s2 saved show ?thesis by blast
qed

end
