(* ===== verification/Driver_Laws.thy ===== *)
theory Driver_Laws
  imports Catalogue Atmis Thesauros_Laws
begin

text \<open>
  What the lifecycle driver guarantees over any store that meets the storage contract: every
  call keeps the store decodable, applying an operation is one step of the specification on
  catalogues, storage failures apart, and reads return the catalogue's entries.
\<close>

section \<open>Preparing\<close>

lemma readsE:
  assumes "reads r x"
  obtains (stored) "r = Inr x" | (storage) src where "r = Inl (Persistence src)"
  using assms by (auto simp: reads_def)

text \<open>Some call of the backend fails in a state of its invariant, and an outcome that reports it.\<close>

definition storage_fails :: "('s, 'b) lifecycle_backend \<Rightarrow> ('s \<Rightarrow> bool) \<Rightarrow> bool" where
  "storage_fails B I \<longleftrightarrow> (\<exists>s src. I s \<and>
     ((\<exists>i. b_read_head B s i = Inl (Persistence src)) \<or> (\<exists>i v. b_read_version B s i v = Inl (Persistence src)) \<or>
      (\<exists>i k. b_read_operation B s i k = Inl (Persistence src)) \<or> (\<exists>i. b_read_staging B s i = Inl (Persistence src)) \<or>
      (\<exists>w. fst (b_stage B w s) = Inl (Persistence src)) \<or> (\<exists>w. fst (b_publish B w s) = Inl (Persistence src)) \<or>
      (\<exists>w. fst (b_destroy B w s) = Inl (Persistence src))))"

lemma storage_failsI:
  assumes "I s"
  shows "b_read_head B s i = Inl (Persistence src) \<Longrightarrow> storage_fails B I"
    "b_read_version B s i v = Inl (Persistence src) \<Longrightarrow> storage_fails B I"
    "b_read_operation B s i k = Inl (Persistence src) \<Longrightarrow> storage_fails B I"
    "b_read_staging B s i = Inl (Persistence src) \<Longrightarrow> storage_fails B I"
    "b_stage B sw s = (Inl (Persistence src), s') \<Longrightarrow> storage_fails B I"
    "b_publish B pw s = (Inl (Persistence src), s') \<Longrightarrow> storage_fails B I"
    "b_destroy B dw s = (Inl (Persistence src), s') \<Longrightarrow> storage_fails B I"
  unfolding storage_fails_def using assms by (metis fst_conv)+

definition cannot_store :: "bool \<Rightarrow> failure + 'a \<Rightarrow> bool" where
  "cannot_store fails r \<longleftrightarrow> fails \<and> (\<exists>src. r = fail (Persistence src))"

lemma cannot_store_simps [simp]: "cannot_store fails (fail (Persistence src)) \<longleftrightarrow> fails" "\<not> cannot_store fails (Inr x)"
  by (auto simp: cannot_store_def)

context lifecycle_store
begin

lemma current_version_current:
  assumes "inv s" "lc_backend L = B" "stored_ok L (abs s)"
  shows "current_version L s i (head_of L (abs s) i) = Inr (ca_current (catalogue_of L (abs s)) i) \<or>
    cannot_store (storage_fails B inv) (current_version L s i (head_of L (abs s) i))"
  using assms(3)
proof (cases rule: head_cases [of L "abs s" i])
  case (active b r p)
  from read_version [OF assms(1), of i "vp_version p"] show ?thesis
  proof (cases rule: readsE)
    case stored
    then show ?thesis
      using active assms(2)
      by (auto simp: current_version_def active_payload_def ca_current_def payload_of_Some current_ok_def)
  next
    case (storage src)
    then show ?thesis
      using active assms(2) storage_failsI(2) [where B = B and I = inv, OF assms(1) storage] by (simp add: current_version_def active_payload_def)
  qed
qed (simp_all add: current_version_def ca_current_def)

lemma replay_recorded:
  assumes "inv s" "lc_backend L = B" "stored_ok L (abs s)"
    and co: "check (lc_consumer L) op = Inr co"
  obtains (storage) src where "replay L s co = Inl (Persistence src)" "storage_fails B inv"
  | (fresh) "replay L s co = Inr None" "st_operations (abs s) (lo_index op) (lo_key op) = None"
  | (known) rcd where "record_of L (abs s) (lo_index op) (lo_key op) = Some rcd"
      "op_digest (or_operation rcd) = op_digest (co_identity co)" "replay L s co = Inr (Some (receipt_of rcd True))"
  | (conflict) rcd where "record_of L (abs s) (lo_index op) (lo_key op) = Some rcd"
      "op_digest (or_operation rcd) \<noteq> op_digest (co_identity co)"
      "replay L s co = Inl (OperationConflict \<lparr>oc_index = lo_index op, oc_key = lo_key op,
        oc_recorded = op_digest (or_operation rcd), oc_requested = op_digest (co_identity co)\<rparr>)"
proof -
  have op: "co_operation co = op" using co by (simp add: check_Inr)
  from read_operation [OF assms(1), of "lo_index op" "lo_key op"] show ?thesis
  proof (cases rule: readsE)
    case stored
    show ?thesis
    proof (cases "st_operations (abs s) (lo_index op) (lo_key op)")
      case None
      then show ?thesis using fresh stored op assms(2) by (simp add: replay_def)
    next
      case (Some b)
      then obtain rcd where rcd: "record_of L (abs s) (lo_index op) (lo_key op) = Some rcd"
        using assms(3) by (fastforce simp: stored_ok_def)
      then have "decode_operation (lc_codec L) b (lo_index op) (lo_key op) = Inr rcd" using Some by (simp add: record_of_Some)
      then show ?thesis
        using known [OF rcd] conflict [OF rcd] stored Some op assms(2)
        by (cases "op_digest (or_operation rcd) = op_digest (co_identity co)")
          (simp_all add: replay_def Let_def receipt_of_def)
    qed
  next
    case (storage src)
    then show ?thesis using that(1) storage_failsI(3) [where B = B and I = inv, OF assms(1) storage] op assms(2) by (simp add: replay_def)
  qed
qed

text \<open>What preparing an operation comes to.\<close>

lemma prepare_step:
  assumes "inv s" "lc_backend L = B" "stored_ok L (abs s)"
  obtains (storage) "cannot_store (storage_fails B inv) (prepare L False op s)"
  | (failed) f where "prepare L False op s = Inl f"
      "lifecycle_step (lc_unicode L) (lc_consumer L) op (catalogue_of L (abs s)) (Inl f) (catalogue_of L (abs s))"
  | (known) receipt where "prepare L False op s = Inr (Replayed receipt)"
      "lifecycle_step (lc_unicode L) (lc_consumer L) op (catalogue_of L (abs s)) (Inr receipt) (catalogue_of L (abs s))"
  | (ready) co vo su where
      "prepare L False op s =
         map_err Err (and_then (encode_plan (lc_codec L) su (st_heads (abs s) (lo_index op)) op)
           (\<lambda>(plan, planned). Inr (Ready plan planned)))"
      "check (lc_consumer L) op = Inr co" "st_operations (abs s) (lo_index op) (lo_key op) = None"
      "permit (head_of L (abs s) (lo_index op)) co = Inr vo" "nothing_staged (abs s) (lo_index op)"
      "successor (lc_unicode L) vo (ca_current (catalogue_of L (abs s)) (lo_index op)) = Inr su"
proof (cases "check (lc_consumer L) op")
  case (Inl e)
  then show ?thesis using failed by (simp add: prepare_def step_refused)
next
  case co: (Inr co)
  let ?i = "lo_index op" and ?a = "catalogue_of L (abs s)"
  from read_head [OF assms(1), of ?i] show ?thesis
  proof (cases rule: readsE)
    case head: stored
    from assms co show ?thesis
    proof (cases rule: replay_recorded)
      case (storage src)
      then show ?thesis using that(1) co head assms(2) by (simp add: prepare_def)
    next
      case (known rcd)
      then show ?thesis
        using that(3) [OF _ step_replayed [OF co]] co head assms(2) by (simp add: prepare_def)
    next
      case (conflict rcd)
      then show ?thesis
        using that(2) [OF _ step_conflict [OF co]] co head assms(2) by (simp add: prepare_def)
    next
      case fresh
      then have none: "ca_record ?a ?i (lo_key op) = None" by (simp add: record_of_def)
      have decode: "map_opt_res (\<lambda>b. decode_head (lc_codec L) b ?i) (st_heads (abs s) ?i) = Inr (head_of L (abs s) ?i)"
        using assms(3) by (cases rule: head_cases [of L "abs s" ?i]) simp_all
      show ?thesis
      proof (cases "current_version L s ?i (head_of L (abs s) ?i) = Inr (ca_current ?a ?i)")
        case False
        then have "cannot_store (storage_fails B inv) (current_version L s ?i (head_of L (abs s) ?i))"
          using current_version_current [OF assms] by blast
        then show ?thesis
          using that(1) co head fresh decode assms(2) by (auto simp: prepare_def cannot_store_def)
      next
        case current: True
        show ?thesis
        proof (cases "permit (head_of L (abs s) ?i) co")
          case (Inl e)
          then show ?thesis
            using that(2) [OF _ step_not_permitted [OF co none]] co head fresh decode current assms(2)
            by (simp add: prepare_def)
        next
          case vo: (Inr vo)
          have prep: "prepare L False op s =
              and_then (map_err Err (b_read_staging B s ?i)) (\<lambda>staged.
              and_then (case staged of None \<Rightarrow> Inr () | Some (version, _) \<Rightarrow> fail (StagedStateExists ?i version)) (\<lambda>_.
              and_then (successor (lc_unicode L) vo (ca_current ?a ?i)) (\<lambda>su.
              and_then (map_err Err (encode_plan (lc_codec L) su (st_heads (abs s) ?i) op)) (\<lambda>(plan, planned).
              Inr (Ready plan planned)))))"
            using co head fresh decode current vo assms(2) by (simp add: prepare_def)
          obtain x where x: "reads (b_read_staging B s ?i) x" "staged_view (abs s) ?i x"
            using read_staging [OF assms(1)] by blast
          from x(1) show ?thesis
          proof (cases rule: readsE)
            case staged: stored
            show ?thesis
            proof (cases x)
              case (Some vm)
              obtain v m where vm: "vm = (v, m)" by fastforce
              then have "v \<in> ca_staged ?a ?i" "\<And>w. w \<in> ca_staged ?a ?i \<Longrightarrow> v \<le> w"
                using x(2) Some by (auto simp: staged_view_def lowest_staged_def)
              moreover have "permit (ca_head ?a ?i) co = Inr vo" using vo by simp
              ultimately show ?thesis
                using that(2) [OF _ step_orphaned [OF co none]] prep staged Some vm by simp
            next
              case None
              then have unstaged: "nothing_staged (abs s) ?i" using x(2) by (simp add: staged_view_def)
              then have clear: "ca_staged ?a ?i = {}" by (auto simp: nothing_staged_def)
              show ?thesis
              proof (cases "successor (lc_unicode L) vo (ca_current ?a ?i)")
                case (Inl f)
                have "permit (ca_head ?a ?i) co = Inr vo" using vo by simp
                from that(2) [OF _ step_unbuildable [OF co none this clear Inl]] show ?thesis
                  using prep staged None Inl by simp
              next
                case (Inr su)
                have "prepare L False op s =
                    map_err Err (and_then (encode_plan (lc_codec L) su (st_heads (abs s) ?i) op)
                      (\<lambda>(plan, planned). Inr (Ready plan planned)))"
                  using prep staged None Inr
                  by (cases "encode_plan (lc_codec L) su (st_heads (abs s) ?i) op") (auto split: prod.splits)
                from that(4) [OF this co fresh(2) vo unstaged Inr] show ?thesis .
              qed
            qed
          next
            case (storage src)
            then show ?thesis using that(1) prep storage_failsI(4) [where B = B and I = inv, OF assms(1) storage] by simp
          qed
        qed
      qed
    qed
  next
    case (storage src)
    then show ?thesis using that(1) storage_failsI(1) [where B = B and I = inv, OF assms(1) storage] co assms(2)
      by (simp add: prepare_def)
  qed
qed

end

section \<open>Staging and publishing run as planned\<close>

lemma obeys_planned:
  assumes "obeys spec t r t'" "\<And>e t''. \<not> spec t (Inl e) t''" "\<And>t''. spec t (Inr ()) t'' \<Longrightarrow> t'' = u"
  shows "r = Inr () \<and> t' = u \<or> (\<exists>src. r = Inl (Persistence src)) \<and> (t' = t \<or> t' = u)"
  using assms by (cases r) (auto simp: obeys_def)

context lifecycle_store
begin

lemma stage_runs:
  assumes "inv s" "b_stage B w s = (r, s')" "st_heads (abs s) (sw_index w) = sw_expected_head w"
    and "nothing_staged (abs s) (sw_index w)" "st_versions (abs s) (sw_index w) (sw_version w) = None"
    and "st_operations (abs s) (sw_index w) (sw_key w) = None"
  shows "inv s' \<and> (let u = staged_store (sw_index w) (sw_version w) (sw_marker w) (sw_payload w) (abs s) in
    r = Inr () \<and> abs s' = u \<or> (\<exists>src. r = Inl (Persistence src)) \<and> (abs s' = abs s \<or> abs s' = u))"
proof -
  have refuse: "\<not> spec_stage w (abs s) (Inl e) t" for e t
    using assms(3-) by (auto simp: nothing_staged_def lowest_staged_def elim!: spec_stage_errE)
  have accept: "spec_stage w (abs s) (Inr ()) t \<Longrightarrow> t = staged_store (sw_index w) (sw_version w) (sw_marker w) (sw_payload w) (abs s)" for t
    by (auto simp: staged_store_def elim!: spec_stage_okE)
  show ?thesis
    using stage [OF assms(1,2)] obeys_planned [where spec = "spec_stage w", OF _ refuse accept] unfolding Let_def by blast
qed

lemma publish_runs:
  assumes "inv s" "b_publish B w s = (r, s')" "st_heads (abs s) (pw_index w) = pw_expected_head w"
    and "st_staging (abs s) (pw_index w) (pw_version w) = Some (pw_marker w)"
    and "st_versions (abs s) (pw_index w) (pw_version w) \<noteq> None"
    and "st_operations (abs s) (pw_index w) (pw_key w) = None"
  shows "inv s' \<and> (let u = published_store (pw_index w) (pw_key w) (pw_version w) (pw_head w) (pw_operation w) (abs s) in
    r = Inr () \<and> abs s' = u \<or> (\<exists>src. r = Inl (Persistence src)) \<and> (abs s' = abs s \<or> abs s' = u))"
proof -
  have refuse: "\<not> spec_publish w (abs s) (Inl e) t" for e t
    using assms(3-) by (auto simp: nothing_staged_def lowest_staged_def elim!: spec_publish_errE)
  have accept: "spec_publish w (abs s) (Inr ()) t \<Longrightarrow> t = published_store (pw_index w) (pw_key w) (pw_version w) (pw_head w) (pw_operation w) (abs s)" for t
    by (auto simp: published_store_def elim!: spec_publish_okE)
  show ?thesis
    using publish [OF assms(1,2)] obeys_planned [where spec = "spec_publish w", OF _ refuse accept] unfolding Let_def by blast
qed

lemma destroy_runs:
  assumes "inv s" "b_destroy B w s = (r, s')" "st_heads (abs s) (dw_index w) = Some (dw_expected_head w)"
    and "nothing_staged (abs s) (dw_index w)" "st_operations (abs s) (dw_index w) (dw_key w) = None"
  shows "inv s' \<and> (let u = destroyed_store (dw_index w) (dw_key w) (dw_head w) (dw_operation w) (dw_versions w) (abs s) in
    r = Inr () \<and> abs s' = u \<or> (\<exists>src. r = Inl (Persistence src)) \<and> (abs s' = abs s \<or> abs s' = u))"
proof -
  have refuse: "\<not> spec_destroy w (abs s) (Inl e) t" for e t
    using assms(3-) by (auto simp: nothing_staged_def lowest_staged_def elim!: spec_destroy_errE)
  have accept: "spec_destroy w (abs s) (Inr ()) t \<Longrightarrow> t = destroyed_store (dw_index w) (dw_key w) (dw_head w) (dw_operation w) (dw_versions w) (abs s)" for t
    by (auto simp: destroyed_store_def elim!: spec_destroy_okE)
  show ?thesis
    using destroy [OF assms(1,2)] obeys_planned [where spec = "spec_destroy w", OF _ refuse accept] unfolding Let_def by blast
qed

end

section \<open>Applying an operation\<close>

text \<open>
  The lifecycle over a store: its backend is the store's, its storage library reads back what it
  writes, and lowercasing keeps a token nonempty.
\<close>

definition lifecycle_ok :: "('s, 'b) lifecycle_backend \<Rightarrow> ('m::linorder, 'p, 'r, 's, 'b) index_lifecycle \<Rightarrow> bool" where
  "lifecycle_ok B L \<longleftrightarrow> lc_backend L = B \<and> codec_ok (lc_consumer L) (lc_codec L) \<and> lowercase_nonempty (lc_unicode L)"

abbreviation lc_step ::
    "('m::linorder, 'p, 'r, 's, 'b) index_lifecycle \<Rightarrow> ('m, 'p, 'r) lifecycle_operation \<Rightarrow> 'b store \<Rightarrow>
       failure + 'r publish_receipt \<Rightarrow> 'b store \<Rightarrow> bool" where
  "lc_step L op st r st' \<equiv>
     lifecycle_step (lc_unicode L) (lc_consumer L) op (catalogue_of L st) r (catalogue_of L st')"

text \<open>
  What a write that was planned leaves: the store as it was, the store with the version staged
  only, or the store with the operation applied.
\<close>

definition left_staged :: "('m::linorder, 'p, 'r, 's, 'b) index_lifecycle \<Rightarrow> index_identity \<Rightarrow> 'b store \<Rightarrow> 'b store \<Rightarrow> bool" where
  "left_staged L i st st' \<longleftrightarrow> (\<exists>v. catalogue_of L st' = ca_stage i v (catalogue_of L st))"

text \<open>
  A destroyed index; and payloads that stay as they are stored unless their index is destroyed, whose
  versions stay as they are.
\<close>

definition destroyed_in :: "('m::linorder, 'p, 'r, 's, 'b) index_lifecycle \<Rightarrow> 'b store \<Rightarrow> index_identity \<Rightarrow> bool" where
  "destroyed_in L st i \<longleftrightarrow> (\<exists>r v x k. head_of L st i = Some r \<and> ir_state r = Destroyed v x k)"

definition payloads_kept :: "('m::linorder, 'p, 'r, 's, 'b) index_lifecycle \<Rightarrow> 'b store \<Rightarrow> 'b store \<Rightarrow> bool" where
  "payloads_kept L st st' \<longleftrightarrow>
     (\<forall>i v b. st_versions st i v = Some b \<longrightarrow>
        st_versions st' i v = Some b \<or> st_versions st' i v = None \<and> destroyed_in L st' i) \<and>
     (\<forall>i. destroyed_in L st i \<longrightarrow> st_versions st' i = st_versions st i)"

lemma payloads_kept_same [simp]: "st_versions st' = st_versions st \<Longrightarrow> payloads_kept L st st'"
  by (simp add: payloads_kept_def)

lemma payloads_kept_staged [simp]:
  "st_versions st i v = None \<Longrightarrow> \<not> destroyed_in L st i \<Longrightarrow> payloads_kept L st (staged_store i v marker b st)"
  by (auto simp: payloads_kept_def staged_store_def)

lemma permit_not_destroyed: "permit (head_of L st i) co = Inr vo \<Longrightarrow> \<not> destroyed_in L st i"
  using not_permitted_destroyed by (fastforce simp: destroyed_in_def)

lemma current_of_head:
  assumes "stored_ok L st"
  shows "current_ok (lc_unicode L) (ca_current (catalogue_of L st) i)"
    and "ca_current (catalogue_of L st) i = Some (r, p) \<Longrightarrow>
      storable_table (lc_consumer L) (vp_members p) \<and> head_of L st i = Some r \<and> active_of L st i = Some p"
    and "permit (head_of L st i) co = Inr vo \<Longrightarrow> permit (map_option fst (ca_current (catalogue_of L st) i)) co = Inr vo"
  using assms
  by (cases rule: head_cases [of L st i]; auto simp: ca_current_def current_ok_def dest: not_permitted_destroyed)+

definition run_plan ::
    "('m::linorder, 'p, 'r, 's, 'b) index_lifecycle \<Rightarrow> ('r, 'b) plan \<Rightarrow> 'b planned_write \<Rightarrow> 's \<Rightarrow>
       'r publish_receipt res \<times> 's" where
  "run_plan L plan planned s =
     (case stage_prepared L plan planned s of
        (Inl e, s') \<Rightarrow> (fail e, s')
      | (Inr staged, s') \<Rightarrow> (case publish_staged L plan staged s' of (r, s'') \<Rightarrow> (map_err Err r, s'')))"

text \<open>What running a plan can leave, given what the finished operation leaves.\<close>

definition plan_outcome ::
    "bool \<Rightarrow> ('m::linorder, 'p, 'r, 's, 'b) index_lifecycle \<Rightarrow> ('m, 'p, 'r) lifecycle_operation \<Rightarrow> ('m, 'p, 'r) succession \<Rightarrow>
       'b store \<Rightarrow> 'r publish_receipt res \<Rightarrow> 'b store \<Rightarrow> bool" where
  "plan_outcome fails L op su st res st' \<longleftrightarrow> stored_ok L st' \<and> payloads_kept L st st' \<and>
     (let whole = catalogue_of L st' = ca_publish (lo_index op) (lo_key op) su (catalogue_of L st) in
      res = Inr (receipt_of (su_record su) False) \<and> whole \<or>
      cannot_store fails res \<and> (st' = st \<or> left_staged L (lo_index op) st st' \<or> whole))"


text \<open>An operation that published in this call, rather than being refused or replayed.\<close>

definition published_now :: "'r publish_receipt res \<Rightarrow> bool" where
  "published_now res \<longleftrightarrow> (\<exists>receipt. res = Inr receipt \<and> \<not> pr_replayed receipt)"

lemma published_now_simps [simp]: "\<not> published_now (Inl f)" "published_now (Inr receipt) \<longleftrightarrow> \<not> pr_replayed receipt"
  by (simp_all add: published_now_def)

lemma replayed_receipt [simp]: "pr_replayed (receipt_of rcd b) = b"
  by (simp add: receipt_of_def)

context lifecycle_store
begin

lemma ready_succession:
  assumes "lifecycle_ok B L" "stored_ok L (abs s)" "check (lc_consumer L) op = Inr co"
    and "permit (head_of L (abs s) (lo_index op)) co = Inr vo"
    and "successor (lc_unicode L) vo (ca_current (catalogue_of L (abs s)) (lo_index op)) = Inr su"
  shows "succession_ok (lc_consumer L) (lc_unicode L) op (ca_current (catalogue_of L (abs s)) (lo_index op)) su"
proof (rule successor_storable)
  show "lowercase_nonempty (lc_unicode L)" using assms(1) by (simp add: lifecycle_ok_def)
  show "permit (map_option fst (ca_current (catalogue_of L (abs s)) (lo_index op))) co = Inr vo"
    using current_of_head(3) [OF assms(2,4)] .
qed (use assms current_of_head(1,2) [OF assms(2)] in blast)+

lemma version_free:
  assumes ok: "stored_ok L (abs s)" and unstaged: "nothing_staged (abs s) i"
    and later: "\<And>r p. ca_current (catalogue_of L (abs s)) i = Some (r, p) \<Longrightarrow> vp_version p < v"
  shows "st_versions (abs s) i v = None"
proof (rule ccontr)
  assume "st_versions (abs s) i v \<noteq> None"
  then obtain p where p: "active_of L (abs s) i = Some p" "v \<le> vp_version p"
    using ok unstaged unfolding stored_ok_def nothing_staged_def by blast
  from ok obtain r where "head_of L (abs s) i = Some r" using p(1) by (cases rule: head_cases [of L "abs s" i]) simp_all
  then show False using later [of r p] p by (simp add: ca_current_def)
qed


lemma version_plan_runs:
  assumes L: "lifecycle_ok B L" and inv: "inv s" and ok: "stored_ok L (abs s)"
    and su: "succession_ok (lc_consumer L) (lc_unicode L) op (ca_current (catalogue_of L (abs s)) (lo_index op)) su"
    and plan: "plan_encodes (lc_codec L) op su plan" and q: "su_payload su = Some q"
    and payload: "decode_payload (debug (lc_consumer L)) (lc_codec L) b (lo_index op) (vp_version q) = Inr q"
    and unstaged: "nothing_staged (abs s) (lo_index op)"
    and unrecorded: "st_operations (abs s) (lo_index op) (lo_key op) = None"
    and alive: "\<not> destroyed_in L (abs s) (lo_index op)"
    and run: "run_plan L plan (PlannedVersion (st_heads (abs s) (lo_index op)) (vp_version q) marker b) s = (res, s')"
  shows "inv s' \<and> plan_outcome (storage_fails B inv) L op su (abs s) res (abs s')"
proof -
  let ?i = "lo_index op" and ?v = "vp_version q" and ?k = "lo_key op"
  let ?one = "staged_store ?i ?v marker b (abs s)"
  let ?two = "published_store ?i ?k ?v (pl_head plan) (pl_record plan) ?one"
  have B: "lc_backend L = B" using L by (simp add: lifecycle_ok_def)
  have pl: "pl_index plan = ?i" "op_key (pl_operation plan) = ?k" using plan by (simp_all add: plan_encodes_def)
  have free: "st_versions (abs s) ?i ?v = None"
    by (rule version_free [OF ok unstaged]) (use su q in \<open>simp add: succession_ok_def\<close>)
  note one_ok = staged_store_ok [OF ok free unstaged, of marker b]
  have two_ok: "stored_ok L ?two \<and> catalogue_of L ?two = ca_publish ?i ?k su (catalogue_of L (abs s))"
  proof (rule publish_ok [OF ok su plan refl])
    show "st_staging ?two = st_staging (abs s)"
      using unstaged by (auto simp: published_store_def staged_store_def nothing_staged_def fun_eq_iff)
    show "payload_of L ?two ?i (vp_version q') = Some q'" if "su_payload su = Some q'" for q'
      using that q payload by (simp add: payload_of_Some published_store_def staged_store_def)
    show "\<exists>q'. su_payload su = Some q' \<and> v \<le> vp_version q'"
      if v: "st_versions ?two ?i v \<noteq> None" "st_staging ?two ?i v = None" for v
    proof (cases "v = ?v")
      case False
      then have "st_versions (abs s) ?i v \<noteq> None" using v(1) by (simp add: published_store_def staged_store_def)
      then obtain p where p: "active_of L (abs s) ?i = Some p" "v \<le> vp_version p"
        using ok unstaged unfolding stored_ok_def nothing_staged_def by blast
      from ok obtain r where "head_of L (abs s) ?i = Some r" using p(1) by (cases rule: head_cases [of L "abs s" ?i]) simp_all
      then have "vp_version p < ?v" using su q p(1) by (simp add: succession_ok_def ca_current_def)
      then show ?thesis using p(2) q by auto
    qed (use q in simp)
  qed (simp_all add: published_store_def staged_store_def)
  obtain r1 s1 where stage: "b_stage B \<lparr>sw_index = ?i, sw_version = ?v, sw_key = ?k,
      sw_expected_head = st_heads (abs s) ?i, sw_marker = marker, sw_payload = b,
      sw_head_len = rc_len (lc_codec L) (pl_head plan), sw_operation_len = rc_len (lc_codec L) (pl_record plan)\<rparr> s = (r1, s1)"
    by fastforce
  have s1: "inv s1" "r1 = Inr () \<and> abs s1 = ?one \<or> (\<exists>src. r1 = Inl (Persistence src)) \<and> (abs s1 = abs s \<or> abs s1 = ?one)"
    using stage_runs [OF inv stage] unstaged free unrecorded by (simp_all add: Let_def)
  have staged: "left_staged L ?i (abs s) ?one" using one_ok(2) unfolding left_staged_def by blast
  have kept: "payloads_kept L (abs s) ?one" "payloads_kept L (abs s) ?two"
    using free alive by (auto simp: payloads_kept_def staged_store_def published_store_def)
  show ?thesis
  proof (cases r1)
    case (Inl e)
    then have "res = fail e" "s' = s1" using run stage B pl by (simp_all add: run_plan_def stage_prepared_def)
    then show ?thesis
      using s1 Inl ok one_ok(1) staged kept stage storage_failsI(5) [where B = B and I = inv, OF inv]
      by (auto simp: plan_outcome_def Let_def)
  next
    case (Inr u)
    then have abs1: "abs s1 = ?one" using s1(2) by auto
    obtain r2 s2 where publish: "b_publish B \<lparr>pw_index = ?i, pw_version = ?v, pw_key = ?k,
        pw_expected_head = st_heads (abs s) ?i, pw_marker = marker, pw_head = pl_head plan,
        pw_operation = pl_record plan\<rparr> s1 = (r2, s2)" by fastforce
    have out: "res = map_err Err (and_then r2 (\<lambda>_. Inr (receipt_of (su_record su) False)))" "s' = s2"
      using run stage publish Inr B pl plan
      by (simp_all add: run_plan_def stage_prepared_def publish_staged_def plan_encodes_def)
    have "inv s2 \<and> (r2 = Inr () \<and> abs s2 = ?two \<or> (\<exists>src. r2 = Inl (Persistence src)) \<and> (abs s2 = ?one \<or> abs s2 = ?two))"
      using publish_runs [OF s1(1) publish] unrecorded unfolding abs1 by (simp add: Let_def staged_store_def)
    then show ?thesis
      using out one_ok(1) two_ok staged kept publish storage_failsI(6) [where B = B and I = inv, OF s1(1)]
      by (auto simp: plan_outcome_def Let_def)
  qed
qed

lemma destroy_plan_runs:
  assumes L: "lifecycle_ok B L" and inv: "inv s" and ok: "stored_ok L (abs s)"
    and su: "succession_ok (lc_consumer L) (lc_unicode L) op (ca_current (catalogue_of L (abs s)) (lo_index op)) su"
    and plan: "plan_encodes (lc_codec L) op su plan" and none: "su_payload su = None"
    and current: "ca_current (catalogue_of L (abs s)) (lo_index op) = Some (r, p)"
    and head: "st_heads (abs s) (lo_index op) = Some h" and vs: "set vs = {w. w \<le> vp_version p}"
    and unstaged: "nothing_staged (abs s) (lo_index op)"
    and unrecorded: "st_operations (abs s) (lo_index op) (lo_key op) = None"
    and alive: "\<not> destroyed_in L (abs s) (lo_index op)"
    and run: "run_plan L plan (PlannedDestroy h vs) s = (res, s')"
  shows "inv s' \<and> plan_outcome (storage_fails B inv) L op su (abs s) res (abs s')"
proof -
  let ?i = "lo_index op" and ?k = "lo_key op"
  let ?gone = "destroyed_store ?i ?k (pl_head plan) (pl_record plan) vs (abs s)"
  have B: "lc_backend L = B" using L by (simp add: lifecycle_ok_def)
  have pl: "pl_index plan = ?i" "op_key (pl_operation plan) = ?k" using plan by (simp_all add: plan_encodes_def)
  have active: "active_of L (abs s) ?i = Some p" using current_of_head(2) [OF ok current] by simp
  have gone_ok: "stored_ok L ?gone \<and> catalogue_of L ?gone = ca_publish ?i ?k su (catalogue_of L (abs s))"
  proof (rule publish_ok [OF ok su plan refl])
    show "\<exists>q. su_payload su = Some q \<and> v \<le> vp_version q"
      if v: "st_versions ?gone ?i v \<noteq> None" "st_staging ?gone ?i v = None" for v
    proof -
      have "\<not> v \<le> vp_version p" "st_versions (abs s) ?i v \<noteq> None"
        using v(1) vs by (auto simp: destroyed_store_def split: if_splits)
      moreover have "st_staging (abs s) ?i v = None" using unstaged by (simp add: nothing_staged_def)
      ultimately show ?thesis using ok active unfolding stored_ok_def by (metis option.inject)
    qed
  qed (use none in \<open>simp_all add: destroyed_store_def\<close>)
  have kept: "payloads_kept L (abs s) ?gone"
  proof -
    have "head_of L ?gone ?i = Some (su_head su)"
      using gone_ok by (simp add: catalogue_of_sel(1) [symmetric] ca_publish_def del: catalogue_of_sel)
    then have "destroyed_in L ?gone ?i" using su none by (auto simp: destroyed_in_def succession_ok_def)
    then show ?thesis using alive by (auto simp: payloads_kept_def destroyed_store_def)
  qed
  obtain r2 s2 where destroy: "b_destroy B \<lparr>dw_index = ?i, dw_key = ?k, dw_expected_head = h,
      dw_head = pl_head plan, dw_operation = pl_record plan, dw_versions = vs\<rparr> s = (r2, s2)" by fastforce
  have out: "res = map_err Err (and_then r2 (\<lambda>_. Inr (receipt_of (su_record su) False)))" "s' = s2"
    using run destroy B pl plan by (simp_all add: run_plan_def stage_prepared_def publish_staged_def plan_encodes_def)
  have "inv s2 \<and> (r2 = Inr () \<and> abs s2 = ?gone \<or> (\<exists>src. r2 = Inl (Persistence src)) \<and> (abs s2 = abs s \<or> abs s2 = ?gone))"
    using destroy_runs [OF inv destroy] head unstaged unrecorded by (simp add: Let_def)
  then show ?thesis
    using out ok gone_ok kept destroy storage_failsI(7) [where B = B and I = inv, OF inv] by (auto simp: plan_outcome_def Let_def)
qed

text \<open>
  Applying an operation is a step of the specification; when the storage fails, the operation
  happened, left its version staged, or left no trace. A refusal or a replay leaves the adapter untouched.
\<close>

lemma apply_steps:
  assumes L: "lifecycle_ok B L" and inv: "inv s" and ok: "stored_ok L (abs s)"
    and run: "apply_operation L False op s = (res, s')"
  shows "inv s' \<and> stored_ok L (abs s') \<and> payloads_kept L (abs s) (abs s') \<and>
    (lc_step L op (abs s) res (abs s') \<and> (published_now res \<or> s' = s) \<or>
     cannot_store (storage_fails B inv) res \<and> (s' = s \<or> st_operations (abs s) (lo_index op) (lo_key op) = None \<and>
       (abs s' = abs s \<or> left_staged L (lo_index op) (abs s) (abs s') \<or>
        (\<exists>receipt. lc_step L op (abs s) (Inr receipt) (abs s')))))"
proof -
  have B: "lc_backend L = B" "codec_ok (lc_consumer L) (lc_codec L)" using L by (simp_all add: lifecycle_ok_def)
  from inv B(1) ok show ?thesis
  proof (cases rule: prepare_step [where op = op])
    case storage
    then show ?thesis using run inv ok by (auto simp: apply_operation_def cannot_store_def)
  next
    case (failed f)
    then show ?thesis using run inv ok by (auto simp: apply_operation_def)
  next
    case (known receipt)
    then show ?thesis using run inv ok by (auto simp: apply_operation_def)
  next
    case (ready co vo su)
    let ?i = "lo_index op" and ?a = "catalogue_of L (abs s)"
    have su: "succession_ok (lc_consumer L) (lc_unicode L) op (ca_current ?a ?i) su"
      using ready_succession [OF L ok ready(2,4,6)] .
    have step: "lifecycle_step (lc_unicode L) (lc_consumer L) op ?a
        (Inr (receipt_of (su_record su) False)) (ca_publish ?i (lo_key op) su ?a)"
      using ready by (intro step_applied) (auto simp: nothing_staged_def record_of_def)
    have outcome: "?thesis" if "inv s' \<and> plan_outcome (storage_fails B inv) L op su (abs s) res (abs s')"
      using that step ready(3) by (auto simp: plan_outcome_def Let_def)
    have run': "prepare L False op s = Inr (Ready plan planned) \<Longrightarrow> run_plan L plan planned s = (res, s')" for plan planned
      using run by (simp add: apply_operation_def run_plan_def)
    have head: "ca_current ?a ?i \<noteq> None \<longrightarrow> st_heads (abs s) ?i \<noteq> None"
      using ok by (cases rule: head_cases [of L "abs s" ?i]) (simp_all add: ca_current_def)
    from B(2) su head show ?thesis
    proof (cases rule: encode_plan_ok [where dbg = "debug (lc_consumer L)" and eh = "st_heads (abs s) ?i"])
      case (version plan q marker b)
      have "prepare L False op s = Inr (Ready plan (PlannedVersion (st_heads (abs s) ?i) (vp_version q) marker b))"
        unfolding ready(1) version(3) by simp
      from version_plan_runs [OF L inv ok su version(2,1,4) ready(5,3) permit_not_destroyed [OF ready(4)] run' [OF this]] show ?thesis by (rule outcome)
    next
      case (destroy plan h vs r p)
      have "prepare L False op s = Inr (Ready plan (PlannedDestroy h vs))" unfolding ready(1) destroy(5) by simp
      from destroy_plan_runs [OF L inv ok su destroy(2,1,4,3,6) ready(5,3) permit_not_destroyed [OF ready(4)] run' [OF this]] show ?thesis by (rule outcome)
    qed
  qed
qed

text \<open>A caller that stages an operation and drops it leaves at most a staged version.\<close>

lemma stage_leaves:
  assumes L: "lifecycle_ok B L" and inv: "inv s" and ok: "stored_ok L (abs s)"
    and prep: "prepare L False op s = Inr (Ready plan planned)" and run: "stage_prepared L plan planned s = (res, s')"
  shows "inv s' \<and> stored_ok L (abs s') \<and> payloads_kept L (abs s) (abs s') \<and>
    (abs s' = abs s \<or> left_staged L (lo_index op) (abs s) (abs s'))"
proof -
  have B: "lc_backend L = B" "codec_ok (lc_consumer L) (lc_codec L)" using L by (simp_all add: lifecycle_ok_def)
  from inv B(1) ok show ?thesis
  proof (cases rule: prepare_step [where op = op])
    case (ready co vo su)
    let ?i = "lo_index op" and ?a = "catalogue_of L (abs s)"
    have su: "succession_ok (lc_consumer L) (lc_unicode L) op (ca_current ?a ?i) su"
      using ready_succession [OF L ok ready(2,4,6)] .
    have head: "ca_current ?a ?i \<noteq> None \<longrightarrow> st_heads (abs s) ?i \<noteq> None"
      using ok by (cases rule: head_cases [of L "abs s" ?i]) (simp_all add: ca_current_def)
    from B(2) su head show ?thesis
    proof (cases rule: encode_plan_ok [where dbg = "debug (lc_consumer L)" and eh = "st_heads (abs s) ?i"])
      case (version plan' q marker b)
      then have p: "plan = plan'" "planned = PlannedVersion (st_heads (abs s) ?i) (vp_version q) marker b"
        using prep ready(1) by simp_all
      have pl: "pl_index plan = ?i" "op_key (pl_operation plan) = lo_key op" using version(2) p by (simp_all add: plan_encodes_def)
      have free: "st_versions (abs s) ?i (vp_version q) = None"
        by (rule version_free [OF ok ready(5)]) (use su version(1) in \<open>simp add: succession_ok_def\<close>)
      let ?w = "\<lparr>sw_index = ?i, sw_version = vp_version q, sw_key = lo_key op,
        sw_expected_head = st_heads (abs s) ?i, sw_marker = marker, sw_payload = b,
        sw_head_len = rc_len (lc_codec L) (pl_head plan), sw_operation_len = rc_len (lc_codec L) (pl_record plan)\<rparr>"
      obtain r1 where "b_stage B ?w s = (r1, s')"
        using run p(2) pl B(1) by (cases "b_stage B ?w s") (auto simp: stage_prepared_def)
      from stage_runs [OF inv this] have "inv s'"
        "abs s' = abs s \<or> abs s' = staged_store ?i (vp_version q) marker b (abs s)"
        using ready(3,5) free by (auto simp: Let_def)
      then show ?thesis using staged_store_ok [OF ok free ready(5), of marker b] ok free permit_not_destroyed [OF ready(4)]
        unfolding left_staged_def by auto
    next
      case (destroy plan' h vs r p)
      then have "planned = PlannedDestroy h vs" using prep ready(1) by simp
      then show ?thesis using run inv ok by (simp add: stage_prepared_def)
    qed
  qed (use prep in \<open>simp_all add: cannot_store_def\<close>)
qed

text \<open>What is read of an index is its entry in the catalogue.\<close>

lemma reads_catalogue:
  assumes L: "lifecycle_ok B L" and inv: "inv s" and ok: "stored_ok L (abs s)"
  shows "lifecycle_record L s i = Inr (head_of L (abs s) i) \<or> storage_fails B inv"
    and "lifecycle_index L s i =
      (case active_of L (abs s) i of Some p \<Rightarrow> Inr (from_payload p) | None \<Rightarrow> fail (not_found i)) \<or> storage_fails B inv"
proof -
  have B: "lc_backend L = B" using L by (simp add: lifecycle_ok_def)
  note head = read_head [OF inv, of i]
  show "lifecycle_record L s i = Inr (head_of L (abs s) i) \<or> storage_fails B inv"
    using head
  proof (cases rule: readsE)
    case stored
    from ok show ?thesis
      by (cases rule: head_cases [of L "abs s" i]) (use stored B in \<open>simp_all add: lifecycle_record_def\<close>)
  qed (use storage_failsI(1) [where B = B and I = inv, OF inv] in blast)
  show "lifecycle_index L s i =
      (case active_of L (abs s) i of Some p \<Rightarrow> Inr (from_payload p) | None \<Rightarrow> fail (not_found i)) \<or> storage_fails B inv"
    using head
  proof (cases rule: readsE)
    case stored
    from ok show ?thesis
    proof (cases rule: head_cases [of L "abs s" i])
      case (active b r p)
      from read_version [OF inv, of i "vp_version p"] show ?thesis
      proof (cases rule: readsE)
        case payload: stored
        then show ?thesis
          using active stored B by (auto simp: lifecycle_index_def active_payload_def payload_of_Some current_ok_def)
      qed (use storage_failsI(2) [where B = B and I = inv, OF inv] in blast)
    qed (use stored B in \<open>simp_all add: lifecycle_index_def\<close>)
  qed (use storage_failsI(1) [where B = B and I = inv, OF inv] in blast)
qed

end

context reliable_store
begin

lemma storage_works: "\<not> storage_fails B inv"
  by (simp add: storage_fails_def reads_succeed writes_succeed)

lemma apply_steps_live:
  assumes "lifecycle_ok B L" "inv s" "stored_ok L (abs s)" "apply_operation L False op s = (res, s')"
  shows "inv s' \<and> stored_ok L (abs s') \<and> lc_step L op (abs s) res (abs s') \<and> (published_now res \<or> s' = s)"
  using apply_steps [OF assms] storage_works by (auto simp: cannot_store_def)

end

section \<open>Histories of a lifecycle\<close>

text \<open>
  A caller applies an operation, or prepares and stages it and drops it before it is published
  (as a crash between the two writes does).
\<close>

datatype ('m, 'p, 'r) lifecycle_call =
    ApplyCall "('m, 'p, 'r) lifecycle_operation"
  | AbandonCall "('m, 'p, 'r) lifecycle_operation"

fun lc_call :: "('m::linorder, 'p, 'r, 's, 'b) index_lifecycle \<Rightarrow> ('m, 'p, 'r) lifecycle_call \<Rightarrow> 's \<Rightarrow> 's" where
  "lc_call L (ApplyCall op) s = snd (apply_operation L False op s)"
| "lc_call L (AbandonCall op) s =
     (case prepare L False op s of
        Inr (Ready plan planned) \<Rightarrow> snd (stage_prepared L plan planned s)
      | _ \<Rightarrow> s)"

definition lc_calls :: "('m::linorder, 'p, 'r, 's, 'b) index_lifecycle \<Rightarrow> ('m, 'p, 'r) lifecycle_call list \<Rightarrow> 's \<Rightarrow> 's" where
  "lc_calls L calls s = fold (lc_call L) calls s"

text \<open>No step drops or changes an operation record.\<close>

definition ca_keeps :: "('m::linorder, 'p, 'r) catalogue \<Rightarrow> ('m, 'p, 'r) catalogue \<Rightarrow> bool" where
  "ca_keeps a a' \<longleftrightarrow> (\<forall>i k rcd. ca_record a i k = Some rcd \<longrightarrow> ca_record a' i k = Some rcd)"

lemma ca_keeps_simps [simp]: "ca_keeps a a" "ca_keeps a (ca_stage i v a)"
  by (simp_all add: ca_keeps_def ca_stage_def)

lemma ca_keeps_trans: "ca_keeps a b \<Longrightarrow> ca_keeps b c \<Longrightarrow> ca_keeps a c"
  by (simp add: ca_keeps_def)

lemma ca_keeps_step: "lifecycle_step uc c op a r a' \<Longrightarrow> ca_keeps a a'"
  by (induction rule: lifecycle_step.induct) (auto simp: ca_keeps_def ca_publish_def)

lemma successor_operation:
  "successor uc vo current = Inr su \<Longrightarrow> or_operation (su_record su) = co_identity (vo_checked vo)"
  by (cases "lo_change (co_operation (vo_checked vo))"; cases current)
    (auto simp: successor_def published_def apply_destroy_def operation_record_new_def Let_def and_then_Inr_iff)

text \<open>A receipt is the record stored under the operation's key, which carries its digest.\<close>

lemma receipt_recorded:
  assumes "lifecycle_step uc c op a (Inr receipt) a'"
  obtains co rcd where "check c op = Inr co" "ca_record a' (lo_index op) (lo_key op) = Some rcd"
    "op_digest (or_operation rcd) = op_digest (co_identity co)" "receipt\<lparr>pr_replayed := True\<rparr> = receipt_of rcd True"
  using assms
proof cases
  case (step_applied co vo su)
  have "or_operation (su_record su) = co_identity co"
    using successor_operation [OF step_applied(7)] step_applied(5) by (simp add: permit_Inr)
  then show ?thesis using that [OF step_applied(3), of "su_record su"] step_applied(1,2)
    by (simp add: ca_publish_def receipt_of_def)
qed (simp add: that receipt_of_def)

lemma replay_step:
  assumes "check c op = Inr co" "ca_record a (lo_index op) (lo_key op) = Some rcd"
    and "op_digest (or_operation rcd) = op_digest (co_identity co)" "lifecycle_step uc c op a r a'"
  shows "r = Inr (receipt_of rcd True)"
  using assms(4) by cases (use assms(1-3) in simp_all)

context lifecycle_store
begin

lemma call_ok:
  assumes "lifecycle_ok B L" "inv s" "stored_ok L (abs s)"
  shows "inv (lc_call L call s) \<and> stored_ok L (abs (lc_call L call s)) \<and>
    ca_keeps (catalogue_of L (abs s)) (catalogue_of L (abs (lc_call L call s)))"
proof (cases call)
  case (ApplyCall op)
  obtain res s' where run: "apply_operation L False op s = (res, s')" by fastforce
  from apply_steps [OF assms run] show ?thesis
    using ApplyCall run by (auto simp: left_staged_def dest: ca_keeps_step)
next
  case (AbandonCall op)
  show ?thesis
  proof (cases "\<exists>plan planned. prepare L False op s = Inr (Ready plan planned)")
    case True
    then obtain plan planned where prep: "prepare L False op s = Inr (Ready plan planned)" by blast
    obtain res s' where run: "stage_prepared L plan planned s = (res, s')" by fastforce
    from stage_leaves [OF assms prep run] show ?thesis using AbandonCall prep run by (auto simp: left_staged_def)
  next
    case False
    then have "lc_call L call s = s" using AbandonCall by (auto split: sum.split preparation.split)
    then show ?thesis using assms by simp
  qed
qed

lemma calls_ok:
  assumes "lifecycle_ok B L" "inv s" "stored_ok L (abs s)"
  shows "inv (lc_calls L calls s) \<and> stored_ok L (abs (lc_calls L calls s)) \<and>
    ca_keeps (catalogue_of L (abs s)) (catalogue_of L (abs (lc_calls L calls s)))"
  using assms
proof (induction calls arbitrary: s)
  case (Cons call calls)
  note one = call_ok [OF Cons.prems, of call]
  then show ?case
    using Cons.IH [OF Cons.prems(1), of "lc_call L call s"] ca_keeps_trans by (auto simp: lc_calls_def)
qed (simp add: lc_calls_def)

lemma replays_or_fails:
  assumes "lifecycle_ok B L" "inv s" "stored_ok L (abs s)"
    and run: "apply_operation L False op s = (Inr receipt, s')" and t_def: "t = lc_calls L later s'"
  shows "apply_operation L False op t = (Inr (receipt\<lparr>pr_replayed := True\<rparr>), t) \<or>
    (\<exists>res. apply_operation L False op t = (res, t) \<and> cannot_store (storage_fails B inv) res)"
proof -
  from apply_steps [OF assms(1-3) run]
  have s': "inv s'" "stored_ok L (abs s')" "lc_step L op (abs s) (Inr receipt) (abs s')" by (auto simp: cannot_store_def)
  from s'(3) obtain co rcd where co: "check (lc_consumer L) op = Inr co"
    and rcd: "ca_record (catalogue_of L (abs s')) (lo_index op) (lo_key op) = Some rcd"
    and digest: "op_digest (or_operation rcd) = op_digest (co_identity co)"
    and receipt: "receipt\<lparr>pr_replayed := True\<rparr> = receipt_of rcd True"
    by (rule receipt_recorded)
  have t: "inv t" "stored_ok L (abs t)" "ca_keeps (catalogue_of L (abs s')) (catalogue_of L (abs t))"
    using calls_ok [OF assms(1) s'(1,2), of later] by (simp_all add: t_def)
  then have kept: "ca_record (catalogue_of L (abs t)) (lo_index op) (lo_key op) = Some rcd"
    using rcd unfolding ca_keeps_def by blast
  then have recorded: "st_operations (abs t) (lo_index op) (lo_key op) \<noteq> None"
    by (cases "st_operations (abs t) (lo_index op) (lo_key op)") (auto simp: record_of_def)
  obtain res u where again: "apply_operation L False op t = (res, u)" by fastforce
  have "lc_step L op (abs t) res (abs u) \<and> (published_now res \<or> u = t) \<or> cannot_store (storage_fails B inv) res \<and> u = t"
    using apply_steps [OF assms(1) t(1,2) again] recorded by blast
  moreover have "res = Inr (receipt_of rcd True)" if "lc_step L op (abs t) res (abs u)"
    by (rule replay_step [OF co kept digest that])
  ultimately show ?thesis using again receipt by (auto simp: published_now_def)
qed

lemma replays_later:
  assumes "lifecycle_ok B L" "inv s" "stored_ok L (abs s)" "\<not> storage_fails B inv"
    and "apply_operation L False op s = (Inr receipt, s')"
  shows "apply_operation L False op (lc_calls L later s') = (Inr (receipt\<lparr>pr_replayed := True\<rparr>), lc_calls L later s')"
  using replays_or_fails [OF assms(1-3,5) refl, of later] assms(4) by (auto simp: cannot_store_def)

end

end
