(* ===== verification/Lifecycle.thy ===== *)
theory Lifecycle
  imports Driver_Laws
begin

text \<open>
  The lifecycle over the in-memory adapter: histories of applied and abandoned operations on a
  fresh adapter, and what they guarantee.
\<close>

section \<open>Histories on the in-memory adapter\<close>

abbreviation atmis_history ::
    "('m::linorder, 'p, 'r, 'b lifecycle_state, 'b) index_lifecycle \<Rightarrow> ('m, 'p, 'r) lifecycle_call list \<Rightarrow> 'b lifecycle_state" where
  "atmis_history L calls \<equiv> lc_calls L calls lifecycle_state_new"

lemma atmis_history_ok:
  assumes "lifecycle_ok atmis_backend L"
  shows "(atmis_wf (atmis_history L calls) \<and> \<not> poisoned (atmis_history L calls)) \<and>
    stored_ok L (atmis_abs (atmis_history L calls))"
  using atmis_live.calls_ok [OF assms, of lifecycle_state_new calls] by simp

section \<open>A sample lifecycle\<close>

text \<open>Records stored as themselves: a storage library that reads back what it writes.\<close>

type_synonym sample_stored =
  "64 word head_bytes + (64 word, 64 word) version_payload + staging_marker + (64 word, 64 word, 64 word) operation_record"

definition sample_codec :: "(64 word, 64 word, 64 word, sample_stored) record_codec" where
  "sample_codec = \<lparr>rc_len = (\<lambda>_. 1),
     rc_header = (\<lambda>b. case b of Inl h \<Rightarrow> Inr (hb_format h) | Inr (Inl p) \<Rightarrow> Inr (vp_format p)
       | Inr (Inr (Inl m)) \<Rightarrow> Inr (sm_format m) | Inr (Inr (Inr r)) \<Rightarrow> Inr (or_format r)),
     rc_head_write = (\<lambda>h. Inr (Inl h)),
     rc_head_read = (\<lambda>b. case b of Inl h \<Rightarrow> Inr h | _ \<Rightarrow> Inl ''not a head''),
     rc_payload_write = (\<lambda>p. Inr (Inr (Inl p))),
     rc_payload_read = (\<lambda>engine_of table_of b. case b of
         Inr (Inl p) \<Rightarrow> and_then (engine_of (vp_engine p)) (\<lambda>e.
           and_then (table_of (bt_entries (vp_members p))) (\<lambda>t. Inr (p\<lparr>vp_engine := e, vp_members := t\<rparr>)))
       | _ \<Rightarrow> Inl (Refused ''not a payload'')),
     rc_marker_write = (\<lambda>m. Inr (Inr (Inr (Inl m)))),
     rc_record_write = (\<lambda>r. Inr (Inr (Inr (Inr r)))),
     rc_record_read = (\<lambda>b. case b of Inr (Inr (Inr r)) \<Rightarrow> Inr r | _ \<Rightarrow> Inl ''not a record'')\<rparr>"

definition sample_lifecycle :: "(64 word, 64 word, 64 word, sample_stored lifecycle_state, sample_stored) index_lifecycle" where
  "sample_lifecycle = \<lparr>lc_backend = atmis_backend, lc_consumer = word_consumer, lc_codec = sample_codec,
     lc_unicode = ascii_unicode\<rparr>"

lemma sample_lifecycle_ok: "lifecycle_ok atmis_backend sample_lifecycle"
proof -
  have "codec_ok word_consumer sample_codec" by (simp add: codec_ok_def sample_codec_def)
  then show ?thesis using ascii_lowercase_nonempty by (simp add: lifecycle_ok_def sample_lifecycle_def)
qed

definition sample_create :: "(64 word, 64 word, 64 word) lifecycle_operation" where
  "sample_create = \<lparr>lo_index = sample_index, lo_key = sample_key, lo_change = Create (CfgVector sample_config)\<rparr>"

lemma sample_create_check: "\<exists>co. check word_consumer sample_create = Inr co"
proof -
  have "\<not> isl (canonical_bytes word_codec sample_create)" by code_simp
  then obtain d where d: "compute_digest word_codec sample_create = Inr d"
    by (cases "canonical_bytes word_codec sample_create") (auto simp: compute_digest_def)
  have trunc: "op_codec.truncate word_consumer = word_codec"
    by (simp add: word_consumer_def op_codec.defs word_codec_def)
  have "config_valid (CfgVector sample_config)" by (rule config_valid_vector [OF sample_config_valid])
  then have "check word_consumer sample_create = Inr
      \<lparr>co_operation = sample_create, co_identity = \<lparr>op_key = sample_key, op_digest = d\<rparr>\<rparr>"
    using d trunc by (simp add: check_Inr sample_create_def)
  then show ?thesis by blast
qed

section \<open>An operation that must publish\<close>

lemma step_published:
  assumes "check c op = Inr co" "ca_record a (lo_index op) (lo_key op) = None"
    and "permit (ca_head a (lo_index op)) co = Inr vo" "ca_staged a (lo_index op) = {}"
    and "successor uc vo (ca_current a (lo_index op)) = Inr su" "lifecycle_step uc c op a r a'"
  shows "r = Inr (receipt_of (su_record su) False) \<and> a' = ca_publish (lo_index op) (lo_key op) su a"
  using assms(6) by cases (use assms(1-5) in auto)

text \<open>The version a change publishes, or the last one for a Destroy, counted from the head's.\<close>

fun version_after :: "('m, 'p, 'r) index_change \<Rightarrow> nat \<Rightarrow> nat" where
  "version_after (Destroy _) n = n"
| "version_after _ n = Suc n"

definition head_version :: "'r index_record option \<Rightarrow> nat" where
  "head_version head = (case head of None \<Rightarrow> 0 | Some r \<Rightarrow> version_get (state_version (ir_state r)))"

lemma successor_version:
  fixes op :: "('m::linorder, 'p, 'r) lifecycle_operation"
  assumes uc: "lowercase_nonempty uc" and check: "check c op = Inr co"
    and permit: "permit (map_option fst current) co = Inr vo" and current: "current_ok uc current"
    and room: "head_version (map_option fst current) < 2 ^ 64 - 1"
    and corpus: "\<forall>r p. current = Some (r, p) \<longrightarrow>
      corpus_before (lo_change op) (vp_engine p) + batch_tokens uc (lo_change op) \<le> usize_max"
  shows "\<exists>su. successor uc vo current = Inr su \<and>
    version_get (state_version (or_resulting (su_record su))) =
      version_after (lo_change op) (head_version (map_option fst current)) \<and>
    (su_payload su = None \<longleftrightarrow> (\<exists>x. lo_change op = Destroy x)) \<and>
    (\<forall>q. su_payload su = Some q \<longrightarrow> vp_version q = state_version (or_resulting (su_record su)))"
proof (cases "successor uc vo current")
  case (Inl f)
  then obtain r p where rp: "current = Some (r, p)" "build_failure uc (lo_change op) p f"
    using successor_builds [OF uc check permit current] by auto
  then obtain e where e: "version_successor (vp_version p) = Inl e"
    using corpus rp(1) by (auto simp: build_failure_def)
  have "ir_state r = Active (vp_version p)" using current rp(1) by (simp add: current_ok_def)
  then have "version_next (vp_version p) \<noteq> None"
    using room rp(1) by (simp add: head_version_def version_next_None)
  then show ?thesis using e by (auto simp: version_successor_def)
next
  case (Inr su)
  have facts: "lo_change (co_operation (vo_checked vo)) = lo_change op"
    using permit_changes [OF check permit current] by simp
  note none = built_not_destroy [OF Inr, unfolded facts]
  from successor_builds [OF uc check permit current] Inr
  consider config where "lo_change op = Create config" "current = None"
      "su = published op (co_identity co) (built_empty config)"
    | r p b where "current = Some (r, p)" "builds uc (lo_change op) p b" "su = published op (co_identity co) b"
    | x r p where "lo_change op = Destroy x" "current = Some (r, p)" "su = apply_destroy op (co_identity co) x r p"
    by auto
  then show ?thesis
  proof cases
    case 1
    then show ?thesis
      using Inr none by (simp add: published_def built_empty_def operation_record_new_def version_payload_new_def
          head_version_def Let_def)
  next
    case 2
    then have "version_successor (vp_version p) = Inr (bu_target b)" unfolding builds_def by blast
    moreover have "su_payload su \<noteq> None" using 2(3) by (simp add: published_def Let_def)
    then have "version_after (lo_change op) n = Suc n" for n using none by (cases "lo_change op") auto
    ultimately show ?thesis
      using Inr none 2 current by (simp add: published_def Let_def operation_record_new_def version_payload_new_def
          head_version_def current_ok_def version_successor_Inr)
  next
    case 3
    then show ?thesis
      using Inr none current by (simp add: apply_destroy_def Let_def operation_record_new_def head_version_def current_ok_def)
  qed
qed

text \<open>
  A validated operation with a fresh key, on an index with nothing staged, publishes: first what
  happens to the catalogue, then what its readers see.
\<close>

lemma atmis_applies:
  assumes L: "lifecycle_ok atmis_backend L" and s: "s = atmis_history L calls"
    and check: "check (lc_consumer L) op = Inr co"
    and fresh: "atmis_read_operation s (lo_index op) (lo_key op) = Inr None"
    and clear: "atmis_read_staging s (lo_index op) = Inr None"
    and head: "lifecycle_record L s (lo_index op) = Inr head" and permit: "permit head co = Inr vo"
    and room: "head_version head < 2 ^ 64 - 1"
    and corpus: "\<forall>x. lifecycle_index L s (lo_index op) = Inr x \<longrightarrow>
      corpus_before (lo_change op) (px_engine x) + batch_tokens (lc_unicode L) (lo_change op) \<le> usize_max"
  shows "\<exists>su s'. successor (lc_unicode L) vo (ca_current (catalogue_of L (atmis_abs s)) (lo_index op)) = Inr su \<and>
    version_get (state_version (or_resulting (su_record su))) = version_after (lo_change op) (head_version head) \<and>
    (su_payload su = None \<longleftrightarrow> (\<exists>x. lo_change op = Destroy x)) \<and>
    (\<forall>q. su_payload su = Some q \<longrightarrow> vp_version q = state_version (or_resulting (su_record su))) \<and>
    apply_operation L False op s = (Inr (receipt_of (su_record su) False), s') \<and>
    catalogue_of L (atmis_abs s') = ca_publish (lo_index op) (lo_key op) su (catalogue_of L (atmis_abs s)) \<and>
    permit (head_of L (atmis_abs s) (lo_index op)) co = Inr vo"
proof -
  let ?i = "lo_index op" and ?st = "atmis_abs s"
  have inv: "atmis_wf s \<and> \<not> poisoned s" and ok: "stored_ok L ?st" using atmis_history_ok [OF L, of calls] s by simp_all
  have uc: "lowercase_nonempty (lc_unicode L)" using L by (simp add: lifecycle_ok_def)
  have head': "head = head_of L ?st ?i" using atmis_live.reads_catalogue(1) [OF L inv ok, of ?i] head by (simp add: atmis_live.storage_works)
  have rcd: "ca_record (catalogue_of L ?st) ?i (lo_key op) = None"
    using fresh inv by (simp add: atmis_read_operation_def record_of_def)
  obtain x where "reads (b_read_staging atmis_backend s ?i) x" "staged_view ?st ?i x"
    using atmis_live.read_staging [OF inv] by blast
  then have "nothing_staged ?st ?i" using clear by (simp add: reads_def staged_view_def)
  then have unstaged: "ca_staged (catalogue_of L ?st) ?i = {}" by (auto simp: nothing_staged_def)
  have permit': "permit (ca_head (catalogue_of L ?st) ?i) co = Inr vo" using permit head' by simp
  let ?current = "ca_current (catalogue_of L ?st) ?i"
  have fst_current: "map_option fst ?current = head"
    using ok
  proof (cases rule: head_cases [of L ?st ?i])
    case (destroyed b r v x k)
    then show ?thesis using permit head' not_permitted_destroyed by metis
  qed (simp_all add: ca_current_def head')
  then have current: "permit (map_option fst ?current) co = Inr vo" "head_version (map_option fst ?current) < 2 ^ 64 - 1"
    using permit room by simp_all
  have fits: "\<forall>r p. ?current = Some (r, p) \<longrightarrow>
      corpus_before (lo_change op) (vp_engine p) + batch_tokens (lc_unicode L) (lo_change op) \<le> usize_max"
  proof (intro allI impI)
    fix r p
    assume "?current = Some (r, p)"
    then have "lifecycle_index L s ?i = Inr (from_payload p)"
      using atmis_live.reads_catalogue(2) [OF L inv ok, of ?i]
      by (auto simp: ca_current_def atmis_live.storage_works split: option.splits)
    then show "corpus_before (lo_change op) (vp_engine p) + batch_tokens (lc_unicode L) (lo_change op) \<le> usize_max"
      using corpus by (auto simp: from_payload_def)
  qed
  from successor_version [OF uc check current(1) current_of_head(1) [OF ok] current(2) fits, unfolded fst_current]
  obtain su where su: "successor (lc_unicode L) vo ?current = Inr su"
    "version_get (state_version (or_resulting (su_record su))) = version_after (lo_change op) (head_version head)"
    "su_payload su = None \<longleftrightarrow> (\<exists>x. lo_change op = Destroy x)"
    "\<forall>q. su_payload su = Some q \<longrightarrow> vp_version q = state_version (or_resulting (su_record su))"
    by (elim exE conjE) (rule that)
  obtain res s' where run: "apply_operation L False op s = (res, s')" by fastforce
  have "res = Inr (receipt_of (su_record su) False)"
    "catalogue_of L (atmis_abs s') = ca_publish ?i (lo_key op) su (catalogue_of L ?st)"
    using step_published [OF check rcd permit' unstaged su(1)] atmis_live.apply_steps_live [OF L inv ok run] by blast+
  then show ?thesis using su run permit' by auto
qed

lemma atmis_publishes:
  assumes L: "lifecycle_ok atmis_backend L" and s: "s = atmis_history L calls"
    and check: "check (lc_consumer L) op = Inr co"
    and "atmis_read_operation s (lo_index op) (lo_key op) = Inr None"
    and "atmis_read_staging s (lo_index op) = Inr None"
    and "lifecycle_record L s (lo_index op) = Inr head" "permit head co = Inr vo"
    and "head_version head < 2 ^ 64 - 1"
    and "\<forall>x. lifecycle_index L s (lo_index op) = Inr x \<longrightarrow>
      corpus_before (lo_change op) (px_engine x) + batch_tokens (lc_unicode L) (lo_change op) \<le> usize_max"
  shows "\<exists>receipt s' r. apply_operation L False op s = (Inr receipt, s') \<and> \<not> pr_replayed receipt \<and>
    version_get (receipt_version receipt) = version_after (lo_change op) (head_version head) \<and>
    lifecycle_record L s' (lo_index op) = Inr (Some r) \<and> ir_state r = pr_state receipt \<and>
    (case lo_change op of
       Destroy _ \<Rightarrow> lifecycle_index L s' (lo_index op) = fail (not_found (lo_index op))
     | _ \<Rightarrow> \<exists>x. lifecycle_index L s' (lo_index op) = Inr x \<and> px_version x = receipt_version receipt)"
proof -
  let ?i = "lo_index op" and ?st = "atmis_abs s"
  have inv: "atmis_wf s \<and> \<not> poisoned s" and ok: "stored_ok L ?st" using atmis_history_ok [OF L, of calls] s by simp_all
  obtain su s' where su: "successor (lc_unicode L) vo (ca_current (catalogue_of L ?st) ?i) = Inr su"
    "version_get (state_version (or_resulting (su_record su))) = version_after (lo_change op) (head_version head)"
    "su_payload su = None \<longleftrightarrow> (\<exists>x. lo_change op = Destroy x)"
    "\<forall>q. su_payload su = Some q \<longrightarrow> vp_version q = state_version (or_resulting (su_record su))"
    and run: "apply_operation L False op s = (Inr (receipt_of (su_record su) False), s')"
    and a': "catalogue_of L (atmis_abs s') = ca_publish ?i (lo_key op) su (catalogue_of L ?st)"
    and permit: "permit (head_of L ?st ?i) co = Inr vo"
    using atmis_applies [OF assms] by (elim exE conjE) (rule that)
  note after = atmis_live.apply_steps_live [OF L inv ok run]
  have "head_of L (atmis_abs s') ?i = Some (su_head su)" "active_of L (atmis_abs s') ?i = su_payload su"
    using arg_cong [OF a', of ca_head] arg_cong [OF a', of ca_payload] by (simp_all add: ca_publish_def)
  then have reads: "lifecycle_record L s' ?i = Inr (Some (su_head su))"
    "lifecycle_index L s' ?i = (case su_payload su of Some p \<Rightarrow> Inr (from_payload p) | None \<Rightarrow> fail (not_found ?i))"
    using atmis_live.reads_catalogue [OF L, of s' ?i] after by (simp_all add: atmis_live.storage_works)
  have "ir_state (su_head su) = or_resulting (su_record su)"
    using atmis_live.ready_succession [OF L ok check permit su(1)] by (simp add: succession_ok_def)
  moreover have "receipt_version (receipt_of (su_record su) False) = state_version (or_resulting (su_record su))"
    by (cases "or_resulting (su_record su)") (simp_all add: receipt_version_def receipt_of_def)
  ultimately show ?thesis
    using run reads su(2-4) by (cases "lo_change op") (auto simp: receipt_of_def from_payload_def)
qed

lemma sample_create_ready:
  obtains co vo where "check (lc_consumer sample_lifecycle) sample_create = Inr co" "permit None co = Inr vo"
    "atmis_read_operation (atmis_history sample_lifecycle []) (lo_index sample_create) (lo_key sample_create) = Inr None"
    "atmis_read_staging (atmis_history sample_lifecycle []) (lo_index sample_create) = Inr None"
    "lifecycle_record sample_lifecycle (atmis_history sample_lifecycle []) (lo_index sample_create) = Inr None"
    "batch_tokens (lc_unicode sample_lifecycle) (lo_change sample_create) = 0"
proof -
  obtain co where co: "check word_consumer sample_create = Inr co" using sample_create_check by blast
  then have "permit None co = Inr \<lparr>vo_checked = co, vo_from = from_state (None :: 64 word index_record option)\<rparr>"
    by (simp add: permit_Inr permitted_def check_Inr sample_create_def)
  then show ?thesis
  proof (rule that [rotated])
    show "atmis_read_staging (atmis_history sample_lifecycle []) (lo_index sample_create) = Inr None"
      by (simp add: lc_calls_def atmis_read_staging_def first_staged_def range_from_def lifecycle_state_new_def)
    show "lifecycle_record sample_lifecycle (atmis_history sample_lifecycle []) (lo_index sample_create) = Inr None"
      by (simp add: lc_calls_def lifecycle_record_def sample_lifecycle_def atmis_read_head_def) (simp add: lifecycle_state_new_def)
    show "atmis_read_operation (atmis_history sample_lifecycle []) (lo_index sample_create) (lo_key sample_create) = Inr None"
      by (simp add: lc_calls_def atmis_read_operation_def) (simp add: lifecycle_state_new_def)
  qed (use co in \<open>simp_all add: sample_lifecycle_def sample_create_def batch_tokens_def\<close>)
qed

lemma sample_create_published:
  obtains receipt s' where "apply_operation sample_lifecycle False sample_create (atmis_history sample_lifecycle []) = (Inr receipt, s')"
    "\<not> pr_replayed receipt"
proof -
  obtain co vo where ready: "check (lc_consumer sample_lifecycle) sample_create = Inr co" "permit None co = Inr vo"
    "atmis_read_operation (atmis_history sample_lifecycle []) (lo_index sample_create) (lo_key sample_create) = Inr None"
    "atmis_read_staging (atmis_history sample_lifecycle []) (lo_index sample_create) = Inr None"
    "lifecycle_record sample_lifecycle (atmis_history sample_lifecycle []) (lo_index sample_create) = Inr None"
    "batch_tokens (lc_unicode sample_lifecycle) (lo_change sample_create) = 0" by (rule sample_create_ready)
  show ?thesis
    using that atmis_publishes [OF sample_lifecycle_ok refl ready(1,3,4,5,2)] ready(6)
    by (auto simp: head_version_def sample_create_def)
qed

lemma sample_create_prepared:
  obtains plan planned where
    "prepare sample_lifecycle False sample_create (atmis_history sample_lifecycle []) = Inr (Ready plan planned)"
proof -
  obtain receipt t where
    "apply_operation sample_lifecycle False sample_create (atmis_history sample_lifecycle []) = (Inr receipt, t)" "\<not> pr_replayed receipt"
    by (rule sample_create_published)
  moreover have "prepare sample_lifecycle False sample_create (atmis_history sample_lifecycle []) \<noteq> Inr (Replayed receipt)"
    if "\<not> pr_replayed receipt" for receipt
    using that by (auto simp: prepare_def replay_def and_then_Inr_iff Let_def split: option.splits prod.splits)
  ultimately obtain plan planned where
    "prepare sample_lifecycle False sample_create (atmis_history sample_lifecycle []) = Inr (Ready plan planned)"
    by (auto simp: apply_operation_def split: sum.splits preparation.splits)
  then show ?thesis by (rule that)
qed

lemma sample_create_indexed:
  obtains x where "lifecycle_index sample_lifecycle (atmis_history sample_lifecycle [ApplyCall sample_create]) sample_index = Inr x"
proof -
  obtain co vo where ready: "check (lc_consumer sample_lifecycle) sample_create = Inr co" "permit None co = Inr vo"
    "atmis_read_operation (atmis_history sample_lifecycle []) (lo_index sample_create) (lo_key sample_create) = Inr None"
    "atmis_read_staging (atmis_history sample_lifecycle []) (lo_index sample_create) = Inr None"
    "lifecycle_record sample_lifecycle (atmis_history sample_lifecycle []) (lo_index sample_create) = Inr None"
    "batch_tokens (lc_unicode sample_lifecycle) (lo_change sample_create) = 0" by (rule sample_create_ready)
  from atmis_publishes [OF sample_lifecycle_ok refl ready(1,3,4,5,2)] ready(6)
  show ?thesis using that by (auto simp: head_version_def sample_create_def lc_calls_def)
qed

section \<open>A sample of a full-text index\<close>

text \<open>What the catalogue does not have, the adapter does not read.\<close>

lemma atmis_catalogue_absent:
  assumes L: "lifecycle_ok atmis_backend L" and s: "s = atmis_history L calls"
  shows "ca_record (catalogue_of L (atmis_abs s)) i k = None \<Longrightarrow> atmis_read_operation s i k = Inr None"
    and "ca_staged (catalogue_of L (atmis_abs s)) i = {} \<Longrightarrow> atmis_read_staging s i = Inr None"
proof -
  have inv: "atmis_wf s \<and> \<not> poisoned s" and ok: "stored_ok L (atmis_abs s)" using atmis_history_ok [OF L, of calls] s by simp_all
  show "atmis_read_operation s i k = Inr None" if "ca_record (catalogue_of L (atmis_abs s)) i k = None"
    using that ok inv unfolding stored_ok_def by (force simp: atmis_read_operation_def)
  show "atmis_read_staging s i = Inr None" if empty: "ca_staged (catalogue_of L (atmis_abs s)) i = {}"
  proof -
    obtain x where x: "reads (atmis_read_staging s i) x" "staged_view (atmis_abs s) i x"
      using atmis_read_staging_view inv by blast
    have "st_staging (atmis_abs s) i v = None" for v using empty catalogue_of_sel(4) by blast
    then have "x = None" using x(2) by (cases x) (auto simp: staged_view_def lowest_staged_def)
    then show ?thesis using x(1) atmis_reads_succeed(4) [of s i] inv by (auto simp: reads_def)
  qed
qed

definition text_create :: "(64 word, 64 word, 64 word) lifecycle_operation" where
  "text_create = \<lparr>lo_index = sample_index, lo_key = sample_key, lo_change = Create (CfgFts fts_config_simple)\<rparr>"

definition second_key :: operation_key where
  "second_key = projr (operation_key_parse ''k-2'')"

lemma second_key_new: "second_key \<noteq> sample_key"
  by code_simp

definition text_head :: "64 word index_record" where
  "text_head = \<lparr>ir_identity = sample_index, ir_config = CfgFts fts_config_simple, ir_state = Active version_first\<rparr>"

lemma simple_valid: "config_valid (CfgFts fts_config_simple)"
  using require_simple_pipeline_Inr [of fts_config_simple "()"] by simp

lemma text_create_check:
  obtains co where "check word_consumer text_create = Inr co" "co_operation co = text_create"
proof -
  have "\<not> isl (canonical_bytes word_codec text_create)" by code_simp
  then obtain d where d: "compute_digest word_codec text_create = Inr d"
    by (cases "canonical_bytes word_codec text_create") (auto simp: compute_digest_def)
  have "op_codec.truncate word_consumer = word_codec" by (simp add: word_consumer_def op_codec.defs word_codec_def)
  then have "check word_consumer text_create = Inr
      \<lparr>co_operation = text_create, co_identity = \<lparr>op_key = sample_key, op_digest = d\<rparr>\<rparr>"
    using d simple_valid by (simp add: check_Inr text_create_def)
  then show ?thesis using that by simp
qed

text \<open>After the full-text index is created, an insertion of a document is ready to publish.\<close>

lemma text_created:
  defines "s \<equiv> atmis_history sample_lifecycle [ApplyCall text_create]"
  shows "atmis_read_operation s sample_index second_key = Inr None" "atmis_read_staging s sample_index = Inr None"
    "lifecycle_record sample_lifecycle s sample_index = Inr (Some text_head)"
    "\<exists>x. lifecycle_index sample_lifecycle s sample_index = Inr x \<and> corpus_length (px_engine x) = 0"
proof -
  let ?L = sample_lifecycle and ?new = "atmis_history sample_lifecycle []"
  let ?fresh = "catalogue_of ?L (atmis_abs ?new)" and ?a = "catalogue_of ?L (atmis_abs s)"
  obtain co where co: "check (lc_consumer ?L) text_create = Inr co" "co_operation co = text_create"
    using text_create_check by (auto simp: sample_lifecycle_def)
  then obtain vo where vo: "permit (None :: 64 word index_record option) co = Inr vo"
    using permit_Inr [of None co "\<lparr>vo_checked = co, vo_from = from_state (None :: 64 word index_record option)\<rparr>"]
    by (auto simp: permitted_def text_create_def)
  have none: "atmis_abs ?new = empty_store" by (simp add: lc_calls_def)
  have empty: "ca_head ?fresh = (\<lambda>_. None)" "ca_record ?fresh = (\<lambda>_ _. None)" "ca_staged ?fresh = (\<lambda>_. {})"
    unfolding none by (simp_all add: catalogue_of_def head_of_def record_of_def empty_store_def fun_eq_iff)
  have named: "lo_index text_create = sample_index" "lo_key text_create = sample_key"
    "lo_change text_create = Create (CfgFts fts_config_simple)" by (simp_all add: text_create_def)
  have fresh: "atmis_read_operation ?new (lo_index text_create) (lo_key text_create) = Inr None"
    "atmis_read_staging ?new (lo_index text_create) = Inr None"
    "lifecycle_record ?L ?new (lo_index text_create) = Inr None"
    using sample_create_ready by (auto simp: named sample_create_def)
  obtain su s' where su: "successor (lc_unicode ?L) vo (ca_current ?fresh sample_index) = Inr su"
    and run: "apply_operation ?L False text_create ?new = (Inr (receipt_of (su_record su) False), s')"
    and a': "catalogue_of ?L (atmis_abs s') = ca_publish sample_index sample_key su ?fresh"
    using atmis_applies [OF sample_lifecycle_ok refl co(1) fresh vo] by (auto simp: named head_version_def batch_tokens_def)
  have "s = s'" using run by (simp add: s_def lc_calls_def)
  then have a: "?a = ca_publish sample_index sample_key su ?fresh" using a' by simp
  have su: "su = published text_create (co_identity co) (built_empty (CfgFts fts_config_simple))"
    using su vo co(2) empty by (simp add: permit_Inr successor_def ca_current_def named)
  show "atmis_read_operation s sample_index second_key = Inr None"
    by (rule atmis_catalogue_absent(1) [OF sample_lifecycle_ok s_def [THEN meta_eq_to_obj_eq]])
      (simp add: a ca_publish_def set2_def empty second_key_new del: catalogue_of_sel)
  show "atmis_read_staging s sample_index = Inr None"
    by (rule atmis_catalogue_absent(2) [OF sample_lifecycle_ok s_def [THEN meta_eq_to_obj_eq]])
      (simp add: a ca_publish_def empty del: catalogue_of_sel)
  have live: "(atmis_wf s \<and> \<not> poisoned s) \<and> stored_ok ?L (atmis_abs s)"
    unfolding s_def by (rule atmis_history_ok [OF sample_lifecycle_ok])
  have "head_of ?L (atmis_abs s) sample_index = Some (su_head su)" "active_of ?L (atmis_abs s) sample_index = su_payload su"
    using arg_cong [OF a, of ca_head] arg_cong [OF a, of ca_payload] by (simp_all add: ca_publish_def)
  then show "lifecycle_record ?L s sample_index = Inr (Some text_head)"
    "\<exists>x. lifecycle_index ?L s sample_index = Inr x \<and> corpus_length (px_engine x) = 0"
    using atmis_live.reads_catalogue [OF sample_lifecycle_ok, of s sample_index] live
    by (simp_all add: atmis_live.storage_works su published_def built_empty_def text_head_def named Let_def
        from_payload_def version_payload_new_def bm25_new_def)
qed

section \<open>An operation staged and dropped\<close>

text \<open>A destroy stages nothing; a version operation stages its version for the whole catalogue to see.\<close>

lemma atmis_stage_leaves:
  assumes L: "lifecycle_ok atmis_backend L" and s: "s = atmis_history L calls"
    and prep: "prepare L False op s = Inr (Ready plan planned)" and run: "stage_prepared L plan planned s = (res, s')"
  shows "atmis_wf s' \<and> \<not> poisoned s' \<and> stored_ok L (atmis_abs s') \<and>
    (atmis_abs s' = atmis_abs s \<or> left_staged L (lo_index op) (atmis_abs s) (atmis_abs s'))"
  using atmis_live.stage_leaves [OF L _ _ prep run] atmis_history_ok [OF L, of calls] s by simp

lemma step_orphan_blocks:
  assumes "lifecycle_step uc c op a r a'" "v \<in> ca_staged a (lo_index op)" "\<And>w. w \<in> ca_staged a (lo_index op) \<Longrightarrow> w = v"
    and "r = Inr receipt"
  shows "pr_replayed receipt"
  using assms(1) by cases (use assms(2-4) in auto)

section \<open>Properties\<close>

text \<open>
  C1: The lifecycle over an in-memory adapter implements its specification. After any history of
  applied and abandoned operations the stored bytes decode to a catalogue of indexes, and
  applying an operation is one step of the specification on it: refused by its checks, replayed
  or in conflict under its key, not permitted, blocked by an orphan staged version, not
  buildable, or published whole. An operation that does not publish leaves the adapter untouched.
\<close>
theorem lifecycle_refines_specification:
  assumes "lifecycle_ok atmis_backend L"
  shows "case apply_operation L False op (atmis_history L calls) of (res, s') \<Rightarrow>
    lc_step L op (atmis_abs (atmis_history L calls)) res (atmis_abs s') \<and> stored_ok L (atmis_abs s') \<and>
    (published_now res \<or> s' = atmis_history L calls)"
proof -
  obtain res s' where run: "apply_operation L False op (atmis_history L calls) = (res, s')" by fastforce
  have "lc_step L op (atmis_abs (atmis_history L calls)) res (atmis_abs s') \<and> stored_ok L (atmis_abs s') \<and>
      (published_now res \<or> s' = atmis_history L calls)"
    using atmis_live.apply_steps_live [OF assms _ _ run] atmis_history_ok [OF assms, of calls] by blast
  then show ?thesis by (simp add: run)
qed

lemma lifecycle_refines_specification_witness:
  "\<exists>receipt s'. apply_operation sample_lifecycle False sample_create (atmis_history sample_lifecycle []) = (receipt, s') \<and>
     lc_step sample_lifecycle sample_create (atmis_abs (atmis_history sample_lifecycle [])) receipt (atmis_abs s')"
  using lifecycle_refines_specification [OF sample_lifecycle_ok, of sample_create "[]"] by (auto split: prod.splits)

text \<open>
  C11: Reads of the lifecycle return the catalogue: \<open>record\<close> the head of an index, and \<open>index\<close>
  the payload its active head names, or that the index is not found when it is absent or
  destroyed. A staged version is never read.
\<close>
theorem lifecycle_reads_catalogue:
  assumes "lifecycle_ok atmis_backend L"
  shows "lifecycle_record L (atmis_history L calls) i = Inr (ca_head (catalogue_of L (atmis_abs (atmis_history L calls))) i) \<and>
    lifecycle_index L (atmis_history L calls) i =
      (case ca_payload (catalogue_of L (atmis_abs (atmis_history L calls))) i of
         Some p \<Rightarrow> Inr (from_payload p) | None \<Rightarrow> fail (not_found i))"
  using atmis_live.reads_catalogue [OF assms, of "atmis_history L calls" i] atmis_history_ok [OF assms, of calls]
  by (simp add: atmis_live.storage_works)

lemma lifecycle_reads_catalogue_witness:
  "lifecycle_index sample_lifecycle (atmis_history sample_lifecycle []) sample_index = fail (not_found sample_index)"
  using lifecycle_reads_catalogue [OF sample_lifecycle_ok, of "[]" sample_index]
  by (simp add: lc_calls_def active_of_def head_of_def empty_store_def)

text \<open>
  C7: A published operation is applied once. Whatever is applied or abandoned afterwards,
  applying it again under its key returns its recorded receipt, marked as replayed, and changes
  nothing.
\<close>
theorem lifecycle_replays:
  assumes "lifecycle_ok atmis_backend L"
    and "apply_operation L False op (atmis_history L calls) = (Inr receipt, s')"
  shows "apply_operation L False op (lc_calls L later s') = (Inr (receipt\<lparr>pr_replayed := True\<rparr>), lc_calls L later s')"
  using atmis_live.replays_later [OF assms(1) _ _ _ assms(2)] atmis_live.storage_works atmis_history_ok [OF assms(1), of calls]
  by blast

lemma lifecycle_replays_witness:
  "\<exists>receipt s'. apply_operation sample_lifecycle False sample_create s' = (Inr (receipt\<lparr>pr_replayed := True\<rparr>), s')"
proof -
  obtain receipt s' where
    "apply_operation sample_lifecycle False sample_create (atmis_history sample_lifecycle []) = (Inr receipt, s')"
    by (rule sample_create_published)
  then show ?thesis
    using lifecycle_replays [OF sample_lifecycle_ok, of sample_create "[]" receipt s' "[]"] by (auto simp: lc_calls_def)
qed

text \<open>
  C12: A staged version that is not published is invisible, and fences its index. Every read
  after a dropped stage returns what it returned before, for every index; and while a version is
  staged no operation on its index publishes: it is refused, or replays an earlier receipt.
\<close>
theorem abandoned_stage_invisible:
  assumes "lifecycle_ok atmis_backend L" "s = atmis_history L calls"
    and "prepare L False op s = Inr (Ready plan planned)" "stage_prepared L plan planned s = (res, s')"
  shows "lifecycle_record L s' i = lifecycle_record L s i \<and> lifecycle_index L s' i = lifecycle_index L s i \<and>
    (atmis_read_staging s' (lo_index op) \<noteq> Inr None \<longrightarrow> lo_index later = lo_index op \<longrightarrow>
       \<not> published_now (fst (apply_operation L False later s')))"
proof -
  note s' = atmis_stage_leaves [OF assms]
  have s: "(atmis_wf s \<and> \<not> poisoned s) \<and> stored_ok L (atmis_abs s)" using atmis_history_ok [OF assms(1)] assms(2) by simp
  have same: "ca_head (catalogue_of L (atmis_abs s')) = ca_head (catalogue_of L (atmis_abs s))"
    "ca_payload (catalogue_of L (atmis_abs s')) = ca_payload (catalogue_of L (atmis_abs s))"
    using s' by (auto simp: left_staged_def ca_stage_def simp del: catalogue_of_sel)
  have reads: "lifecycle_record L s' i = lifecycle_record L s i \<and> lifecycle_index L s' i = lifecycle_index L s i"
    using atmis_live.reads_catalogue [OF assms(1), of s' i] atmis_live.reads_catalogue [OF assms(1), of s i] s s' same
    by (simp add: atmis_live.storage_works)
  have "\<not> published_now r"
    if staged: "atmis_read_staging s' (lo_index op) \<noteq> Inr None" and later: "lo_index later = lo_index op"
      and run: "apply_operation L False later s' = (r, s'')" for r s''
  proof -
    have live: "atmis_wf s' \<and> \<not> poisoned s'" using s' by blast
    obtain x where "reads (atmis_read_staging s' (lo_index op)) x" "staged_view (atmis_abs s') (lo_index op) x"
      using atmis_read_staging_view live by blast
    then obtain v where v: "v \<in> ca_staged (catalogue_of L (atmis_abs s')) (lo_index later)"
      using staged atmis_reads_succeed(4) [of s'] live later by (cases x) (auto simp: reads_def staged_view_def lowest_staged_def)
    have "lc_step L later (atmis_abs s') r (atmis_abs s'')"
      using atmis_live.apply_steps_live [OF assms(1) live _ run] s' by blast
    then show ?thesis by cases (use v in \<open>auto simp: receipt_of_def\<close>)
  qed
  then show ?thesis using reads by (cases "apply_operation L False later s'") auto
qed

lemma abandoned_stage_invisible_witness:
  "\<exists>plan planned res s'. prepare sample_lifecycle False sample_create (atmis_history sample_lifecycle []) = Inr (Ready plan planned) \<and>
     stage_prepared sample_lifecycle plan planned (atmis_history sample_lifecycle []) = (res, s') \<and>
     lifecycle_record sample_lifecycle s' sample_index = Inr None"
proof -
  obtain plan planned where
    p: "prepare sample_lifecycle False sample_create (atmis_history sample_lifecycle []) = Inr (Ready plan planned)"
    by (rule sample_create_prepared)
  obtain res s' where r: "stage_prepared sample_lifecycle plan planned (atmis_history sample_lifecycle []) = (res, s')" by fastforce
  have "lifecycle_record sample_lifecycle s' sample_index =
      lifecycle_record sample_lifecycle (atmis_history sample_lifecycle []) sample_index"
    using abandoned_stage_invisible [OF sample_lifecycle_ok refl p r, of sample_index] by blast
  then show ?thesis using p r sample_create_ready by (metis sample_create_def lifecycle_operation.select_convs(1))
qed

text \<open>
  C10: A validated operation makes progress. If its key is new, nothing is staged for its index,
  the version counter has room, and the corpus counter has room for the tokens of its documents
  (beside those of the current version for an Insert, alone for a Rebuild), it publishes: its
  receipt names the next version, or for a Destroy the last one, \<open>record\<close> returns the new
  state, and \<open>index\<close> the new version, or after a Destroy nothing.
\<close>
theorem validated_operation_publishes:
  assumes "lifecycle_ok atmis_backend L" "s = atmis_history L calls"
    and "check (lc_consumer L) op = Inr co"
    and "atmis_read_operation s (lo_index op) (lo_key op) = Inr None"
    and "atmis_read_staging s (lo_index op) = Inr None"
    and "lifecycle_record L s (lo_index op) = Inr head" "permit head co = Inr vo"
    and "head_version head < 2 ^ 64 - 1"
    and "\<forall>x. lifecycle_index L s (lo_index op) = Inr x \<longrightarrow>
      corpus_before (lo_change op) (px_engine x) + batch_tokens (lc_unicode L) (lo_change op) \<le> usize_max"
  shows "\<exists>receipt s' r. apply_operation L False op s = (Inr receipt, s') \<and> \<not> pr_replayed receipt \<and>
    version_get (receipt_version receipt) = version_after (lo_change op) (head_version head) \<and>
    lifecycle_record L s' (lo_index op) = Inr (Some r) \<and> ir_state r = pr_state receipt \<and>
    (case lo_change op of
       Destroy _ \<Rightarrow> lifecycle_index L s' (lo_index op) = fail (not_found (lo_index op))
     | _ \<Rightarrow> \<exists>x. lifecycle_index L s' (lo_index op) = Inr x \<and> px_version x = receipt_version receipt)"
  using assms by (rule atmis_publishes)

text \<open>A document inserted into a full-text index is published as the index's second version.\<close>

lemma validated_operation_publishes_witness:
  "\<exists>receipt s'. apply_operation sample_lifecycle False (document_insert 7 ''a b'' second_key)
       (atmis_history sample_lifecycle [ApplyCall text_create]) = (Inr receipt, s') \<and>
     batch_tokens ascii_unicode (lo_change (document_insert 7 ''a b'' second_key)) = 2 \<and>
     version_get (receipt_version receipt) = 2 \<and>
     (\<exists>x. lifecycle_index sample_lifecycle s' sample_index = Inr x \<and> px_version x = receipt_version receipt)"
proof -
  let ?op = "document_insert 7 ''a b'' second_key" and ?L = sample_lifecycle
  let ?s = "atmis_history ?L [ApplyCall text_create]"
  have "\<not> isl (canonical_bytes word_codec ?op)" by code_simp
  then obtain co where co: "check (lc_consumer ?L) ?op = Inr co" "co_operation co = ?op"
    by (rule document_insert_check) (simp add: sample_lifecycle_def)
  then obtain vo where vo: "permit (Some text_head) co = Inr vo"
    using permit_Inr [of "Some text_head" co "\<lparr>vo_checked = co, vo_from = from_state (Some text_head)\<rparr>"] simple_valid
    by (auto simp: permitted_def text_head_def)
  have "length (tokenize ascii_unicode ''a b'') = 2" by code_simp
  then have tokens: "batch_tokens ascii_unicode (lo_change ?op) = 2" by (simp add: batch_tokens_def)
  have room: "\<forall>x. lifecycle_index ?L ?s (lo_index ?op) = Inr x \<longrightarrow>
      corpus_before (lo_change ?op) (px_engine x) + batch_tokens (lc_unicode ?L) (lo_change ?op) \<le> usize_max"
    using text_created(4) tokens by (auto simp: sample_lifecycle_def usize_max_def)
  have reads: "atmis_read_operation ?s (lo_index ?op) (lo_key ?op) = Inr None" "atmis_read_staging ?s (lo_index ?op) = Inr None"
    "lifecycle_record ?L ?s (lo_index ?op) = Inr (Some text_head)"
    using text_created(1-3) by simp_all
  have version: "head_version (Some text_head) = 1" by (simp add: head_version_def text_head_def)
  show ?thesis
    using validated_operation_publishes [OF sample_lifecycle_ok refl co(1) reads vo _ room] tokens version by auto
qed

text \<open>
  C13: Queries on a version read through the lifecycle answer for that version only: at most
  \<open>k\<close> distinct hits, each a member of the version with the provenance stored for it and the
  version's number, or a refusal of the query. A query never reports corruption and never panics.
\<close>
theorem published_queries_carry_provenance:
  assumes "lifecycle_ok atmis_backend L" "lifecycle_index L (atmis_history L calls) i = Inr x"
  shows "answers x k (query_vector x v k) \<and> answers x k (map_err Err (query_text uc ln x text k))"
proof -
  let ?st = "atmis_abs (atmis_history L calls)"
  have ok: "stored_ok L ?st" using atmis_history_ok [OF assms(1)] by blast
  obtain p where p: "active_of L ?st i = Some p" "x = from_payload p"
    using atmis_live.reads_catalogue(2) [OF assms(1), of "atmis_history L calls" i] atmis_history_ok [OF assms(1), of calls] assms(2)
    by (auto simp: atmis_live.storage_works split: option.splits)
  have "\<exists>r. head_of L ?st i = Some r \<and> current_ok (lc_unicode L) (Some (r, p))"
    using ok by (cases rule: head_cases [of L ?st i]) (use p(1) in auto)
  then show ?thesis
    using query_vector_answers [of p] query_text_answers [of p] p(2) by (auto simp: current_ok_def)
qed

lemma published_queries_carry_provenance_witness:
  "\<exists>s x. lifecycle_index sample_lifecycle s sample_index = Inr x \<and> answers x 3 (query_vector x [0x3f800000] 3)"
proof -
  obtain x where "lifecycle_index sample_lifecycle (atmis_history sample_lifecycle [ApplyCall sample_create]) sample_index = Inr x"
    by (rule sample_create_indexed)
  then show ?thesis using published_queries_carry_provenance [OF sample_lifecycle_ok] by blast
qed

end
