(* ===== verification/Writer.thy ===== *)
theory Writer
  imports Errors
begin

text \<open>
  The lifecycle writer every lifecycle over one backend shares
  (\<open>crates/heurema/src/lifecycle/writer.rs\<close>): its critical sections as functions of the state
  its mutex guards, and the threads around them as a step relation. A step is one critical
  section or one condition-variable event; \<open>notify_one\<close> happens after the mutex is released,
  wakes any one waiting thread, and a waiting thread may also wake for no reason. The mutex's
  poison is ignored by the code, so it has no place in the state.
\<close>

section \<open>The critical sections\<close>

record 't writer_state =
  owner :: "'t option"
  waiting :: nat

definition writer_new :: "'t writer_state" where
  "writer_new = \<lparr>owner = None, waiting = 0\<rparr>"

text \<open>\<open>acquire\<close> up to its wait, the wait's condition, \<open>acquire\<close> after its wait, and the guard's \<open>drop\<close>.\<close>

definition acquire_enter :: "'t \<Rightarrow> 't writer_state \<Rightarrow> heurema_error + 't writer_state" where
  "acquire_enter current st =
     (if owner st = Some current then Inl WriterHeld else Inr (st\<lparr>waiting := waiting st + 1\<rparr>))"

definition must_wait :: "'t writer_state \<Rightarrow> bool" where
  "must_wait st \<longleftrightarrow> owner st \<noteq> None"

definition acquire_exit :: "'t \<Rightarrow> 't writer_state \<Rightarrow> 't writer_state" where
  "acquire_exit current st = st\<lparr>waiting := waiting st - 1, owner := Some current\<rparr>"

definition guard_drop :: "'t writer_state \<Rightarrow> 't writer_state" where
  "guard_drop st = st\<lparr>owner := None\<rparr>"

definition writer_waiting :: "'t writer_state \<Rightarrow> nat" where
  "writer_waiting st = waiting st"

section \<open>Threads\<close>

text \<open>
  Where a thread is: outside, waiting on the condition variable, woken and about to look again,
  holding the guard, or past the release of its guard and about to notify.
\<close>

datatype phase = Idle | Parked | Woken | Holding | Notifying

record 't writer_system =
  sy_state :: "'t writer_state"
  sy_phase :: "'t \<Rightarrow> phase"

definition writer_start :: "'t writer_system" where
  "writer_start = \<lparr>sy_state = writer_new, sy_phase = (\<lambda>_. Idle)\<rparr>"

datatype 't writer_event = Acquire 't | Refuse 't heurema_error | Release 't | Notify 't | Wake 't | Spurious 't

inductive writer_step :: "'t writer_system \<Rightarrow> 't writer_event \<Rightarrow> 't writer_system \<Rightarrow> bool" for s where
  take_now: "sy_phase s t \<in> {Idle, Holding} \<Longrightarrow> acquire_enter t (sy_state s) = Inr st \<Longrightarrow> \<not> must_wait st \<Longrightarrow>
    writer_step s (Acquire t) \<lparr>sy_state = acquire_exit t st, sy_phase = (sy_phase s)(t := Holding)\<rparr>"
| take_wait: "sy_phase s t \<in> {Idle, Holding} \<Longrightarrow> acquire_enter t (sy_state s) = Inr st \<Longrightarrow> must_wait st \<Longrightarrow>
    writer_step s (Acquire t) \<lparr>sy_state = st, sy_phase = (sy_phase s)(t := Parked)\<rparr>"
| take_refused: "sy_phase s t \<in> {Idle, Holding} \<Longrightarrow> acquire_enter t (sy_state s) = Inl e \<Longrightarrow>
    writer_step s (Refuse t e) s"
| release: "sy_phase s t = Holding \<Longrightarrow>
    writer_step s (Release t) \<lparr>sy_state = guard_drop (sy_state s), sy_phase = (sy_phase s)(t := Notifying)\<rparr>"
| notify_one: "sy_phase s t = Notifying \<Longrightarrow> sy_phase s u = Parked \<Longrightarrow>
    writer_step s (Notify t) \<lparr>sy_state = sy_state s, sy_phase = (sy_phase s)(t := Idle, u := Woken)\<rparr>"
| notify_none: "sy_phase s t = Notifying \<Longrightarrow> (\<And>u. sy_phase s u \<noteq> Parked) \<Longrightarrow>
    writer_step s (Notify t) \<lparr>sy_state = sy_state s, sy_phase = (sy_phase s)(t := Idle)\<rparr>"
| wake_take: "sy_phase s t = Woken \<Longrightarrow> \<not> must_wait (sy_state s) \<Longrightarrow>
    writer_step s (Wake t) \<lparr>sy_state = acquire_exit t (sy_state s), sy_phase = (sy_phase s)(t := Holding)\<rparr>"
| wake_wait: "sy_phase s t = Woken \<Longrightarrow> must_wait (sy_state s) \<Longrightarrow>
    writer_step s (Wake t) \<lparr>sy_state = sy_state s, sy_phase = (sy_phase s)(t := Parked)\<rparr>"
| spurious: "sy_phase s t = Parked \<Longrightarrow>
    writer_step s (Spurious t) \<lparr>sy_state = sy_state s, sy_phase = (sy_phase s)(t := Woken)\<rparr>"

inductive writer_reachable :: "'t writer_system \<Rightarrow> bool" where
  start: "writer_reachable writer_start"
| step: "writer_reachable s \<Longrightarrow> writer_step s e s' \<Longrightarrow> writer_reachable s'"

inductive_cases writer_refuseE: "writer_step s (Refuse t e) s'"
inductive_cases writer_acquireE: "writer_step s (Acquire t) s'"

section \<open>The invariant\<close>

definition active :: "('t \<Rightarrow> phase) \<Rightarrow> 't set" where
  "active f = {t. f t \<noteq> Idle}"

definition queue :: "('t \<Rightarrow> phase) \<Rightarrow> 't set" where
  "queue f = {t. f t = Parked \<or> f t = Woken}"

text \<open>
  The owner is the thread holding the guard, the counter counts the waiting threads, and a free
  writer with a parked thread has a thread that will look at it: one about to notify, or one woken.
\<close>

definition writer_inv :: "'t writer_system \<Rightarrow> bool" where
  "writer_inv s \<longleftrightarrow> finite (active (sy_phase s)) \<and>
     (\<forall>t. owner (sy_state s) = Some t \<longleftrightarrow> sy_phase s t = Holding) \<and>
     waiting (sy_state s) = card (queue (sy_phase s)) \<and>
     (owner (sy_state s) = None \<longrightarrow> (\<exists>t. sy_phase s t = Parked) \<longrightarrow>
        (\<exists>t. sy_phase s t = Notifying \<or> sy_phase s t = Woken))"

text \<open>Changing one thread's phase changes the queue at that thread only.\<close>

lemma queue_move [simp]:
  "queue (f(t := p)) = (if p = Parked \<or> p = Woken then insert t (queue f) else queue f - {t})"
  by (auto simp: queue_def)

lemma queue_iff [simp]: "t \<in> queue f \<longleftrightarrow> f t = Parked \<or> f t = Woken"
  by (simp add: queue_def)

lemma active_move [simp]: "finite (active (f(t := p))) \<longleftrightarrow> finite (active f)"
proof -
  have "insert t (active (f(t := p))) = insert t (active f)" by (auto simp: active_def)
  then show ?thesis by (metis finite_insert)
qed

lemma queue_finite [simp]: "finite (active f) \<Longrightarrow> finite (queue f)"
  by (rule finite_subset [of _ "active f"]) (auto simp: queue_def active_def)

lemma writer_inv_start: "writer_inv writer_start"
  by (simp add: writer_inv_def writer_start_def writer_new_def active_def queue_def)

lemma queue_pos:
  assumes "finite (active f)" "f t = Parked \<or> f t = Woken"
  shows "0 < card (queue f)"
proof -
  have "t \<in> queue f" using assms(2) by simp
  then show ?thesis using queue_finite [OF assms(1)] by (metis card_gt_0_iff empty_iff)
qed

lemma writer_inv_step:
  assumes "writer_step s e s'" "writer_inv s"
  shows "writer_inv s'"
proof -
  let ?f = "sy_phase s" and ?o = "owner (sy_state s)"
  have own: "\<And>t. ?f t = Holding \<longleftrightarrow> ?o = Some t" and fin: "finite (active ?f)"
    and count: "waiting (sy_state s) = card (queue ?f)"
    using assms(2) by (auto simp: writer_inv_def)
  note defs = acquire_enter_def acquire_exit_def must_wait_def guard_drop_def
  from assms(1) show ?thesis
  proof cases
    case (take_now t st)
    then have "?o = None" "st = (sy_state s)\<lparr>waiting := waiting (sy_state s) + 1\<rparr>"
      by (auto simp: defs split: if_splits)
    moreover from this own have "?f t \<notin> {Parked, Woken}" using take_now(3) by auto
    ultimately show ?thesis using own fin count take_now(2) by (simp add: writer_inv_def defs)
  next
    case (take_wait t st)
    then have o: "?o \<noteq> Some t" "?o \<noteq> None" "st = (sy_state s)\<lparr>waiting := waiting (sy_state s) + 1\<rparr>"
      by (auto simp: defs split: if_splits)
    then have "?f t = Idle" using own take_wait(3) by auto
    then show ?thesis using own fin count take_wait(2) o by (simp add: writer_inv_def del: not_None_eq)
  next
    case (release t)
    have "queue (?f(t := Notifying)) = queue ?f" using release(3) by (auto simp: queue_def)
    moreover have "?o = Some t" using own release(3) by simp
    ultimately show ?thesis using own fin count release(2) by (auto simp: writer_inv_def defs simp del: queue_move)
  next
    case (notify_one t u)
    then have "?o \<noteq> Some t" "?o \<noteq> Some u" unfolding own [symmetric] by simp_all
    moreover from notify_one have "t \<noteq> u" by auto
    moreover have "\<exists>v. sy_phase s' v = Notifying \<or> sy_phase s' v = Woken"
      by (rule exI [of _ u]) (simp add: notify_one(2))
    ultimately show ?thesis
      unfolding writer_inv_def using own fin count notify_one by (intro conjI impI) (simp_all add: insert_absorb)
  next
    case (notify_none t)
    then have "?o \<noteq> Some t" unfolding own [symmetric] by simp
    then show ?thesis using own fin count notify_none by (simp add: writer_inv_def)
  next
    case (wake_take t)
    then have "?o = None" by (simp add: defs)
    then show ?thesis using own fin count wake_take by (simp add: writer_inv_def defs)
  next
    case (wake_wait t)
    then have "?o \<noteq> Some t" "?o \<noteq> None" unfolding own [symmetric] by (simp_all add: defs)
    then show ?thesis using own fin count wake_wait by (simp add: writer_inv_def insert_absorb del: not_None_eq)
  next
    case (spurious t)
    then have "?o \<noteq> Some t" unfolding own [symmetric] by simp
    moreover have "\<exists>v. sy_phase s' v = Notifying \<or> sy_phase s' v = Woken"
      by (rule exI [of _ t]) (simp add: spurious(2))
    ultimately show ?thesis
      unfolding writer_inv_def using own fin count spurious by (intro conjI impI) (simp_all add: insert_absorb)
  qed (use assms(2) in simp)
qed

lemma writer_reachable_inv: "writer_reachable s \<Longrightarrow> writer_inv s"
  by (induction rule: writer_reachable.induct) (auto intro: writer_inv_start writer_inv_step)

section \<open>Progress\<close>

text \<open>
  The steps of threads that use the writer and ask for it no more: a release, a released guard's
  notification, and a woken thread's second look.
\<close>

fun proceeds :: "'t writer_event \<Rightarrow> bool" where
  "proceeds (Release _) \<longleftrightarrow> True"
| "proceeds (Notify _) \<longleftrightarrow> True"
| "proceeds (Wake _) \<longleftrightarrow> True"
| "proceeds _ \<longleftrightarrow> False"

fun acquires :: "'t writer_event \<Rightarrow> bool" where
  "acquires (Acquire _) \<longleftrightarrow> True"
| "acquires _ \<longleftrightarrow> False"

fun wakes_idly :: "'t writer_event \<Rightarrow> bool" where
  "wakes_idly (Spurious _) \<longleftrightarrow> True"
| "wakes_idly _ \<longleftrightarrow> False"

inductive writer_run :: "'t writer_system \<Rightarrow> 't writer_event list \<Rightarrow> 't writer_system \<Rightarrow> bool" where
  run_nil: "writer_run s [] s"
| run_cons: "writer_step s e s' \<Longrightarrow> writer_run s' es s'' \<Longrightarrow> writer_run s (e # es) s''"

lemma writer_run_reachable: "writer_run s es s' \<Longrightarrow> writer_reachable s \<Longrightarrow> writer_reachable s'"
  by (induction rule: writer_run.induct) (auto intro: writer_reachable.step)

text \<open>
  The steps still owed by the threads, weighted so that each step lowers the sum: a thread that
  looks and finds the writer taken waits again, which its notifier has paid for.
\<close>

fun owed :: "phase \<Rightarrow> nat" where
  "owed Idle = 0"
| "owed Parked = 3"
| "owed Woken = 4"
| "owed Holding = 3"
| "owed Notifying = 2"

definition work :: "('t \<Rightarrow> phase) \<Rightarrow> nat" where
  "work f = (\<Sum>t\<in>active f. owed (f t))"

lemma work_move:
  assumes "finite (active f)"
  shows "work (f(t := p)) + owed (f t) = work f + owed p"
proof -
  let ?A = "insert t (active f)"
  have over: "work g = owed (g t) + (\<Sum>u\<in>active f - {t}. owed (g u))" if "active g \<subseteq> ?A" for g
  proof -
    have "work g = (\<Sum>u\<in>?A. owed (g u))"
      unfolding work_def by (rule sum.mono_neutral_left) (use assms that in \<open>auto simp: active_def\<close>)
    then show ?thesis using assms by (simp add: sum.insert_remove)
  qed
  have "active (f(t := p)) \<subseteq> ?A" by (auto simp: active_def)
  from over [OF this] over [OF subset_insertI] show ?thesis by auto
qed

lemma step_work:
  assumes "writer_step s e s'" "finite (active (sy_phase s))" "\<not> acquires e"
  shows "work (sy_phase s') + (if proceeds e then 1 else 0) \<le> work (sy_phase s) + (if wakes_idly e then 1 else 0)"
proof -
  note move = work_move [OF assms(2)]
  from assms(1) show ?thesis
  proof cases
    case (release t)
    then show ?thesis using move [of t Notifying] by simp
  next
    case (notify_one t u)
    let ?f = "(sy_phase s)(t := Idle)"
    have "?f u = Parked" using notify_one by auto
    then have "work (?f(u := Woken)) + 3 = work ?f + 4" using work_move [of ?f u Woken] assms(2) by simp
    then show ?thesis using notify_one move [of t Idle] by simp
  next
    case (notify_none t)
    then show ?thesis using move [of t Idle] by simp
  next
    case (wake_take t)
    then show ?thesis using move [of t Holding] by simp
  next
    case (wake_wait t)
    then show ?thesis using move [of t Parked] by simp
  next
    case (spurious t)
    then show ?thesis using move [of t Woken] by simp
  qed (use assms(3) in simp_all)
qed

lemma run_work:
  assumes "writer_run s es s'" "writer_inv s" "\<forall>e \<in> set es. \<not> acquires e"
  shows "length (filter proceeds es) + work (sy_phase s') \<le> work (sy_phase s) + length (filter wakes_idly es)"
  using assms
proof (induction rule: writer_run.induct)
  case (run_cons s e s' es s'')
  have "finite (active (sy_phase s))" using run_cons.prems(1) by (simp add: writer_inv_def)
  then show ?case
    using run_cons step_work [of s e s'] writer_inv_step [of s e s'] by (auto split: if_splits)
qed simp

text \<open>A thread that wants the writer or has it keeps doing so until it releases it, which it does holding it.\<close>

definition wants :: "phase \<Rightarrow> nat" where
  "wants p = (if p \<in> {Parked, Woken, Holding} then 1 else 0)"

lemma step_wants:
  assumes "writer_step s e s'" "\<not> acquires e"
  shows "(if e = Release t then 1 else 0) + wants (sy_phase s' t) = wants (sy_phase s t)"
  using assms by cases (auto simp: wants_def)

lemma run_wants:
  assumes "writer_run s es s'" "\<forall>e \<in> set es. \<not> acquires e"
  shows "count_list es (Release t) + wants (sy_phase s' t) = wants (sy_phase s t)"
  using assms
proof (induction rule: writer_run.induct)
  case (run_cons s e s' es s'')
  then show ?case using step_wants [of s e s' t] by auto
qed simp

lemma release_held:
  assumes "writer_run s es s'" "Release t \<in> set es"
  shows "\<exists>before rest u. es = before @ Release t # rest \<and> writer_run s before u \<and> sy_phase u t = Holding"
  using assms
proof (induction rule: writer_run.induct)
  case (run_cons s e s' es s'')
  show ?case
  proof (cases "e = Release t")
    case True
    then have "sy_phase s t = Holding" using run_cons.hyps(1) by (auto elim: writer_step.cases)
    then show ?thesis using True run_nil by (metis append_Nil)
  next
    case False
    then obtain before rest u where "es = before @ Release t # rest" "writer_run s' before u" "sy_phase u t = Holding"
      using run_cons by auto
    then show ?thesis using writer_run.run_cons [OF run_cons.hyps(1)] by (metis append_Cons)
  qed
qed simp

text \<open>Where no thread has a step to do, none has anything to do with the writer.\<close>

definition quiet :: "'t writer_system \<Rightarrow> bool" where
  "quiet s \<longleftrightarrow> (\<nexists>e s'. writer_step s e s' \<and> proceeds e)"

lemma quiet_idle:
  assumes "writer_inv s" "quiet s"
  shows "sy_phase s t = Idle"
proof -
  have stuck: "writer_step s e s' \<Longrightarrow> \<not> proceeds e" for e s' using assms(2) by (auto simp: quiet_def)
  have holding: "sy_phase s u \<noteq> Holding" for u using stuck writer_step.release by fastforce
  have notifying: "sy_phase s u \<noteq> Notifying" for u
    using stuck writer_step.notify_one writer_step.notify_none by (metis proceeds.simps(2))
  have woken: "sy_phase s u \<noteq> Woken" for u
    using stuck writer_step.wake_take writer_step.wake_wait by (metis proceeds.simps(3))
  have "owner (sy_state s) = None"
    using assms(1) holding by (cases "owner (sy_state s)") (auto simp: writer_inv_def)
  then have "sy_phase s t \<noteq> Parked" using assms(1) notifying woken unfolding writer_inv_def by blast
  then show ?thesis using holding notifying woken by (cases "sy_phase s t") auto
qed

lemma runs_to_quiet:
  "writer_inv s \<Longrightarrow> \<exists>es s'. writer_run s es s' \<and> (\<forall>e \<in> set es. proceeds e) \<and> quiet s'"
proof (induction "work (sy_phase s)" arbitrary: s rule: less_induct)
  case less
  show ?case
  proof (cases "quiet s")
    case True
    then show ?thesis using run_nil by (metis empty_iff list.set(1))
  next
    case False
    then obtain e s' where step: "writer_step s e s'" "proceeds e" by (auto simp: quiet_def)
    then have "\<not> acquires e" "\<not> wakes_idly e" by (cases e; simp)+
    then have "work (sy_phase s') < work (sy_phase s)"
      using step step_work [OF step(1)] less.prems by (simp add: writer_inv_def)
    from less.hyps [OF this writer_inv_step [OF step(1) less.prems]]
    obtain es s'' where "writer_run s' es s''" "\<forall>e \<in> set es. proceeds e" "quiet s''" by blast
    then show ?thesis using step writer_run.run_cons [OF step(1)] by (metis set_ConsD)
  qed
qed

section \<open>A sample run\<close>

text \<open>Thread 0 took the writer, thread 1 waits for it, and thread 0 has just released it.\<close>

definition sample_released :: "nat writer_system" where
  "sample_released = \<lparr>sy_state = \<lparr>owner = None, waiting = 1\<rparr>, sy_phase = (\<lambda>_. Idle)(0 := Notifying, 1 := Parked)\<rparr>"

lemma sample_released_reachable: "writer_reachable sample_released"
proof -
  let ?p = "\<lambda>_ :: nat. Idle"
  let ?held = "\<lparr>sy_state = \<lparr>owner = Some 0, waiting = 0\<rparr>, sy_phase = ?p(0 := Holding)\<rparr>"
  let ?queued = "\<lparr>sy_state = \<lparr>owner = Some 0, waiting = 1\<rparr>, sy_phase = ?p(0 := Holding, 1 := Parked)\<rparr>"
  have "writer_step writer_start (Acquire 0) ?held"
    using writer_step.take_now [of writer_start 0 "\<lparr>owner = None, waiting = 1\<rparr>"]
    by (simp add: writer_start_def writer_new_def acquire_enter_def must_wait_def acquire_exit_def)
  moreover have "writer_step ?held (Acquire 1) ?queued"
    using writer_step.take_wait [of ?held 1 "\<lparr>owner = Some 0, waiting = 1\<rparr>"]
    by (simp add: acquire_enter_def must_wait_def)
  moreover have "?p(0 := Holding, 1 := Parked, 0 := Notifying) = ?p(0 := Notifying, 1 := Parked)" by (auto simp: fun_eq_iff)
  then have "writer_step ?queued (Release 0) sample_released"
    using writer_step.release [of ?queued 0] by (simp add: guard_drop_def sample_released_def)
  ultimately show ?thesis using writer_reachable.intros by blast
qed

section \<open>Properties\<close>

text \<open>
  C25: The writer excludes: in every reachable state at most one thread holds a guard, and the
  counter is the number of threads waiting for it. A thread that holds the writer and asks for it
  again is refused with \<open>WriterHeld\<close>, so it never waits for itself, and no other thread is refused.
\<close>
theorem writer_excludes:
  assumes "writer_reachable s"
  shows "(sy_phase s t = Holding \<and> sy_phase s u = Holding \<longrightarrow> t = u) \<and>
    writer_waiting (sy_state s) = card (queue (sy_phase s)) \<and>
    (writer_step s (Acquire t) s' \<longrightarrow> sy_phase s t \<noteq> Holding) \<and>
    (writer_step s (Refuse t e) s' \<longrightarrow> sy_phase s t = Holding \<and> e = WriterHeld \<and> s' = s)"
proof -
  have inv: "writer_inv s" using assms by (rule writer_reachable_inv)
  then have own: "owner (sy_state s) = Some t \<longleftrightarrow> sy_phase s t = Holding" for t by (simp add: writer_inv_def)
  have "sy_phase s t \<noteq> Holding" if "writer_step s (Acquire t) s'"
    using that own [of t] by (auto simp: acquire_enter_def elim: writer_acquireE)
  moreover have "sy_phase s t = Holding \<and> e = WriterHeld \<and> s' = s" if "writer_step s (Refuse t e) s'"
    using that own [of t] by (auto simp: acquire_enter_def elim!: writer_refuseE split: if_splits)
  moreover have "sy_phase s t = Holding \<and> sy_phase s u = Holding \<longrightarrow> t = u"
    using own by (metis option.inject)
  moreover have "writer_waiting (sy_state s) = card (queue (sy_phase s))"
    using inv by (simp add: writer_inv_def writer_waiting_def)
  ultimately show ?thesis by blast
qed

lemma writer_excludes_witness:
  "\<not> writer_step sample_released (Refuse 1 WriterHeld) sample_released \<and> writer_waiting (sy_state sample_released) = card {1 :: nat}"
proof -
  have "queue (sy_phase sample_released) = {1}" by (auto simp: queue_def sample_released_def)
  moreover have "sy_phase sample_released 1 \<noteq> Holding" by (simp add: sample_released_def)
  ultimately show ?thesis
    using writer_excludes [OF sample_released_reachable, of 1 1 sample_released WriterHeld] by simp
qed

text \<open>
  C26: Every waiting thread gets the writer and releases it. Take any run from a reachable state in
  which no thread asks for the writer anew, spurious wakeups included. Its releases,
  notifications and second looks are bounded by the threads there are and by the spurious
  wakeups. It can be continued by such steps until none is left; and when none is left, no thread
  holds the writer, waits for it or has to notify, and each thread that held it or waited for it at
  the start has released it exactly once, holding it when it did.
\<close>
theorem writer_settles:
  assumes "writer_reachable s" "writer_run s es s'" "\<forall>e \<in> set es. \<not> acquires e"
  shows "length (filter proceeds es) \<le> work (sy_phase s) + length (filter wakes_idly es) \<and>
    (\<exists>more_events s''. writer_run s' more_events s'' \<and> (\<forall>e \<in> set more_events. proceeds e) \<and> quiet s'') \<and>
    (quiet s' \<longrightarrow> owner (sy_state s') = None \<and> writer_waiting (sy_state s') = 0 \<and> (\<forall>t. sy_phase s' t = Idle) \<and>
       (\<forall>t. sy_phase s t \<in> {Parked, Woken, Holding} \<longrightarrow> count_list es (Release t) = 1 \<and>
          (\<exists>before rest u. es = before @ Release t # rest \<and> writer_run s before u \<and> sy_phase u t = Holding)))"
proof -
  have inv: "writer_inv s" "writer_inv s'"
    using assms(1) writer_run_reachable [OF assms(2)] by (auto intro: writer_reachable_inv)
  have "length (filter proceeds es) \<le> work (sy_phase s) + length (filter wakes_idly es)"
    using run_work [OF assms(2) inv(1) assms(3)] by simp
  moreover have "owner (sy_state s') = None \<and> writer_waiting (sy_state s') = 0 \<and> (\<forall>t. sy_phase s' t = Idle)" if "quiet s'"
  proof -
    have idle: "sy_phase s' t = Idle" for t using quiet_idle [OF inv(2) that] .
    then show ?thesis
      using inv(2) by (cases "owner (sy_state s')") (auto simp: writer_inv_def writer_waiting_def queue_def)
  qed
  moreover have "count_list es (Release t) = 1" if "quiet s'" "sy_phase s t \<in> {Parked, Woken, Holding}" for t
    using run_wants [OF assms(2,3), of t] quiet_idle [OF inv(2) that(1), of t] that(2) by (simp add: wants_def)
  ultimately show ?thesis
    using runs_to_quiet [OF inv(2)] release_held [OF assms(2)] by (metis count_notin zero_neq_one)
qed

text \<open>
  Thread 0 notifies, thread 1 wakes, has the writer, releases it and notifies nobody.
\<close>
lemma writer_settles_witness:
  "\<exists>s'. writer_run sample_released [Notify 0, Wake 1, Release 1, Notify 1] s' \<and> owner (sy_state s') = None \<and>
     count_list [Notify 0, Wake 1, Release 1, Notify 1] (Release (1 :: nat)) = 1 \<and> (\<forall>t. sy_phase s' t = Idle)"
proof -
  let ?s = "\<lambda>h n f. \<lparr>sy_state = \<lparr>owner = h, waiting = n\<rparr>, sy_phase = (\<lambda>_ :: nat. Idle)(1 := f)\<rparr>"
  have first: "(sy_phase sample_released)(0 := Idle, 1 := Woken) = (\<lambda>_. Idle)(1 := Woken)"
    by (auto simp: fun_eq_iff sample_released_def)
  have "writer_step sample_released (Notify 0) (?s None 1 Woken)"
    using writer_step.notify_one [of sample_released 0 1, unfolded first] by (simp add: sample_released_def)
  moreover have "writer_step (?s None 1 Woken) (Wake 1) (?s (Some 1) 0 Holding)"
    using writer_step.wake_take [of "?s None 1 Woken" 1] by (simp add: must_wait_def acquire_exit_def)
  moreover have "writer_step (?s (Some 1) 0 Holding) (Release 1) (?s None 0 Notifying)"
    using writer_step.release [of "?s (Some 1) 0 Holding" 1] by (simp add: guard_drop_def)
  moreover have "writer_step (?s None 0 Notifying) (Notify 1) (?s None 0 Idle)"
    using writer_step.notify_none [of "?s None 0 Notifying" 1] by simp
  ultimately have run: "writer_run sample_released [Notify 0, Wake 1, Release 1, Notify 1] (?s None 0 Idle)"
    by (blast intro: writer_run.intros)
  have "quiet (?s None 0 Idle)"
    unfolding quiet_def by (auto elim!: writer_step.cases)
  then show ?thesis
    using writer_settles [OF sample_released_reachable run] run by (auto simp: sample_released_def)
qed

end
