(* ===== verification/Durable.thy ===== *)
theory Durable
  imports Lifecycle
begin

text \<open>
  The lifecycle over the durable adapter of \<open>crates/thesauros/src/lib.rs\<close>: what holds of an
  application's operations when any call on the database may fail at any moment.
\<close>

section \<open>Histories on a durable adapter\<close>

abbreviation durable_history ::
    "('m::linorder, 'p, 'r, 'd thesauros, 'b) index_lifecycle \<Rightarrow> 'd \<Rightarrow> ('m, 'p, 'r) lifecycle_call list \<Rightarrow> 'd thesauros" where
  "durable_history L d calls \<equiv> lc_calls L calls (thesauros_open d)"

lemma durable_history_ok:
  assumes "fjall_ok F len contents" "\<And>ks. contents d ks = bt_empty" "lifecycle_ok (thesauros_backend F len) L"
  shows "thesauros_inv F len contents (durable_history L d calls) \<and>
    stored_ok L (thesauros_abs contents (durable_history L d calls))"
  using thesauros.calls_ok [OF assms(3), of contents "thesauros_open d" calls] assms(1) thesauros_empty [of contents d, OF assms(2)]
  by simp

section \<open>A sample durable lifecycle\<close>

definition sample_durable :: "(64 word, 64 word, 64 word, (nat \<times> sample_stored contents) thesauros, sample_stored) index_lifecycle" where
  "sample_durable = \<lparr>lc_backend = thesauros_backend sample_fjall (\<lambda>_. 1), lc_consumer = word_consumer,
     lc_codec = sample_codec, lc_unicode = ascii_unicode\<rparr>"

lemma sample_durable_ok: "lifecycle_ok (thesauros_backend sample_fjall (\<lambda>_. 1)) sample_durable"
proof -
  have "codec_ok word_consumer sample_codec" by (simp add: codec_ok_def sample_codec_def)
  then show ?thesis using ascii_lowercase_nonempty by (simp add: lifecycle_ok_def sample_durable_def)
qed

lemma fresh_plan:
  assumes "prepare L held op s = Inr (Ready plan planned)" "b_read_head (lc_backend L) s (lo_index op) = Inr None"
  shows "\<exists>v m b. planned = PlannedVersion None v m b"
  using assms
  by (auto simp: prepare_def encode_plan_def plan_write_def and_then_Inr_iff split: option.splits prod.splits)

text \<open>A disk with room for the two commits of a Create.\<close>

lemma sample_durable_published:
  obtains receipt s' where
    "apply_operation sample_durable False sample_create (durable_history sample_durable (sample_disk 2) []) = (Inr receipt, s')"
proof -
  let ?s = "thesauros_open (sample_disk 2) :: (nat \<times> sample_stored contents) thesauros"
  let ?t = "lifecycle_state_new :: sample_stored lifecycle_state"
  have reads: "thesauros_read_head sample_fjall ?s i = Inr None" "thesauros_read_operation sample_fjall ?s i k = Inr None"
    "thesauros_read_staging sample_fjall ?s i = Inr None"
    "atmis_read_head ?t i = Inr None" "atmis_read_operation ?t i k = Inr None" "atmis_read_staging ?t i = Inr None" for i k
    by (simp_all add: lc_calls_def thesauros_open_def sample_disk_def sample_fjall_def thesauros_read_head_def th_get_def
      or_persistence_def thesauros_read_operation_def thesauros_read_staging_def th_first_staged_def
      atmis_read_head_def atmis_read_operation_def atmis_read_staging_def first_staged_def range_from_def lifecycle_state_new_def)
  have "prepare sample_durable False sample_create ?s = prepare sample_lifecycle False sample_create ?t"
    by (simp add: prepare_def replay_def current_version_def sample_durable_def sample_lifecycle_def reads Let_def)
  moreover obtain plan planned where ready: "prepare sample_lifecycle False sample_create ?t = Inr (Ready plan planned)"
    using sample_create_prepared by (auto simp: lc_calls_def)
  moreover obtain v m b where "planned = PlannedVersion None v m b"
    using fresh_plan [OF ready] by (auto simp: sample_lifecycle_def reads)
  ultimately have "\<exists>receipt s'. apply_operation sample_durable False sample_create ?s = (Inr receipt, s')"
    by (simp add: apply_operation_def stage_prepared_def publish_staged_def sample_durable_def sample_codec_def
      thesauros_stage_def thesauros_publish_def Let_def th_commit_def refuse_oversized_def commit_lock_def lc_calls_def thesauros_open_def
      th_check_head_def th_refuse_staged_def th_first_staged_def th_refuse_stored_version_def th_refuse_recorded_def
      th_check_marker_def th_check_payload_def btree_simps staging_key_def
      th_contains_def or_persistence_def sample_disk_def sample_fjall_def MAX_VALUE_LEN_def)
  then show ?thesis using that by (auto simp: lc_calls_def)
qed

section \<open>Properties\<close>

text \<open>
  C4: Over a durable adapter, whichever calls on the database fail and whenever, applying an
  operation after any history is atomic. Either it is a step of the specification, or it
  reports a storage failure and then the catalogue is as it was, or has the operation's version
  staged only, which no read sees, or has the whole operation published, receipt included. Stored
  bytes always decode to a catalogue.
\<close>
theorem durable_apply_atomic:
  assumes "fjall_ok F len contents" "\<And>ks. contents d ks = bt_empty" "lifecycle_ok (thesauros_backend F len) L"
    and "s = durable_history L d calls" "apply_operation L False op s = (res, s')"
  shows "stored_ok L (thesauros_abs contents s') \<and>
    (lc_step L op (thesauros_abs contents s) res (thesauros_abs contents s') \<or>
     (\<exists>src. res = fail (Persistence src)) \<and>
       (thesauros_abs contents s' = thesauros_abs contents s \<or>
        left_staged L (lo_index op) (thesauros_abs contents s) (thesauros_abs contents s') \<or>
        (\<exists>receipt. lc_step L op (thesauros_abs contents s) (Inr receipt) (thesauros_abs contents s'))))"
  using thesauros.apply_steps [OF assms(3) _ _ assms(5)] durable_history_ok [OF assms(1,2,3), of calls]
  unfolding cannot_store_def assms(4) by blast

theorem durable_apply_atomic_witness:
  "\<exists>res s'. apply_operation sample_durable False sample_create (durable_history sample_durable (sample_disk 1) []) = (res, s') \<and>
     stored_ok sample_durable (thesauros_abs snd s')"
proof -
  obtain res s' where run: "apply_operation sample_durable False sample_create
      (durable_history sample_durable (sample_disk 1) []) = (res, s')" by fastforce
  then show ?thesis
    using durable_apply_atomic [OF sample_fjall_ok sample_disk_empty sample_durable_ok refl run] by blast
qed

text \<open>
  C8: A receipt is durable. Once an operation returned one, then whatever is applied,
  abandoned or fails afterwards, applying the operation again returns that receipt marked as
  replayed and changes nothing, unless the storage fails to read it; it is never applied twice.
\<close>
theorem durable_receipts_kept:
  assumes "fjall_ok F len contents" "\<And>ks. contents d ks = bt_empty" "lifecycle_ok (thesauros_backend F len) L"
    and "apply_operation L False op (durable_history L d calls) = (Inr receipt, s')" "t = lc_calls L later s'"
  shows "apply_operation L False op t = (Inr (receipt\<lparr>pr_replayed := True\<rparr>), t) \<or>
    (\<exists>src. apply_operation L False op t = (fail (Persistence src), t))"
  using thesauros.replays_or_fails [OF assms(3) _ _ assms(4,5)] durable_history_ok [OF assms(1,2,3), of calls]
  unfolding cannot_store_def by blast

theorem durable_receipts_kept_witness:
  "\<exists>receipt t. apply_operation sample_durable False sample_create t = (Inr (receipt\<lparr>pr_replayed := True\<rparr>), t) \<or>
     (\<exists>src. apply_operation sample_durable False sample_create t = (fail (Persistence src), t))"
proof -
  obtain receipt s' where "apply_operation sample_durable False sample_create
      (durable_history sample_durable (sample_disk 2) []) = (Inr receipt, s')" by (rule sample_durable_published)
  from durable_receipts_kept [OF sample_fjall_ok sample_disk_empty sample_durable_ok this refl, of "[]"] show ?thesis by blast
qed

end
