(* ===== verification/Concurrent.thy ===== *)
theory Concurrent
  imports Writer Lifecycle
begin

text \<open>
  Several lifecycles over one backend, used from several threads
  (\<open>crates/heurema/src/lifecycle/driver.rs\<close> with \<open>writer.rs\<close>). Each call on the backend is
  one step, so that other threads may run between any two of an operation's calls; the writer
  that \<open>prepare\<close> takes and the prepared or staged operation keeps decides which of them may.
  The theory shows that every interleaving amounts to applying the operations one at a time.
\<close>

section \<open>An operation's reads, each of its own state\<close>

definition active_payload_at ::
    "('m::linorder, 'p, 'r, 's, 'b) index_lifecycle \<Rightarrow> 's \<Rightarrow> 's \<Rightarrow> index_identity \<Rightarrow> index_version \<Rightarrow> 'r index_record \<Rightarrow>
       ('m, 'p) version_payload option res" where
  "active_payload_at L s s' index version head =
     and_then (map_err Err (b_read_version (lc_backend L) s index version)) (\<lambda>stored.
     case stored of
       None \<Rightarrow>
         and_then (map_err Err (lifecycle_record L s' index)) (\<lambda>current.
         case map_option ir_state current of
           Some (Active _) \<Rightarrow> fail (corrupt (PayloadMissing index version))
         | _ \<Rightarrow> Inr None)
     | Some b \<Rightarrow>
         and_then (decode_payload (debug (lc_consumer L)) (lc_codec L) b index version) (\<lambda>payload.
         and_then (ensure (vp_config payload = ir_config head) (Err (corrupt (ConfigurationsDiffer index version)))) (\<lambda>_.
         Inr (Some payload))))"

definition current_version_at ::
    "('m::linorder, 'p, 'r, 's, 'b) index_lifecycle \<Rightarrow> 's \<Rightarrow> 's \<Rightarrow> index_identity \<Rightarrow> 'r index_record option \<Rightarrow>
       ('r index_record \<times> ('m, 'p) version_payload) option res" where
  "current_version_at L s s' index head =
     (case head of
        None \<Rightarrow> Inr None
      | Some record \<Rightarrow>
          (case ir_state record of
             Destroyed _ _ _ \<Rightarrow> Inr None
           | Active version \<Rightarrow>
               and_then (active_payload_at L s s' index version record) (\<lambda>payload.
               case payload of
                 None \<Rightarrow> fail (HeadChanged index)
               | Some p \<Rightarrow> Inr (Some (record, p)))))"

text \<open>\<open>prepare\<close> after it took the writer: the head, the operation record, the payload, perhaps the head again, the staging.\<close>

definition prepare_at ::
    "('m::linorder, 'p, 'r, 's, 'b) index_lifecycle \<Rightarrow> ('m, 'p, 'r) lifecycle_operation \<Rightarrow> 's \<times> 's \<times> 's \<times> 's \<times> 's \<Rightarrow>
       ('r, 'b) preparation res" where
  "prepare_at L op seen = (case seen of (s1, s2, s3, s4, s5) \<Rightarrow>
     and_then (map_err Err (check (lc_consumer L) op)) (\<lambda>co.
     and_then (map_err Err (b_read_head (lc_backend L) s1 (lo_index op))) (\<lambda>expected_head.
     and_then (map_err Err (replay L s2 co)) (\<lambda>replayed.
     case replayed of
       Some receipt \<Rightarrow> Inr (Replayed receipt)
     | None \<Rightarrow>
         and_then (map_err Err (map_opt_res (\<lambda>b. decode_head (lc_codec L) b (lo_index op)) expected_head)) (\<lambda>head.
         and_then (current_version_at L s3 s4 (lo_index op) head) (\<lambda>current.
         and_then (map_err Err (permit head co)) (\<lambda>vo.
         and_then (map_err Err (b_read_staging (lc_backend L) s5 (lo_index op))) (\<lambda>staged.
         and_then (case staged of None \<Rightarrow> Inr () | Some (version, _) \<Rightarrow> fail (StagedStateExists (lo_index op) version)) (\<lambda>_.
         and_then (successor (lc_unicode L) vo current) (\<lambda>su.
         and_then (map_err Err (encode_plan (lc_codec L) su expected_head op)) (\<lambda>(plan, planned).
         Inr (Ready plan planned))))))))))))"

lemma active_payload_at_same: "active_payload_at L s s = active_payload L s"
  by (simp add: fun_eq_iff active_payload_at_def active_payload_def)

lemma current_version_at_same: "current_version_at L s s = current_version L s"
  unfolding current_version_at_def [abs_def] current_version_def [abs_def] active_payload_at_same by (rule refl)

lemma prepare_at_same: "prepare_at L op (s, s, s, s, s) = prepare L False op s"
  by (simp add: prepare_at_def prepare_def current_version_at_same ensure_def)

section \<open>Threads over one backend\<close>

text \<open>
  A thread's operation: it has passed its stateless checks and seeks the writer; it holds the writer and
  has read the backend some times; it is prepared; it is staged.
\<close>

datatype ('m, 'p, 'r, 's, 'b) job =
    Resting
  | Seeking "('m, 'p, 'r) lifecycle_operation"
  | Reading "('m, 'p, 'r) lifecycle_operation" "'s list"
  | Planned "('m, 'p, 'r) lifecycle_operation" "('r, 'b) plan" "'b planned_write"
  | StagedJob "('m, 'p, 'r) lifecycle_operation" "('r, 'b) plan" "'b staged_write"

text \<open>The log lists the operations in the order they finished, with what they returned, or dropped once staged.\<close>

record ('t, 'm, 'p, 'r, 's, 'b) lifecycle_system =
  ls_writer :: "'t writer_system"
  ls_store :: 's
  ls_jobs :: "'t \<Rightarrow> ('m, 'p, 'r, 's, 'b) job"
  ls_log :: "(('m, 'p, 'r) lifecycle_call \<times> 'r publish_receipt res option) list"

definition lifecycle_start :: "'s \<Rightarrow> ('t, 'm, 'p, 'r, 's, 'b) lifecycle_system" where
  "lifecycle_start s = \<lparr>ls_writer = writer_start, ls_store = s, ls_jobs = (\<lambda>_. Resting), ls_log = []\<rparr>"

text \<open>A thread that got the writer starts to read.\<close>

definition started :: "'t writer_system \<Rightarrow> 't \<Rightarrow> ('m, 'p, 'r, 's, 'b) job \<Rightarrow> ('m, 'p, 'r, 's, 'b) job" where
  "started w t job = (case job of Seeking op \<Rightarrow> if sy_phase w t = Holding then Reading op [] else job | _ \<Rightarrow> job)"

text \<open>The end of an operation: its guard is dropped, and what it returned is logged.\<close>

definition finished ::
    "'t writer_system \<Rightarrow> 's \<Rightarrow> 't \<Rightarrow> (('m, 'p, 'r) lifecycle_call \<times> 'r publish_receipt res option) list \<Rightarrow>
       ('t, 'm, 'p, 'r, 's, 'b) lifecycle_system \<Rightarrow> ('t, 'm, 'p, 'r, 's, 'b) lifecycle_system" where
  "finished w s t entry y = \<lparr>ls_writer = w, ls_store = s, ls_jobs = (ls_jobs y)(t := Resting), ls_log = ls_log y @ entry\<rparr>"

text \<open>
  One step of one thread. An operation refused by its stateless checks never asks for the writer. A
  thread that holds the writer reads the backend five times, one state for each read of \<open>prepare\<close>
  (fewer matter when it returns early), then plans, stages and publishes, or drops what it has; the
  steps of the writer are those of \<open>writer_step\<close>, and a holder that asks again is refused.
\<close>

inductive concurrent_step ::
    "('m::linorder, 'p, 'r, 's, 'b) index_lifecycle \<Rightarrow> ('t, 'm, 'p, 'r, 's, 'b) lifecycle_system \<Rightarrow>
       ('t, 'm, 'p, 'r, 's, 'b) lifecycle_system \<Rightarrow> bool"
  for L y where
  conc_refused: "ls_jobs y t = Resting \<Longrightarrow> check (lc_consumer L) op = Inl e \<Longrightarrow>
    concurrent_step L y (y\<lparr>ls_log := ls_log y @ [(ApplyCall op, Some (fail e))]\<rparr>)"
| conc_begin: "ls_jobs y t = Resting \<Longrightarrow> sy_phase (ls_writer y) t = Idle \<Longrightarrow> check (lc_consumer L) op = Inr co \<Longrightarrow>
    concurrent_step L y (y\<lparr>ls_jobs := (ls_jobs y)(t := Seeking op)\<rparr>)"
| conc_acquire: "ls_jobs y t = Seeking op \<Longrightarrow> writer_step (ls_writer y) (Acquire t) w \<Longrightarrow>
    concurrent_step L y (y\<lparr>ls_writer := w, ls_jobs := (ls_jobs y)(t := started w t (Seeking op))\<rparr>)"
| conc_wake: "writer_step (ls_writer y) (Wake t) w \<Longrightarrow>
    concurrent_step L y (y\<lparr>ls_writer := w, ls_jobs := (ls_jobs y)(t := started w t (ls_jobs y t))\<rparr>)"
| conc_held: "writer_step (ls_writer y) (Refuse t e) w \<Longrightarrow> concurrent_step L y (y\<lparr>ls_writer := w\<rparr>)"
| conc_notify: "writer_step (ls_writer y) (Notify t) w \<Longrightarrow> concurrent_step L y (y\<lparr>ls_writer := w\<rparr>)"
| conc_spurious: "writer_step (ls_writer y) (Spurious t) w \<Longrightarrow> concurrent_step L y (y\<lparr>ls_writer := w\<rparr>)"
| conc_read: "ls_jobs y t = Reading op seen \<Longrightarrow> length seen < 5 \<Longrightarrow>
    concurrent_step L y (y\<lparr>ls_jobs := (ls_jobs y)(t := Reading op (seen @ [ls_store y]))\<rparr>)"
| conc_plan: "ls_jobs y t = Reading op [s1, s2, s3, s4, s5] \<Longrightarrow>
    prepare_at L op (s1, s2, s3, s4, s5) = Inr (Ready plan planned) \<Longrightarrow>
    concurrent_step L y (y\<lparr>ls_jobs := (ls_jobs y)(t := Planned op plan planned)\<rparr>)"
| conc_replayed: "ls_jobs y t = Reading op [s1, s2, s3, s4, s5] \<Longrightarrow>
    prepare_at L op (s1, s2, s3, s4, s5) = Inr (Replayed receipt) \<Longrightarrow> writer_step (ls_writer y) (Release t) w \<Longrightarrow>
    concurrent_step L y (finished w (ls_store y) t [(ApplyCall op, Some (Inr receipt))] y)"
| conc_unprepared: "ls_jobs y t = Reading op [s1, s2, s3, s4, s5] \<Longrightarrow>
    prepare_at L op (s1, s2, s3, s4, s5) = Inl f \<Longrightarrow> writer_step (ls_writer y) (Release t) w \<Longrightarrow>
    concurrent_step L y (finished w (ls_store y) t [(ApplyCall op, Some (Inl f))] y)"
| conc_stage: "ls_jobs y t = Planned op plan planned \<Longrightarrow> stage_prepared L plan planned (ls_store y) = (Inr staged, s) \<Longrightarrow>
    concurrent_step L y (y\<lparr>ls_store := s, ls_jobs := (ls_jobs y)(t := StagedJob op plan staged)\<rparr>)"
| conc_unstaged: "ls_jobs y t = Planned op plan planned \<Longrightarrow> stage_prepared L plan planned (ls_store y) = (Inl e, s) \<Longrightarrow>
    writer_step (ls_writer y) (Release t) w \<Longrightarrow>
    concurrent_step L y (finished w s t [(ApplyCall op, Some (fail e))] y)"
| conc_publish: "ls_jobs y t = StagedJob op plan staged \<Longrightarrow> publish_staged L plan staged (ls_store y) = (r, s) \<Longrightarrow>
    writer_step (ls_writer y) (Release t) w \<Longrightarrow>
    concurrent_step L y (finished w s t [(ApplyCall op, Some (map_err Err r))] y)"
| conc_drop_planned: "ls_jobs y t = Planned op plan planned \<Longrightarrow> writer_step (ls_writer y) (Release t) w \<Longrightarrow>
    concurrent_step L y (finished w (ls_store y) t [] y)"
| conc_drop_staged: "ls_jobs y t = StagedJob op plan staged \<Longrightarrow> writer_step (ls_writer y) (Release t) w \<Longrightarrow>
    concurrent_step L y (finished w (ls_store y) t [(AbandonCall op, None)] y)"

inductive concurrent_reachable ::
    "('m::linorder, 'p, 'r, 's, 'b) index_lifecycle \<Rightarrow> 's \<Rightarrow> ('t, 'm, 'p, 'r, 's, 'b) lifecycle_system \<Rightarrow> bool"
  for L s0 where
  conc_start: "concurrent_reachable L s0 (lifecycle_start s0)"
| conc_step: "concurrent_reachable L s0 y \<Longrightarrow> concurrent_step L y y' \<Longrightarrow> concurrent_reachable L s0 y'"

section \<open>One at a time\<close>

text \<open>What a logged operation returns when the operations before it were applied one at a time.\<close>

fun serial_result ::
    "('m::linorder, 'p, 'r, 's, 'b) index_lifecycle \<Rightarrow> ('m, 'p, 'r) lifecycle_call \<Rightarrow> 's \<Rightarrow> 'r publish_receipt res option" where
  "serial_result L (ApplyCall op) s = Some (fst (apply_operation L False op s))"
| "serial_result L (AbandonCall op) s = None"

fun serial_log ::
    "('m::linorder, 'p, 'r, 's, 'b) index_lifecycle \<Rightarrow> 's \<Rightarrow>
       (('m, 'p, 'r) lifecycle_call \<times> 'r publish_receipt res option) list \<Rightarrow> bool" where
  "serial_log L s [] \<longleftrightarrow> True"
| "serial_log L s ((call, res) # log) \<longleftrightarrow> res = serial_result L call s \<and> serial_log L (lc_call L call s) log"

abbreviation serial_store ::
    "('m::linorder, 'p, 'r, 's, 'b) index_lifecycle \<Rightarrow> 's \<Rightarrow> ('t, 'm, 'p, 'r, 's, 'b) lifecycle_system \<Rightarrow> 's" where
  "serial_store L s0 y \<equiv> lc_calls L (map fst (ls_log y)) s0"

lemma lc_calls_append: "lc_calls L (xs @ ys) s = lc_calls L ys (lc_calls L xs s)"
  by (simp add: lc_calls_def)

lemma serial_log_append:
  "serial_log L s (xs @ ys) \<longleftrightarrow> serial_log L s xs \<and> serial_log L (lc_calls L (map fst xs) s) ys"
proof (induction xs arbitrary: s)
  case (Cons x xs)
  then show ?case by (cases x) (simp add: lc_calls_def)
qed (simp add: lc_calls_def)

text \<open>
  A thread's job against the store its predecessors left: what it read, planned and staged is what an
  operation applied alone reads, plans and stages.
\<close>

definition job_ok ::
    "('m::linorder, 'p, 'r, 's, 'b) index_lifecycle \<Rightarrow> 's \<Rightarrow> 's \<Rightarrow> phase \<Rightarrow> ('m, 'p, 'r, 's, 'b) job \<Rightarrow> bool" where
  "job_ok L base s p job \<longleftrightarrow>
     (case job of
        Resting \<Rightarrow> p \<in> {Idle, Notifying}
      | Seeking op \<Rightarrow> p \<noteq> Holding
      | Reading op seen \<Rightarrow> p = Holding \<and> s = base \<and> set seen \<subseteq> {base}
      | Planned op plan planned \<Rightarrow> p = Holding \<and> s = base \<and> prepare L False op base = Inr (Ready plan planned)
      | StagedJob op plan staged \<Rightarrow> p = Holding \<and>
          (\<exists>planned. prepare L False op base = Inr (Ready plan planned) \<and> stage_prepared L plan planned base = (Inr staged, s)))"

definition concurrent_inv ::
    "('m::linorder, 'p, 'r, 's, 'b) index_lifecycle \<Rightarrow> 's \<Rightarrow> ('t, 'm, 'p, 'r, 's, 'b) lifecycle_system \<Rightarrow> bool" where
  "concurrent_inv L s0 y \<longleftrightarrow> writer_reachable (ls_writer y) \<and> serial_log L s0 (ls_log y) \<and>
     (\<forall>t. job_ok L (serial_store L s0 y) (ls_store y) (sy_phase (ls_writer y) t) (ls_jobs y t)) \<and>
     ((\<forall>t. sy_phase (ls_writer y) t \<noteq> Holding) \<longrightarrow> ls_store y = serial_store L s0 y)"

lemma one_holder: "writer_reachable w \<Longrightarrow> sy_phase w t = Holding \<Longrightarrow> sy_phase w u = Holding \<Longrightarrow> t = u"
  using writer_reachable_inv [of w] unfolding writer_inv_def by (metis option.inject)

lemma free_writer: "writer_reachable w \<Longrightarrow> \<not> must_wait (sy_state w) \<Longrightarrow> sy_phase w t \<noteq> Holding"
  using writer_reachable_inv [of w] by (auto simp: writer_inv_def must_wait_def)

lemma job_ok_free: "job_ok L base s p job \<Longrightarrow> p \<noteq> Holding \<Longrightarrow> job_ok L base' s' p job"
  by (auto simp: job_ok_def split: job.splits)

inductive_cases writer_releaseE: "writer_step s (Release t) s'"
inductive_cases writer_wakeE: "writer_step s (Wake t) s'"
inductive_cases writer_notifyE: "writer_step s (Notify t) s'"
inductive_cases writer_spuriousE: "writer_step s (Spurious t) s'"

lemma concurrent_inv_start: "concurrent_inv L s0 (lifecycle_start s0 :: ('t, 'm::linorder, 'p, 'r, 's, 'b) lifecycle_system)"
proof -
  have "sy_phase writer_start t = Idle" for t :: 't by (simp add: writer_start_def)
  then show ?thesis
    by (simp add: concurrent_inv_def lifecycle_start_def writer_reachable.start job_ok_def lc_calls_def)
qed

lemma finish_inv:
  assumes inv: "concurrent_inv L s0 y" and release: "writer_step (ls_writer y) (Release t) w"
    and entry: "serial_log L (serial_store L s0 y) entry" and s: "s = lc_calls L (map fst entry) (serial_store L s0 y)"
  shows "concurrent_inv L s0 (finished w s t entry y)"
proof -
  have w: "sy_phase (ls_writer y) t = Holding" "sy_phase w = (sy_phase (ls_writer y))(t := Notifying)"
    using release by (auto elim: writer_releaseE)
  have reach: "writer_reachable (ls_writer y)" "writer_reachable w"
    using inv release by (auto simp: concurrent_inv_def intro: writer_reachable.step)
  have free: "sy_phase (ls_writer y) u \<noteq> Holding" if "u \<noteq> t" for u using one_holder [OF reach(1) w(1)] that by auto
  let ?y = "finished w s t entry y"
  have base: "serial_store L s0 ?y = s" by (simp add: finished_def s lc_calls_append)
  have "job_ok L s s (sy_phase w u) (((ls_jobs y)(t := Resting)) u)" for u
  proof (cases "u = t")
    case True
    then show ?thesis by (simp add: w(2) job_ok_def)
  next
    case False
    have "job_ok L (serial_store L s0 y) (ls_store y) (sy_phase (ls_writer y) u) (ls_jobs y u)"
      using inv unfolding concurrent_inv_def by blast
    from job_ok_free [OF this free [OF False]] False show ?thesis by (simp add: w(2))
  qed
  then show ?thesis
    unfolding concurrent_inv_def base using reach(2) inv entry
    by (simp add: finished_def serial_log_append concurrent_inv_def)
qed

text \<open>A step that finishes no operation: nobody's guard is released, and every job is well after it.\<close>

lemma quiet_inv:
  assumes "concurrent_inv L s0 y" "writer_reachable (ls_writer y')" "ls_log y' = ls_log y"
    and "\<And>u. sy_phase (ls_writer y) u = Holding \<Longrightarrow> sy_phase (ls_writer y') u = Holding"
    and "\<And>u. job_ok L (serial_store L s0 y) (ls_store y') (sy_phase (ls_writer y') u) (ls_jobs y' u)"
    and "ls_store y' = ls_store y \<or> (\<exists>u. sy_phase (ls_writer y') u = Holding)"
  shows "concurrent_inv L s0 y'"
  using assms unfolding concurrent_inv_def by metis

lemma concurrent_inv_jobs:
  "concurrent_inv L s0 y \<Longrightarrow> job_ok L (serial_store L s0 y) (ls_store y) (sy_phase (ls_writer y) u) (ls_jobs y u)"
  by (simp add: concurrent_inv_def)

text \<open>A thread that asks for the writer, or looks again, takes a free writer or parks.\<close>

lemma taking:
  assumes "writer_reachable s" "writer_step s e w" "e = Acquire t \<and> sy_phase s t \<noteq> Holding \<or> e = Wake t"
  obtains "sy_phase w = (sy_phase s)(t := Holding)" "\<And>u. sy_phase s u \<noteq> Holding"
  | "sy_phase w = (sy_phase s)(t := Parked)" "sy_phase s t \<noteq> Holding"
proof -
  have free: "sy_phase s u \<noteq> Holding" if "owner (sy_state s) = None" for u
    using free_writer [OF assms(1)] that by (simp add: must_wait_def)
  from assms(2) show ?thesis
  proof cases
    case (take_now u st)
    then have "owner (sy_state s) = None" by (auto simp: acquire_enter_def must_wait_def split: if_splits)
    then show ?thesis using that(1) free take_now assms(3) by auto
  next
    case (take_wait u st)
    then show ?thesis using that(2) assms(3) by auto
  next
    case (wake_take u)
    then show ?thesis using that(1) free assms(3) by (auto simp: must_wait_def)
  next
    case (wake_wait u)
    then show ?thesis using that(2) assms(3) by auto
  qed (use assms(3) in auto)
qed

lemma taking_inv:
  assumes inv: "concurrent_inv L s0 y" and step: "writer_step (ls_writer y) e w"
    and e: "e = Acquire t \<and> sy_phase (ls_writer y) t \<noteq> Holding \<or> e = Wake t"
    and y': "y' = y\<lparr>ls_writer := w, ls_jobs := (ls_jobs y)(t := started w t (Seeking op))\<rparr>" and job: "ls_jobs y t = Seeking op"
  shows "concurrent_inv L s0 y'"
proof -
  note ok = concurrent_inv_jobs [OF inv]
  have reach: "writer_reachable (ls_writer y)" using inv by (simp add: concurrent_inv_def)
  then have reached: "writer_reachable w" using step by (rule writer_reachable.step)
  from taking [OF reach step e] show ?thesis
  proof cases
    case 1
    then have "ls_store y = serial_store L s0 y" using inv by (simp add: concurrent_inv_def)
    then have "job_ok L (serial_store L s0 y) (ls_store y) Holding (Reading op [])" by (simp add: job_ok_def)
    then show ?thesis using 1 ok reached y' by (intro quiet_inv [OF inv]) (auto simp: started_def)
  next
    case 2
    have "job_ok L b s Parked (Seeking op)" for b s by (simp add: job_ok_def)
    then show ?thesis using 2 ok reached y' by (intro quiet_inv [OF inv]) (auto simp: started_def)
  qed
qed

lemma notify_inv:
  assumes inv: "concurrent_inv L s0 y" and step: "writer_step (ls_writer y) e w" and e: "e \<in> {Notify t, Spurious t}"
  shows "concurrent_inv L s0 (y\<lparr>ls_writer := w\<rparr>)"
proof -
  note ok = concurrent_inv_jobs [OF inv]
  have "writer_reachable (ls_writer y)" using inv by (simp add: concurrent_inv_def)
  then have reached: "writer_reachable w" using step by (rule writer_reachable.step)
  have phases: "sy_phase w u = sy_phase (ls_writer y) u \<or>
      sy_phase (ls_writer y) u = Notifying \<and> sy_phase w u = Idle \<or> sy_phase (ls_writer y) u = Parked \<and> sy_phase w u = Woken" for u
    using step e by (auto elim!: writer_notifyE writer_spuriousE split: if_splits)
  have "job_ok L b s (sy_phase w u) (ls_jobs y u)" if "job_ok L b s (sy_phase (ls_writer y) u) (ls_jobs y u)" for b s u
    using phases [of u] that by (auto simp: job_ok_def split: job.splits)
  moreover have "sy_phase w u = Holding" if "sy_phase (ls_writer y) u = Holding" for u using phases [of u] that by auto
  ultimately show ?thesis using ok reached by (intro quiet_inv [OF inv]) auto
qed

text \<open>An operation that returns as it does alone finishes well.\<close>

lemma finish_call:
  assumes "concurrent_inv L s0 y" "writer_step (ls_writer y) (Release t) w"
    and "serial_result L call (serial_store L s0 y) = res" "lc_call L call (serial_store L s0 y) = s"
  shows "concurrent_inv L s0 (finished w s t [(call, res)] y)"
  using assms by (intro finish_inv) (simp_all add: lc_calls_def)

lemma concurrent_inv_step:
  assumes "concurrent_step L y y'" and inv: "concurrent_inv L s0 y"
  shows "concurrent_inv L s0 y'"
proof -
  note ok = concurrent_inv_jobs [OF inv]
  have reach: "writer_reachable (ls_writer y)" using inv by (simp add: concurrent_inv_def)
  have reached: "writer_reachable w" if "writer_step (ls_writer y) e w" for e w
    using that reach by (rule writer_reachable.step [rotated])
  show ?thesis using assms(1)
  proof cases
    case (conc_refused t op e)
    then have alone: "apply_operation L False op s = (fail e, s)" for s by (simp add: apply_operation_def prepare_def)
    then show ?thesis using inv
      by (simp add: conc_refused(1) concurrent_inv_def serial_log_append lc_calls_append) (simp add: lc_calls_def)
  next
    case (conc_begin t op co)
    have "job_ok L b s Idle (Seeking op)" for b s by (simp add: job_ok_def)
    then show ?thesis using conc_begin ok reach by (intro quiet_inv [OF inv]) auto
  next
    case (conc_acquire t op w)
    then show ?thesis using ok [of t] by (intro taking_inv [OF inv]) (auto simp: job_ok_def)
  next
    case (conc_wake t w)
    then have "sy_phase (ls_writer y) t = Woken" by (auto elim: writer_wakeE)
    then obtain op where "ls_jobs y t = Seeking op" using ok [of t] by (auto simp: job_ok_def split: job.splits)
    then show ?thesis using conc_wake by (intro taking_inv [OF inv]) auto
  next
    case (conc_held t e w)
    then have "w = ls_writer y" by (auto elim: writer_refuseE)
    then show ?thesis using conc_held inv by simp
  next
    case (conc_notify t w)
    then show ?thesis using notify_inv [OF inv] by simp
  next
    case (conc_spurious t w)
    then show ?thesis using notify_inv [OF inv] by simp
  next
    case (conc_read t op seen)
    then have "job_ok L (serial_store L s0 y) (ls_store y) (sy_phase (ls_writer y) t) (Reading op (seen @ [ls_store y]))"
      using ok [of t] by (simp add: job_ok_def)
    then show ?thesis using conc_read ok reach by (intro quiet_inv [OF inv]) auto
  next
    case (conc_plan t op s1 s2 s3 s4 s5 plan planned)
    then have "job_ok L (serial_store L s0 y) (ls_store y) (sy_phase (ls_writer y) t) (Planned op plan planned)"
      using ok [of t] by (simp add: job_ok_def prepare_at_same)
    then show ?thesis using conc_plan ok reach by (intro quiet_inv [OF inv]) auto
  next
    case (conc_replayed t op s1 s2 s3 s4 s5 receipt w)
    then have "apply_operation L False op (serial_store L s0 y) = (Inr receipt, ls_store y)"
      using ok [of t] by (simp add: job_ok_def prepare_at_same apply_operation_def)
    then show ?thesis using conc_replayed by (simp add: finish_call [OF inv])
  next
    case (conc_unprepared t op s1 s2 s3 s4 s5 f w)
    then have "apply_operation L False op (serial_store L s0 y) = (Inl f, ls_store y)"
      using ok [of t] by (simp add: job_ok_def prepare_at_same apply_operation_def)
    then show ?thesis using conc_unprepared by (simp add: finish_call [OF inv])
  next
    case (conc_stage t op plan planned staged s)
    then have job: "job_ok L (serial_store L s0 y) s (sy_phase (ls_writer y) t) (StagedJob op plan staged)"
      and holds: "sy_phase (ls_writer y) t = Holding"
      using ok [of t] by (auto simp: job_ok_def)
    have "job_ok L (serial_store L s0 y) s (sy_phase (ls_writer y) u) (ls_jobs y u)" if "u \<noteq> t" for u
      using job_ok_free [OF ok] one_holder [OF reach holds] that by blast
    then show ?thesis using conc_stage(1) job holds reach by (intro quiet_inv [OF inv]) auto
  next
    case (conc_unstaged t op plan planned e s w)
    then have "apply_operation L False op (serial_store L s0 y) = (fail e, s)"
      using ok [of t] by (simp add: job_ok_def apply_operation_def)
    then show ?thesis using conc_unstaged by (simp add: finish_call [OF inv])
  next
    case (conc_publish t op plan staged r s w)
    then have "apply_operation L False op (serial_store L s0 y) = (map_err Err r, s)"
      using ok [of t] by (auto simp: job_ok_def apply_operation_def)
    then show ?thesis using conc_publish by (simp add: finish_call [OF inv])
  next
    case (conc_drop_planned t op plan planned w)
    then have "ls_store y = serial_store L s0 y" using ok [of t] by (simp add: job_ok_def)
    then show ?thesis using conc_drop_planned by (simp add: finish_inv [OF inv] lc_calls_def)
  next
    case (conc_drop_staged t op plan staged w)
    then have "lc_call L (AbandonCall op) (serial_store L s0 y) = ls_store y"
      using ok [of t] by (auto simp: job_ok_def)
    then show ?thesis using conc_drop_staged by (simp add: finish_call [OF inv])
  qed
qed

lemma concurrent_reachable_inv: "concurrent_reachable L s0 y \<Longrightarrow> concurrent_inv L s0 y"
  by (induction rule: concurrent_reachable.induct) (auto intro: concurrent_inv_start concurrent_inv_step)

section \<open>Every operation can run\<close>

text \<open>When nobody is at work, any thread can run an operation through, and the system rests again.\<close>

definition at_rest :: "('t, 'm, 'p, 'r, 's, 'b) lifecycle_system \<Rightarrow> bool" where
  "at_rest y \<longleftrightarrow> (\<forall>t. ls_jobs y t = Resting \<and> sy_phase (ls_writer y) t = Idle) \<and> owner (sy_state (ls_writer y)) = None"

abbreviation concurrent_steps ::
    "('m::linorder, 'p, 'r, 's, 'b) index_lifecycle \<Rightarrow> ('t, 'm, 'p, 'r, 's, 'b) lifecycle_system \<Rightarrow>
       ('t, 'm, 'p, 'r, 's, 'b) lifecycle_system \<Rightarrow> bool" where
  "concurrent_steps L \<equiv> (concurrent_step L)\<^sup>*\<^sup>*"

lemma steps_reachable: "concurrent_steps L y y' \<Longrightarrow> concurrent_reachable L s0 y \<Longrightarrow> concurrent_reachable L s0 y'"
  by (induction rule: rtranclp_induct) (auto intro: concurrent_reachable.conc_step)

text \<open>The steps of thread \<open>t\<close> with the system otherwise at rest.\<close>

definition only :: "'t \<Rightarrow> 't writer_state \<Rightarrow> phase \<Rightarrow> ('m, 'p, 'r, 's, 'b) job \<Rightarrow> 's \<Rightarrow>
    (('m, 'p, 'r) lifecycle_call \<times> 'r publish_receipt res option) list \<Rightarrow> ('t, 'm, 'p, 'r, 's, 'b) lifecycle_system" where
  "only t w p job s log = \<lparr>ls_writer = \<lparr>sy_state = w, sy_phase = (\<lambda>_. Idle)(t := p)\<rparr>, ls_store = s,
     ls_jobs = (\<lambda>_. Resting)(t := job), ls_log = log\<rparr>"

lemma only_sel [simp]: "ls_jobs (only t w p job s log) t = job" "sy_phase (ls_writer (only t w p job s log)) t = p"
  "ls_store (only t w p job s log) = s" "sy_state (ls_writer (only t w p job s log)) = w" "ls_log (only t w p job s log) = log"
  by (simp_all add: only_def)

lemma only_rest: "at_rest y \<Longrightarrow> y = only t (sy_state (ls_writer y)) Idle Resting (ls_store y) (ls_log y)"
  by (simp add: only_def at_rest_def fun_eq_iff)

lemma only_done: "owner w = None \<Longrightarrow> at_rest (only t w Idle Resting s log)"
  by (simp add: only_def at_rest_def)

lemma only_begin:
  "check (lc_consumer L) op = Inr co \<Longrightarrow> concurrent_step L (only t w Idle Resting s log) (only t w Idle (Seeking op) s log)"
  using conc_begin [of "only t w Idle Resting s log" t L op co] by (simp add: only_def)

lemma only_acquire:
  assumes "owner w = None"
  shows "concurrent_step L (only t w Idle (Seeking op) s log) (only t (w\<lparr>owner := Some t\<rparr>) Holding (Reading op []) s log)"
proof -
  let ?y = "only t w Idle (Seeking op) s log"
  have "writer_step (ls_writer ?y) (Acquire t) \<lparr>sy_state = w\<lparr>owner := Some t\<rparr>, sy_phase = (\<lambda>_. Idle)(t := Holding)\<rparr>"
    using take_now [of "ls_writer ?y" t "w\<lparr>waiting := waiting w + 1\<rparr>"] assms
    by (simp add: only_def acquire_enter_def must_wait_def acquire_exit_def)
  from conc_acquire [OF _ this, of op L] show ?thesis by (simp add: only_def started_def)
qed

lemma only_read:
  "length seen < 5 \<Longrightarrow> concurrent_step L (only t w p (Reading op seen) s log) (only t w p (Reading op (seen @ [s])) s log)"
  using conc_read [of "only t w p (Reading op seen) s log" t op seen L] by (simp add: only_def)

lemma only_reads: "concurrent_steps L (only t w p (Reading op []) s log) (only t w p (Reading op [s, s, s, s, s]) s log)"
proof -
  have "concurrent_steps L (only t w p (Reading op []) s log) (only t w p (Reading op (replicate n s)) s log)" if "n \<le> 5" for n
    using that
  proof (induction n)
    case (Suc n)
    then show ?case using only_read [of "replicate n s" L t w p op s log]
      by (auto simp: replicate_append_same intro: rtranclp.rtrancl_into_rtrancl)
  qed simp
  from this [of 5] show ?thesis by (simp add: numeral_eq_Suc)
qed

text \<open>The guard dropped, the notification finds nobody waiting.\<close>

lemma only_finish:
  assumes step: "\<And>w'. writer_step (ls_writer (only t w Holding job s log)) (Release t) w' \<Longrightarrow>
      concurrent_step L (only t w Holding job s log) (finished w' s' t entry (only t w Holding job s log))"
  shows "concurrent_steps L (only t w Holding job s log) (only t (w\<lparr>owner := None\<rparr>) Idle Resting s' (log @ entry))"
proof -
  let ?w = "\<lparr>sy_state = w\<lparr>owner := None\<rparr>, sy_phase = (\<lambda>_. Idle)(t := Notifying)\<rparr>"
  let ?y = "only t (w\<lparr>owner := None\<rparr>) Notifying Resting s' (log @ entry)"
  have "writer_step (ls_writer (only t w Holding job s log)) (Release t) ?w"
    using release [of "ls_writer (only t w Holding job s log)" t] by (simp add: only_def guard_drop_def)
  from step [OF this] have "concurrent_step L (only t w Holding job s log) ?y" by (simp add: finished_def only_def)
  moreover have "writer_step (ls_writer ?y) (Notify t) \<lparr>sy_state = w\<lparr>owner := None\<rparr>, sy_phase = (\<lambda>_. Idle)\<rparr>"
    using notify_none [of "ls_writer ?y" t] by (simp add: only_def fun_upd_idem)
  from conc_notify [OF this, of L] have "concurrent_step L ?y (only t (w\<lparr>owner := None\<rparr>) Idle Resting s' (log @ entry))"
    by (simp add: only_def fun_upd_idem)
  ultimately show ?thesis by (meson converse_rtranclp_into_rtranclp r_into_rtranclp)
qed

lemma rest_runs:
  assumes rest: "at_rest y"
  shows "\<exists>y'. concurrent_steps L y y' \<and> at_rest y' \<and> ls_log y' = ls_log y @ [(ApplyCall op, serial_result L (ApplyCall op) (ls_store y))] \<and>
    ls_store y' = lc_call L (ApplyCall op) (ls_store y)"
proof (cases "check (lc_consumer L) op")
  case (Inl e)
  then have "apply_operation L False op (ls_store y) = (fail e, ls_store y)" by (simp add: apply_operation_def prepare_def)
  moreover have "concurrent_step L y (y\<lparr>ls_log := ls_log y @ [(ApplyCall op, Some (fail e))]\<rparr>)"
    using conc_refused [OF _ Inl, of y undefined] rest by (simp add: at_rest_def)
  ultimately show ?thesis using rest
    by (intro exI [of _ "y\<lparr>ls_log := ls_log y @ [(ApplyCall op, Some (fail e))]\<rparr>"] conjI) (auto simp: at_rest_def)
next
  case (Inr co)
  define w where "w = sy_state (ls_writer y)"
  define s where "s = ls_store y"
  define log where "log = ls_log y"
  have y: "y = only t w Idle Resting s log" for t unfolding w_def s_def log_def by (rule only_rest [OF rest])
  obtain t :: 'a where True by simp
  have free: "owner w = None" using rest by (simp add: w_def at_rest_def)
  let ?w = "w\<lparr>owner := Some t\<rparr>" and ?job = "Reading op [s, s, s, s, s]"
  have w: "?w\<lparr>owner := None\<rparr> = w" using free by simp
  have start: "concurrent_steps L y (only t ?w Holding ?job s log)"
    unfolding y [of t]
    by (rule converse_rtranclp_into_rtranclp [OF only_begin [OF Inr] converse_rtranclp_into_rtranclp [OF only_acquire [OF free] only_reads]])
  have goal: ?thesis if run: "concurrent_steps L (only t ?w Holding job s' log) (only t (?w\<lparr>owner := None\<rparr>) Idle Resting s'' (log @ [(ApplyCall op, Some res)]))"
    and before: "concurrent_steps L (only t ?w Holding ?job s log) (only t ?w Holding job s' log)"
    and alone: "apply_operation L False op s = (res, s'')" for job s' s'' res
    using rtranclp_trans [OF rtranclp_trans [OF start before] run] alone only_done [OF free, of t s'' "log @ [(ApplyCall op, Some res)]"]
    unfolding w
    by (intro exI [of _ "only t w Idle Resting s'' (log @ [(ApplyCall op, Some res)])"] conjI) (simp_all add: s_def log_def)
  show ?thesis
  proof (cases "prepare L False op s")
    case (Inl f)
    show ?thesis by (rule goal [OF only_finish [OF conc_unprepared] rtranclp.rtrancl_refl])
      (use Inl in \<open>auto simp: prepare_at_same apply_operation_def\<close>)
  next
    case (Inr prep)
    show ?thesis
    proof (cases prep)
      case (Replayed receipt)
      show ?thesis by (rule goal [OF only_finish [OF conc_replayed] rtranclp.rtrancl_refl])
        (use Inr Replayed in \<open>auto simp: prepare_at_same apply_operation_def\<close>)
    next
      case (Ready plan planned)
      have plan: "concurrent_step L (only t ?w Holding ?job s log) (only t ?w Holding (Planned op plan planned) s log)"
        using conc_plan [of "only t ?w Holding ?job s log" t op s s s s s L plan planned] Inr Ready
        by (simp add: prepare_at_same only_def)
      then have planning: "concurrent_steps L (only t ?w Holding ?job s log) (only t ?w Holding (Planned op plan planned) s log)"
        by (rule r_into_rtranclp [where r = "concurrent_step L"])
      obtain r s' where stage: "stage_prepared L plan planned s = (r, s')" by fastforce
      show ?thesis
      proof (cases r)
        case (Inl e)
        show ?thesis by (rule goal [OF only_finish [OF conc_unstaged] planning])
          (use Inr Ready Inl stage in \<open>auto simp: apply_operation_def\<close>)
      next
        case staged: (Inr st)
        obtain r2 s'' where publish: "publish_staged L plan st s' = (r2, s'')" by fastforce
        have "concurrent_step L (only t ?w Holding (Planned op plan planned) s log) (only t ?w Holding (StagedJob op plan st) s' log)"
          using conc_stage [of "only t ?w Holding (Planned op plan planned) s log" t op plan planned L st s'] stage staged
          by (simp add: only_def)
        with planning have before: "concurrent_steps L (only t ?w Holding ?job s log) (only t ?w Holding (StagedJob op plan st) s' log)"
          by (rule rtranclp.rtrancl_into_rtrancl [where r = "concurrent_step L"])
        show ?thesis by (rule goal [OF only_finish [OF conc_publish] before])
          (use Inr Ready staged stage publish in \<open>auto simp: apply_operation_def\<close>)
      qed
    qed
  qed
qed

lemma at_rest_start: "at_rest (lifecycle_start s0)"
  by (simp add: at_rest_def lifecycle_start_def writer_start_def writer_new_def)

lemma rest_free: "at_rest y \<Longrightarrow> sy_phase (ls_writer y) t \<noteq> Holding"
  by (simp add: at_rest_def)

lemma sample_concurrent:
  obtains y :: "(nat, 64 word, 64 word, 64 word, sample_stored lifecycle_state, sample_stored) lifecycle_system" and receipt where
    "concurrent_reachable sample_lifecycle lifecycle_state_new y" "at_rest y" "ls_log y = [(ApplyCall sample_create, Some (Inr receipt))]"
    "ls_store y = atmis_history sample_lifecycle [ApplyCall sample_create]"
proof -
  let ?y = "lifecycle_start lifecycle_state_new ::
    (nat, 64 word, 64 word, 64 word, sample_stored lifecycle_state, sample_stored) lifecycle_system"
  obtain receipt s' where
    run: "apply_operation sample_lifecycle False sample_create (atmis_history sample_lifecycle []) = (Inr receipt, s')"
    by (rule sample_create_published)
  have new: "ls_store ?y = lifecycle_state_new" "ls_log ?y = []" by (simp_all add: lifecycle_start_def)
  have rest: "at_rest ?y" by (rule at_rest_start)
  from rest_runs [OF rest, of sample_lifecycle sample_create]
  obtain y :: "(nat, 64 word, 64 word, 64 word, sample_stored lifecycle_state, sample_stored) lifecycle_system" where
    y: "concurrent_steps sample_lifecycle ?y y" "at_rest y"
      "ls_log y = [(ApplyCall sample_create, serial_result sample_lifecycle (ApplyCall sample_create) lifecycle_state_new)]"
      "ls_store y = lc_call sample_lifecycle (ApplyCall sample_create) lifecycle_state_new"
    unfolding new append_Nil by blast
  then show ?thesis
    using that [OF steps_reachable [OF y(1) concurrent_reachable.conc_start] y(2), of receipt] run by (simp add: lc_calls_def)
qed

section \<open>Properties\<close>

text \<open>
  C2: Lifecycles that share a backend and its writer are serializable. Whatever way the calls of
  their threads interleave on the backend, the operations in the order they finished returned
  what they return applied one after the other, operations dropped after staging included, and
  whenever nobody holds the writer the store is the one those operations leave. When nobody is at
  work, any operation can be run through, and returns what it returns alone.
\<close>
theorem concurrent_lifecycles_serialize:
  assumes "concurrent_reachable L s0 y"
  shows "serial_log L s0 (ls_log y) \<and>
    ((\<forall>t. sy_phase (ls_writer y) t \<noteq> Holding) \<longrightarrow> ls_store y = lc_calls L (map fst (ls_log y)) s0) \<and>
    (at_rest y \<longrightarrow> (\<exists>y'. concurrent_steps L y y' \<and> at_rest y' \<and>
       ls_log y' = ls_log y @ [(ApplyCall op, Some (fst (apply_operation L False op (ls_store y))))]))"
  using concurrent_reachable_inv [OF assms] rest_runs [of y L op] unfolding concurrent_inv_def by auto

theorem concurrent_lifecycles_serialize_witness:
  "\<exists>receipt. serial_log sample_lifecycle lifecycle_state_new [(ApplyCall sample_create, Some (Inr receipt))]"
proof -
  obtain y :: "(nat, 64 word, 64 word, 64 word, sample_stored lifecycle_state, sample_stored) lifecycle_system" and receipt
    where y: "concurrent_reachable sample_lifecycle lifecycle_state_new y" "ls_log y = [(ApplyCall sample_create, Some (Inr receipt))]"
    by (rule sample_concurrent)
  from concurrent_lifecycles_serialize [OF y(1)] y(2) show ?thesis by auto
qed

end
