(* ===== verification/Readers.thy ===== *)
theory Readers
  imports Concurrent
begin

text \<open>
  Reading an index while other threads apply operations
  (\<open>crates/heurema/src/lifecycle/driver.rs\<close>): \<open>IndexLifecycle::index\<close> holds no writer, so the
  head, the payload and perhaps the head again are each read of another state.
\<close>

section \<open>A read, each part of its own state\<close>

definition index_at ::
    "('m::linorder, 'p, 'r, 's, 'b) index_lifecycle \<Rightarrow> 's \<times> 's \<times> 's \<Rightarrow> index_identity \<Rightarrow> ('m, 'p) published_index res" where
  "index_at L seen index = (case seen of (s1, s2, s3) \<Rightarrow>
     and_then (map_err Err (b_read_head (lc_backend L) s1 index)) (\<lambda>stored.
     case stored of
       None \<Rightarrow> fail (not_found index)
     | Some b \<Rightarrow>
         and_then (map_err Err (decode_head (lc_codec L) b index)) (\<lambda>head.
         case ir_state head of
           Destroyed _ _ _ \<Rightarrow> fail (not_found index)
         | Active version \<Rightarrow>
             and_then (active_payload_at L s2 s3 index version head) (\<lambda>payload.
             case payload of
               None \<Rightarrow> fail (not_found index)
             | Some p \<Rightarrow> Inr (from_payload p)))))"

lemma index_at_same: "index_at L (s, s, s) = lifecycle_index L s"
  unfolding index_at_def [abs_def] lifecycle_index_def [abs_def] prod.case active_payload_at_same by (rule refl)

section \<open>What later stores keep\<close>

definition later :: "('m::linorder, 'p, 'r, 's, 'b) index_lifecycle \<Rightarrow> 'b store \<Rightarrow> 'b store \<Rightarrow> bool" where
  "later L st st' \<longleftrightarrow> payloads_kept L st st' \<and> (\<forall>i. destroyed_in L st i \<longrightarrow> destroyed_in L st' i)"

lemma later_refl [simp]: "later L st st"
  by (simp add: later_def)

lemma later_trans: "later L a b \<Longrightarrow> later L b c \<Longrightarrow> later L a c"
  unfolding later_def payloads_kept_def by metis

lemma later_active:
  assumes "stored_ok L st" "active_of L st i = Some p" "later L st st'"
  shows "payload_of L st' i (vp_version p) = Some p \<or> st_versions st' i (vp_version p) = None \<and> destroyed_in L st' i"
  using assms(1)
proof (cases rule: head_cases [of L st i])
  case (active b r q)
  then have "payload_of L st i (vp_version p) = Some p" using assms(2) by simp
  then obtain x where x: "st_versions st i (vp_version p) = Some x"
    "decode_payload (debug (lc_consumer L)) (lc_codec L) x i (vp_version p) = Inr p" by (auto simp: payload_of_Some)
  then have "st_versions st' i (vp_version p) = Some x \<or> st_versions st' i (vp_version p) = None \<and> destroyed_in L st' i"
    using assms(3) unfolding later_def payloads_kept_def by blast
  then show ?thesis using x(2) by (auto simp: payload_of_Some)
qed (use assms(2) in simp_all)

text \<open>A destroyed index stays destroyed.\<close>

lemma destroyed_step:
  assumes "lc_step L op st r st'" "destroyed_in L st i"
  shows "destroyed_in L st' i"
proof -
  obtain h where h: "ca_head (catalogue_of L st) i = Some h" "\<exists>v x k. ir_state h = Destroyed v x k"
    using assms(2) by (auto simp: destroyed_in_def)
  from assms(1) have "ca_head (catalogue_of L st') i = Some h"
  proof cases
    case (step_applied co vo su)
    then have "i \<noteq> lo_index op" using h not_permitted_destroyed by fastforce
    then show ?thesis using step_applied(2) h(1) by (simp add: ca_publish_def)
  qed (use h(1) in simp_all)
  then show ?thesis using h(2) by (simp add: destroyed_in_def)
qed

lemma destroyed_staged: "left_staged L j st st' \<Longrightarrow> destroyed_in L st' i \<longleftrightarrow> destroyed_in L st i"
  unfolding left_staged_def destroyed_in_def catalogue_of_sel(1) [symmetric]
  by (auto simp: ca_stage_def simp del: catalogue_of_sel)

context lifecycle_store
begin

lemma call_later:
  assumes "lifecycle_ok B L" "inv s" "stored_ok L (abs s)"
  shows "later L (abs s) (abs (lc_call L call s))"
proof (cases call)
  case (ApplyCall op)
  obtain res s' where run: "apply_operation L False op s = (res, s')" by fastforce
  from apply_steps [OF assms run] show ?thesis
    using ApplyCall run by (auto simp: later_def destroyed_staged dest: destroyed_step)
next
  case (AbandonCall op)
  show ?thesis
  proof (cases "\<exists>plan planned. prepare L False op s = Inr (Ready plan planned)")
    case True
    then obtain plan planned where prep: "prepare L False op s = Inr (Ready plan planned)" by blast
    obtain res s' where run: "stage_prepared L plan planned s = (res, s')" by fastforce
    from stage_leaves [OF assms prep run] show ?thesis using AbandonCall prep run by (auto simp: later_def destroyed_staged)
  next
    case False
    then have "lc_call L call s = s" using AbandonCall by (auto split: sum.split preparation.split)
    then show ?thesis by simp
  qed
qed

lemma calls_later:
  assumes "lifecycle_ok B L" "inv s" "stored_ok L (abs s)"
  shows "later L (abs s) (abs (lc_calls L calls s))"
  using assms
proof (induction calls arbitrary: s)
  case (Cons call calls)
  then show ?case
    using call_ok [OF Cons.prems, of call] call_later [OF Cons.prems, of call] later_trans
    by (fastforce simp: lc_calls_def)
qed (simp add: lc_calls_def)

text \<open>A read of the active version, its parts read of ever later states.\<close>

lemma index_at_reads:
  assumes L: "lifecycle_ok B L" and inv: "inv s1" "inv s2" "inv s3"
    and ok: "stored_ok L (abs s1)" "stored_ok L (abs s2)" "stored_ok L (abs s3)"
    and kept: "\<And>p. active_of L (abs s1) i = Some p \<Longrightarrow> payload_of L (abs s2) i (vp_version p) = Some p \<or>
      st_versions (abs s2) i (vp_version p) = None \<and> destroyed_in L (abs s2) i"
    and dead: "destroyed_in L (abs s2) i \<Longrightarrow> destroyed_in L (abs s3) i"
  shows "storage_fails B inv \<or>
    (case active_of L (abs s1) i of
       None \<Rightarrow> index_at L (s1, s2, s3) i = fail (not_found i)
     | Some p \<Rightarrow> index_at L (s1, s2, s3) i = Inr (from_payload p) \<or>
         index_at L (s1, s2, s3) i = fail (not_found i) \<and> destroyed_in L (abs s3) i)"
proof (cases "storage_fails B inv")
  case False
  have B: "lc_backend L = B" using L by (simp add: lifecycle_ok_def)
  have head: "b_read_head B s i = Inr (st_heads (abs s) i)" if "inv s" for s
    using read_head [OF that, of i] False storage_failsI(1) [where B = B and I = inv, OF that] by (cases rule: readsE) auto
  from ok(1) show ?thesis
  proof (cases rule: head_cases [of L "abs s1" i])
    case (active b r p)
    have version: "b_read_version B s2 i (vp_version p) = Inr (st_versions (abs s2) i (vp_version p))"
      using read_version [OF inv(2), of i "vp_version p"] False storage_failsI(2) [where B = B and I = inv, OF inv(2)]
      by (cases rule: readsE) auto
    from kept [OF active(6)] show ?thesis
    proof
      assume "payload_of L (abs s2) i (vp_version p) = Some p"
      then show ?thesis
        using active head [OF inv(1)] version B
        by (auto simp: index_at_def active_payload_at_def payload_of_Some current_ok_def)
    next
      assume gone: "st_versions (abs s2) i (vp_version p) = None \<and> destroyed_in L (abs s2) i"
      then have "destroyed_in L (abs s3) i" using dead by blast
      moreover from this obtain b' r' v x k where "st_heads (abs s3) i = Some b'" "decode_head (lc_codec L) b' i = Inr r'" "ir_state r' = Destroyed v x k"
        by (auto simp: destroyed_in_def head_of_Some)
      ultimately show ?thesis
        using active head [OF inv(1)] head [OF inv(3)] version B gone
        by (simp add: index_at_def active_payload_at_def lifecycle_record_def)
    qed
  qed (use head [OF inv(1)] B in \<open>simp_all add: index_at_def\<close>)
qed simp

text \<open>
  What is visible between an operation's calls: the heads and active payloads are those its
  predecessors left.
\<close>

lemma visible:
  assumes L: "lifecycle_ok B L" and start: "inv s0" "stored_ok L (abs s0)" and y: "concurrent_inv L s0 y"
  defines "base \<equiv> serial_store L s0 y"
  shows "inv base \<and> stored_ok L (abs base) \<and> inv (ls_store y) \<and> stored_ok L (abs (ls_store y)) \<and>
    later L (abs base) (abs (ls_store y)) \<and> (\<forall>i. destroyed_in L (abs (ls_store y)) i \<longleftrightarrow> destroyed_in L (abs base) i) \<and>
    (\<forall>i. active_of L (abs (ls_store y)) i = active_of L (abs base) i)"
proof -
  have base: "inv base \<and> stored_ok L (abs base)" using calls_ok [OF L start] by (simp add: base_def)
  have ok: "job_ok L base (ls_store y) (sy_phase (ls_writer y) t) (ls_jobs y t)" for t
    unfolding base_def by (rule concurrent_inv_jobs [OF y])
  show ?thesis
  proof (cases "ls_store y = base")
    case True
    then show ?thesis using base by simp
  next
    case False
    then obtain t where "sy_phase (ls_writer y) t = Holding" using y unfolding concurrent_inv_def base_def by blast
    with ok [of t] False obtain op plan planned staged where "prepare L False op base = Inr (Ready plan planned)"
      "stage_prepared L plan planned base = (Inr staged, ls_store y)"
      by (auto simp: job_ok_def split: job.splits)
    from stage_leaves [OF L conjunct1 [OF base] conjunct2 [OF base] this]
    have left: "inv (ls_store y)" "stored_ok L (abs (ls_store y))" "payloads_kept L (abs base) (abs (ls_store y))"
      "abs (ls_store y) = abs base \<or> left_staged L (lo_index op) (abs base) (abs (ls_store y))" by auto
    have "active_of L (abs (ls_store y)) i = active_of L (abs base) i" for i
      using left(4) unfolding left_staged_def catalogue_of_sel(2) [symmetric] by (auto simp: ca_stage_def simp del: catalogue_of_sel)
    then show ?thesis using base left(1-3) left(4) by (auto simp: later_def destroyed_staged)
  qed
qed

lemma visible_later:
  assumes L: "lifecycle_ok B L" and start: "inv s0" "stored_ok L (abs s0)" and y: "concurrent_inv L s0 y" "concurrent_inv L s0 y'"
    and log: "ls_log y' = ls_log y @ rest"
  shows "later L (abs (serial_store L s0 y)) (abs (ls_store y'))"
proof -
  note v = visible [OF L start y(1)] and v' = visible [OF L start y(2)]
  have "later L (abs (serial_store L s0 y)) (abs (serial_store L s0 y'))"
    using calls_later [OF L, of "serial_store L s0 y" "map fst rest"] v by (simp add: log lc_calls_append)
  then show ?thesis using v' later_trans by blast
qed

text \<open>A read among concurrent operations: its head, payload and second head are read of three states of a run.\<close>

lemma concurrent_index_at:
  assumes L: "lifecycle_ok B L" and start: "inv s0" "stored_ok L (abs s0)"
    and y: "concurrent_inv L s0 y1" "concurrent_inv L s0 y2" "concurrent_inv L s0 y3"
    and log: "ls_log y2 = ls_log y1 @ l2" "ls_log y3 = ls_log y2 @ l3"
  defines "seen \<equiv> (ls_store y1, ls_store y2, ls_store y3)"
  shows "storage_fails B inv \<or>
    (case active_of L (abs (ls_store y1)) i of
       None \<Rightarrow> index_at L seen i = fail (not_found i)
     | Some p \<Rightarrow> index_at L seen i = Inr (from_payload p) \<or>
         index_at L seen i = fail (not_found i) \<and> destroyed_in L (abs (ls_store y3)) i)"
proof -
  note v = visible [OF L start y(1)] visible [OF L start y(2)] visible [OF L start y(3)]
  note later = visible_later [OF L start y(1,2) log(1)] visible_later [OF L start y(2,3) log(2)]
  show ?thesis unfolding seen_def
  proof (rule index_at_reads [OF L])
    fix p
    assume "active_of L (abs (ls_store y1)) i = Some p"
    then show "payload_of L (abs (ls_store y2)) i (vp_version p) = Some p \<or>
        st_versions (abs (ls_store y2)) i (vp_version p) = None \<and> destroyed_in L (abs (ls_store y2)) i"
      using later_active [OF _ _ later(1)] v(1) by auto
  next
    assume "destroyed_in L (abs (ls_store y2)) i"
    then show "destroyed_in L (abs (ls_store y3)) i" using v(2) later(2) unfolding later_def by blast
  qed (use v in blast)+
qed

end

lemma step_log: "concurrent_step L y y' \<Longrightarrow> \<exists>rest. ls_log y' = ls_log y @ rest"
  by (cases rule: concurrent_step.cases) (auto simp: finished_def)

lemma steps_log: "concurrent_steps L y y' \<Longrightarrow> \<exists>rest. ls_log y' = ls_log y @ rest"
proof (induction rule: rtranclp_induct)
  case (step y' y'')
  then show ?case using step_log [OF step.hyps(2)] by fastforce
qed simp

section \<open>Properties\<close>

text \<open>
  C9: A read of an index needs no writer. While other threads apply operations, with its head read
  now, the payload later and the head again later still, it returns the version that was
  published at its start, or that the index is not found because it was destroyed since; it never
  returns a staged or half-written version and never reports damage.
\<close>
theorem concurrent_reads_consistent:
  assumes L: "lifecycle_ok atmis_backend L" and y1: "concurrent_reachable L lifecycle_state_new y1"
    and y2: "concurrent_steps L y1 y2" and y3: "concurrent_steps L y2 y3"
  shows "case active_of L (atmis_abs (ls_store y1)) i of
      None \<Rightarrow> index_at L (ls_store y1, ls_store y2, ls_store y3) i = fail (not_found i)
    | Some p \<Rightarrow> index_at L (ls_store y1, ls_store y2, ls_store y3) i = Inr (from_payload p) \<or>
        index_at L (ls_store y1, ls_store y2, ls_store y3) i = fail (not_found i) \<and>
        destroyed_in L (atmis_abs (ls_store y3)) i"
proof -
  note reach2 = steps_reachable [OF y2 y1]
  note reach3 = steps_reachable [OF y3 reach2]
  obtain l2 l3 where log: "ls_log y2 = ls_log y1 @ l2" "ls_log y3 = ls_log y2 @ l3"
    using steps_log [OF y2] steps_log [OF y3] by blast
  have start: "atmis_wf lifecycle_state_new \<and> \<not> poisoned lifecycle_state_new" "stored_ok L (atmis_abs lifecycle_state_new)"
    using atmis_history_ok [OF L, of "[]"] by (simp_all add: lc_calls_def)
  show ?thesis
    using atmis_live.concurrent_index_at [OF L start concurrent_reachable_inv [OF y1] concurrent_reachable_inv [OF reach2]
      concurrent_reachable_inv [OF reach3] log, of i] atmis_live.storage_works by blast
qed

theorem concurrent_reads_consistent_witness:
  "\<exists>s p. index_at sample_lifecycle (s, s, s) sample_index = Inr (from_payload p)"
proof -
  obtain x where x: "lifecycle_index sample_lifecycle (atmis_history sample_lifecycle [ApplyCall sample_create]) sample_index = Inr x"
    by (rule sample_create_indexed)
  obtain y :: "(nat, 64 word, 64 word, 64 word, sample_stored lifecycle_state, sample_stored) lifecycle_system" and receipt
    where y: "concurrent_reachable sample_lifecycle lifecycle_state_new y"
      "ls_store y = atmis_history sample_lifecycle [ApplyCall sample_create]" by (rule sample_concurrent)
  have "index_at sample_lifecycle (ls_store y, ls_store y, ls_store y) sample_index = Inr x"
    using x y(2) by (simp add: index_at_same)
  then show ?thesis
    using concurrent_reads_consistent [OF sample_lifecycle_ok y(1) rtranclp.rtrancl_refl rtranclp.rtrancl_refl, of sample_index]
    by (fastforce split: option.splits)
qed

end
