(* ===== verification/Messages.thy ===== *)
theory Messages
  imports Storage_Key Digest Bm25
begin

text \<open>
  The texts of the errors: the \<open>Display\<close> of \<open>HeuremaError\<close> (\<open>crates/heurema/src/error.rs\<close>) and
  of the sources it wraps (\<open>lifecycle/identity.rs\<close>, \<open>lifecycle/encoding.rs\<close>,
  \<open>lifecycle/backend.rs\<close>, \<open>lifecycle/driver.rs\<close>, \<open>lifecycle/published.rs\<close>, and the adapters of
  \<open>crates/atmis/src/lib.rs\<close> and \<open>crates/thesauros/src/lib.rs\<close>). What the standard library prints for
  characters outside ASCII, for floats and for bytes that are not UTF-8 is a parameter.
\<close>

section \<open>What the standard library prints\<close>

record std_display =
  sd_escape :: "string \<Rightarrow> string"
  sd_f32 :: "32 word \<Rightarrow> string"
  sd_f64 :: "64 word \<Rightarrow> string"
  sd_lossy :: "string \<Rightarrow> string"
  sd_utf8_error :: "string \<Rightarrow> string"

text \<open>\<open>char::escape_debug\<close>: an ASCII byte is written here, another character by the parameter.\<close>

definition hex_text :: "nat \<Rightarrow> string" where
  "hex_text n = (if n < 16 then [hex_digit n] else [hex_digit (n div 16), hex_digit (n mod 16)])"

definition escape_debug :: "std_display \<Rightarrow> char \<Rightarrow> string \<Rightarrow> string" where
  "escape_debug D quote c =
     (case c of
        [b] \<Rightarrow>
          let n = (of_char b :: nat) in
          if n = 0 then [CHR 0x5C, CHR ''0'']
          else if n = 9 then [CHR 0x5C, CHR ''t'']
          else if n = 10 then [CHR 0x5C, CHR ''n'']
          else if n = 13 then [CHR 0x5C, CHR ''r'']
          else if b = quote \<or> b = CHR 0x5C then [CHR 0x5C, b]
          else if 32 \<le> n \<and> n < 127 then [b]
          else if n < 128 then [CHR 0x5C] @ ''u{'' @ hex_text n @ ''}''
          else sd_escape D c
      | _ \<Rightarrow> sd_escape D c)"

definition str_debug :: "std_display \<Rightarrow> string \<Rightarrow> string" where
  "str_debug D s = [CHR 0x22] @ concat (map (escape_debug D (CHR 0x22)) (utf8_chars s)) @ [CHR 0x22]"

definition char_debug :: "std_display \<Rightarrow> string \<Rightarrow> string" where
  "char_debug D c = [CHR 0x27] @ escape_debug D (CHR 0x27) c @ [CHR 0x27]"

section \<open>Identifiers\<close>

fun kind_text :: "identifier_kind \<Rightarrow> string" where
  "kind_text IkOwnerNamespace = ''owner namespace''"
| "kind_text IkIndexName = ''index name''"
| "kind_text IkOperationKey = ''operation key''"
| "kind_text IkOperationDigest = ''operation digest''"
| "kind_text IkIndexVersion = ''index version''"
| "kind_text IkMemberIdentity = ''member identity''"

definition version_text :: "index_version \<Rightarrow> string" where
  "version_text v = show_nat (version_get v)"

fun reason_text :: "std_display \<Rightarrow> id_reason \<Rightarrow> string" where
  "reason_text D (IsEmpty pat) = ''is empty; expected '' @ pat"
| "reason_text D (TooLong n limit) = ''is '' @ show_nat n @ '' bytes; the limit is '' @ show_nat limit"
| "reason_text D (BadCharacter c offset pat) =
     ''has '' @ char_debug D c @ '' at byte '' @ show_nat offset @ ''; expected '' @ pat"
| "reason_text D (NotHexLength n len) =
     ''is '' @ show_nat n @ '' bytes; expected exactly '' @ show_nat len @ '' lowercase hex digits''"
| "reason_text D (NotLowercaseHex c offset) =
     ''has '' @ char_debug D c @ '' at byte '' @ show_nat offset @ ''; expected lowercase hex [0-9a-f]''"
| "reason_text D VersionsStartAtOne = ''versions start at 1''"
| "reason_text D CounterExhausted = ''version counter exhausted''"
| "reason_text D (MemberReason reason) = reason"

text \<open>The derived \<open>Debug\<close> of an enumeration is the variant's name.\<close>

fun family_debug :: "snapshot_family \<Rightarrow> string" where
  "family_debug FamVector = ''Vector''"
| "family_debug FamFts = ''Fts''"

fun state_kind_debug :: "index_state_kind \<Rightarrow> string" where
  "state_kind_debug KAbsent = ''Absent''"
| "state_kind_debug KActive = ''Active''"
| "state_kind_debug KDestroyed = ''Destroyed''"

section \<open>Sources\<close>

fun corrupt_text :: "corrupt_reason \<Rightarrow> string" where
  "corrupt_text EngineOtherConfiguration = ''version payload engine was built under another configuration''"
| "corrupt_text EngineMembersDiffer = ''version payload engine members differ from its member table''"
| "corrupt_text PredecessorNotBefore = ''version payload predecessor is not the version before it''"
| "corrupt_text EntryNamesLaterVersion = ''version payload member entry names a version after the one it belongs to''"
| "corrupt_text (HeadNamesIndex i named) =
     ''head stored for index '' @ identity_display i @ '' names index '' @ identity_display named"
| "corrupt_text (PayloadIs v i v' i') =
     ''payload stored for version '' @ version_text v @ '' of index '' @ identity_display i @ '' is version '' @
     version_text v' @ '' of index '' @ identity_display i'"
| "corrupt_text (RecordIs k i k' i') =
     ''operation record stored for key '' @ key_str k @ '' of index '' @ identity_display i @ '' is key '' @
     key_str k' @ '' of index '' @ identity_display i'"
| "corrupt_text (PayloadMissing i v) =
     ''head of index '' @ identity_display i @ '' names version '' @ version_text v @ '', whose payload is missing''"
| "corrupt_text (ConfigurationsDiffer i v) =
     ''head of index '' @ identity_display i @ '' and the payload of version '' @ version_text v @
     '' name different configurations''"
| "corrupt_text (RankedUnknownMember v i) =
     ''version '' @ version_text v @ '' of index '' @ identity_display i @ '' ranked a member its table does not name''"

definition state_poisoned_text :: string where
  "state_poisoned_text = ''atmis lifecycle state is poisoned: a writer panicked while holding the lock, '' @
     ''so the maps may hold part of one write; build a new backend''"

definition commit_lock_poisoned_text :: string where
  "commit_lock_poisoned_text = ''thesauros lifecycle commit lock is poisoned: a writer panicked between its checks '' @
     ''and its commit; reopen the backend''"

fun sequence_exhausted_text :: "adapter \<Rightarrow> string" where
  "sequence_exhausted_text AtmisAdapter = ''atmis quarantine sequence is exhausted''"
| "sequence_exhausted_text ThesaurosAdapter = ''thesauros quarantine sequence is exhausted''"

definition oversized_text :: "string \<Rightarrow> nat \<Rightarrow> nat \<Rightarrow> string" where
  "oversized_text what len limit =
     ''thesauros cannot store '' @ what @ '' of '' @ show_nat len @ '' bytes: fjall stores values of at most '' @
     show_nat limit @ '' bytes; nothing was written''"

definition unpaired_text :: "nat \<Rightarrow> string \<Rightarrow> string" where
  "unpaired_text sequence reason = ''quarantine entry '' @ show_nat sequence @ '' '' @ reason"

definition undecodable_text :: "string \<Rightarrow> string \<Rightarrow> string" where
  "undecodable_text what source = what @ '' does not decode: '' @ source"

definition REPORTED_KEY_CHARS :: nat where
  "REPORTED_KEY_CHARS = 256"

definition reported_key :: "std_display \<Rightarrow> string \<Rightarrow> string" where
  "reported_key D key = utf8_take REPORTED_KEY_CHARS (sd_lossy D key)"

definition malformed_key_text :: "std_display \<Rightarrow> string \<Rightarrow> string \<Rightarrow> string" where
  "malformed_key_text D key reason =
     ''lifecycle storage key '' @ str_debug D (reported_key D key) @ '' does not follow the key grammar: '' @ reason"

section \<open>Refusals\<close>

text \<open>The refusals of identifiers and operations, and those of the lifecycle's storage.\<close>

fun operation_refusal_text :: "std_display \<Rightarrow> heurema_error \<Rightarrow> string" where
  "operation_refusal_text D (InvalidIdentifier kind value reason) =
     ''invalid '' @ kind_text kind @ '' '' @ str_debug D value @ '': '' @ reason_text D reason"
| "operation_refusal_text D (FamilyMismatch expected actual) =
     ''index family mismatch: expected '' @ family_debug expected @ '', got '' @ family_debug actual"
| "operation_refusal_text D (DuplicateMember member) = ''member '' @ member @ '' appears more than once in one operation''"
| "operation_refusal_text D (EmptyBatch tr) = transition_name tr @ '' operation names no members''"
| "operation_refusal_text D (TransitionNotPermitted i tr state) =
     transition_name tr @ '' is not permitted on index '' @ identity_display i @ '' in state '' @
     state_kind_debug state"
| "operation_refusal_text D (RecordMismatch expected actual) =
     ''operation on index '' @ identity_display expected @ '' was checked against the record of index '' @
     identity_display actual"
| "operation_refusal_text D (UnencodableOperation reason) = ''operation cannot be encoded: '' @ reason"

fun storage_refusal_text :: "heurema_error \<Rightarrow> string" where
  "storage_refusal_text (StagedStateExists i v) =
     ''index '' @ identity_display i @ '' holds interrupted staged state for version '' @ version_text v @
     ''; nothing was written''"
| "storage_refusal_text (HeadChanged i) =
     ''index '' @ identity_display i @ '' changed since its head was read; nothing was written''"
| "storage_refusal_text (OperationConflict c) =
     ''operation key '' @ key_str (oc_key c) @ '' on index '' @ identity_display (oc_index c) @
     '' is recorded with digest '' @ digest_display (oc_recorded c) @ '', not the requested '' @
     digest_display (oc_requested c)"
| "storage_refusal_text (StagedStateMissing i v) =
     ''index '' @ identity_display i @ '' holds no staged state for version '' @ version_text v @
     '' matching this write; nothing was written''"
| "storage_refusal_text (OperationRecorded i k) =
     ''index '' @ identity_display i @ '' already records operation '' @ key_str k @ ''; nothing was written''"
| "storage_refusal_text WriterHeld =
     ''this thread already holds the backend'' @ [CHR 0x27] @ ''s lifecycle writer (a WriterGuard, or a Prepared or '' @
     ''Staged operation, not yet dropped); nothing was written''"
| "storage_refusal_text (VersionStored i v) =
     ''index '' @ identity_display i @ '' already stores a payload for version '' @ version_text v @
     '' that no staging marker names; nothing was written''"

section \<open>Errors\<close>

text \<open>
  The text of a source, given how the error it may wrap is shown, and the text of an error, which
  shows the error inside its source the same way.
\<close>

fun key_text :: "std_display \<Rightarrow> ('e \<Rightarrow> string) \<Rightarrow> string \<Rightarrow> 'e key_reason \<Rightarrow> string" where
  "key_text D show key (KeyShape reason) = reason"
| "key_text D show key KeyNotUtf8 = ''is not UTF-8: '' @ sd_utf8_error D key"
| "key_text D show key (KeyNotDecimal digits) = str_debug D digits @ '' is not '' @ show_nat DECIMAL_WIDTH @ '' ASCII digits''"
| "key_text D show key (KeyOverflow digits) = str_debug D digits @ '': number too large to fit in target type''"
| "key_text D show key (KeyRefused e) = show e"

fun source_text :: "std_display \<Rightarrow> ('e \<Rightarrow> string) \<Rightarrow> 'e persistence_source \<Rightarrow> string" where
  "source_text D show (SerdeError text) = text"
| "source_text D show (FjallError text) = text"
| "source_text D show LifecycleStatePoisoned = state_poisoned_text"
| "source_text D show CommitLockPoisoned = commit_lock_poisoned_text"
| "source_text D show (QuarantineSequenceExhausted which) = sequence_exhausted_text which"
| "source_text D show (OversizedValue what len limit) = oversized_text what len limit"
| "source_text D show (UnpairedQuarantineEntry sequence reason) = unpaired_text sequence reason"
| "source_text D show (MalformedKey key reason) = malformed_key_text D key (key_text D show key reason)"
| "source_text D show (UndecodableRecord what text) = undecodable_text what text"
| "source_text D show (InconsistentRecord reason) = corrupt_text reason"

lemma key_text_cong: "r = r' \<Longrightarrow> (\<And>e. e \<in> set_key_reason r' \<Longrightarrow> f e = g e) \<Longrightarrow> key_text D f key r = key_text D g key r'"
  by (cases r') auto

lemma source_text_cong [fundef_cong]:
  "s = s' \<Longrightarrow> (\<And>e. e \<in> set_persistence_source s' \<Longrightarrow> f e = g e) \<Longrightarrow> source_text D f s = source_text D g s'"
  by (cases s') (auto intro!: arg_cong [where f = "malformed_key_text D k" for k] key_text_cong)

lemma key_reason_size: "e \<in> set_key_reason r \<Longrightarrow> size e \<le> size_key_reason size r"
  by (cases r) auto

lemma source_size [termination_simp]: "e \<in> set_persistence_source s \<Longrightarrow> size e < Suc (size_persistence_source size s)"
  by (cases s) (auto dest: key_reason_size)

fun error_text :: "std_display \<Rightarrow> heurema_error \<Rightarrow> string" where
  "error_text D (DimensionMismatch expected actual) =
     ''vector dimension mismatch: expected '' @ show_nat expected @ '', got '' @ show_nat actual"
| "error_text D (InvalidVector reason) = ''invalid vector: '' @ reason"
| "error_text D (DistanceNotRepresentable distance) =
     ''vector distance is not representable as a finite f32: '' @ sd_f64 D distance @
     '' cannot be returned by VectorIndex::query''"
| "error_text D (InvalidHnswConfig reason) = ''invalid HNSW configuration: '' @ reason"
| "error_text D (SnapshotFormat expected found) =
     ''index snapshot does not match the requested family: expected '' @ family_debug expected @
     '' snapshot, found '' @ family_debug found"
| "error_text D (UnsupportedSnapshotVersion found supported) =
     ''stored index data format version '' @ show_nat found @ '' is not supported; this build reads version '' @
     show_nat supported"
| "error_text D (CorruptSnapshot source) = ''corrupt stored index data: '' @ source_text D (error_text D) source"
| "error_text D (InvalidKConstant k) = ''invalid RRF k_constant: '' @ sd_f32 D k @ '' (must be finite and positive)''"
| "error_text D (IndexNotFound name) = ''index not found: '' @ name"
| "error_text D (Persistence source) = ''persistence backend error: '' @ source_text D (error_text D) source"
| "error_text D (NotYetImplemented feature) = ''not yet implemented: '' @ feature"
| "error_text D (InvalidIdentifier k x r) = operation_refusal_text D (InvalidIdentifier k x r)"
| "error_text D (FamilyMismatch f g) = operation_refusal_text D (FamilyMismatch f g)"
| "error_text D (DuplicateMember m) = operation_refusal_text D (DuplicateMember m)"
| "error_text D (EmptyBatch t) = operation_refusal_text D (EmptyBatch t)"
| "error_text D (TransitionNotPermitted i t k) = operation_refusal_text D (TransitionNotPermitted i t k)"
| "error_text D (RecordMismatch i j) = operation_refusal_text D (RecordMismatch i j)"
| "error_text D (UnencodableOperation r) = operation_refusal_text D (UnencodableOperation r)"
| "error_text D (StagedStateExists i v) = storage_refusal_text (StagedStateExists i v)"
| "error_text D (HeadChanged i) = storage_refusal_text (HeadChanged i)"
| "error_text D (OperationConflict c) = storage_refusal_text (OperationConflict c)"
| "error_text D (StagedStateMissing i v) = storage_refusal_text (StagedStateMissing i v)"
| "error_text D (OperationRecorded i k) = storage_refusal_text (OperationRecorded i k)"
| "error_text D WriterHeld = storage_refusal_text WriterHeld"
| "error_text D (VersionStored i v) = storage_refusal_text (VersionStored i v)"

section \<open>Words of a text\<close>

abbreviation words :: "string \<Rightarrow> string list" where
  "words \<equiv> split_on CHR '' ''"

lemma no_space:
  "CHR '' '' \<notin> set (ns_str n)" "CHR '' '' \<notin> set (name_str m)" "CHR '' '' \<notin> set (key_str k)"
proof -
  have free: "CHR '' '' \<notin> set s" if "grammar_reason g s = None" "CHR '' '' \<notin> set (g_punctuation g)" for g s
    using grammar_chars [OF that(1), of "CHR '' ''"] that(2)
    by (auto simp: follows_def leads_def is_ascii_digit_def is_ascii_lowercase_def is_ascii_uppercase_def)
  show "CHR '' '' \<notin> set (ns_str n)" "CHR '' '' \<notin> set (name_str m)" "CHR '' '' \<notin> set (key_str k)"
    by (rule free [OF ns_str_accepted] free [OF name_str_accepted] free [OF key_str_accepted];
      simp add: OWNER_NAMESPACE_def INDEX_NAME_def OPERATION_KEY_def)+
qed

lemma identity_one_word [simp]: "CHR '' '' \<notin> set (identity_display i)"
  using no_space by (simp add: identity_display_def)

lemma key_one_word [simp]: "CHR '' '' \<notin> set (key_str k)"
  by (rule no_space)

lemma version_one_word [simp]: "CHR '' '' \<notin> set (version_text v)"
  using show_nat_digits [of "version_get v"] by (auto simp: version_text_def list_all_iff is_ascii_digit_def)

lemma digest_one_word [simp]: "CHR '' '' \<notin> set (digest_display d)"
proof -
  have digit: "CHR '' '' \<noteq> hex_digit n" if "n < 16" for n
  proof
    assume space: "CHR '' '' = hex_digit n"
    have "of_char (hex_digit n) = (32 :: nat)" unfolding space [symmetric] by simp
    then show False using that by (simp add: hex_digit_def split: if_splits)
  qed
  have "unat (b :: byte) < 2 ^ LENGTH(8)" for b by (rule unsigned_less)
  then have "unat (b :: byte) div 16 < 16" for b by (simp add: less_mult_imp_div_less)
  then have "CHR '' '' \<notin> set (byte_hex b)" for b using digit by (simp add: byte_hex_def)
  then show ?thesis by transfer auto
qed

lemma enumerations_one_word [simp]: "CHR '' '' \<notin> set (transition_name t)" "CHR '' '' \<notin> set (state_kind_debug k)"
  by (cases t; simp) (cases k; simp)

text \<open>Each of them is named by one text only.\<close>

lemma identity_display_inj [simp]: "identity_display i = identity_display j \<longleftrightarrow> i = j"
proof -
  have "identity_display i = head_key i" for i by (simp add: identity_display_def head_key_def SEPARATOR_def)
  then show ?thesis by (metis parse_head_iff sum.inject(2))
qed

lemma version_text_inj [simp]: "version_text v = version_text w \<longleftrightarrow> v = w"
  by (metis version_text_def dec_value_show_nat version_get_eq)

lemma digest_display_inj [simp]: "digest_display d = digest_display e \<longleftrightarrow> d = e"
  by (metis digest_parse_display sum.inject(2))

lemma transition_name_inj: "transition_name t = transition_name u \<longleftrightarrow> t = u"
  by (cases t; cases u; simp)

lemma state_kind_debug_inj: "state_kind_debug k = state_kind_debug l \<longleftrightarrow> k = l"
  by (cases k; cases l; simp)

lemma words_end: "c \<noteq> CHR '' '' \<Longrightarrow> CHR '' '' \<notin> set a \<Longrightarrow> words (a @ c # CHR '' '' # b) = (a @ [c]) # words b"
  using split_on_append [of "CHR '' ''" "a @ [c]" b] by simp

text \<open>The refusals of a lifecycle that name what they refuse.\<close>

fun lifecycle_refusal :: "heurema_error \<Rightarrow> bool" where
  "lifecycle_refusal (TransitionNotPermitted _ _ _) \<longleftrightarrow> True"
| "lifecycle_refusal (RecordMismatch _ _) \<longleftrightarrow> True"
| "lifecycle_refusal (StagedStateExists _ _) \<longleftrightarrow> True"
| "lifecycle_refusal (HeadChanged _) \<longleftrightarrow> True"
| "lifecycle_refusal (OperationConflict _) \<longleftrightarrow> True"
| "lifecycle_refusal (StagedStateMissing _ _) \<longleftrightarrow> True"
| "lifecycle_refusal (OperationRecorded _ _) \<longleftrightarrow> True"
| "lifecycle_refusal WriterHeld \<longleftrightarrow> True"
| "lifecycle_refusal (VersionStored _ _) \<longleftrightarrow> True"
| "lifecycle_refusal _ \<longleftrightarrow> False"

lemma refusal_words:
  "words (error_text D (TransitionNotPermitted i t k)) =
     [transition_name t, ''is'', ''not'', ''permitted'', ''on'', ''index'', identity_display i, ''in'', ''state'', state_kind_debug k]"
  "words (error_text D (RecordMismatch i j)) =
     [''operation'', ''on'', ''index'', identity_display i, ''was'', ''checked'', ''against'', ''the'', ''record'', ''of'', ''index'',
      identity_display j]"
  "words (error_text D (StagedStateExists i v)) =
     [''index'', identity_display i, ''holds'', ''interrupted'', ''staged'', ''state'', ''for'', ''version'', version_text v @ '';'',
      ''nothing'', ''was'', ''written'']"
  "words (error_text D (HeadChanged i)) =
     [''index'', identity_display i, ''changed'', ''since'', ''its'', ''head'', ''was'', ''read;'', ''nothing'', ''was'', ''written'']"
  "words (error_text D (OperationConflict c)) =
     [''operation'', ''key'', key_str (oc_key c), ''on'', ''index'', identity_display (oc_index c), ''is'', ''recorded'', ''with'',
      ''digest'', digest_display (oc_recorded c) @ '','', ''not'', ''the'', ''requested'', digest_display (oc_requested c)]"
  "words (error_text D (StagedStateMissing i v)) =
     [''index'', identity_display i, ''holds'', ''no'', ''staged'', ''state'', ''for'', ''version'', version_text v, ''matching'',
      ''this'', ''write;'', ''nothing'', ''was'', ''written'']"
  "words (error_text D (OperationRecorded i k')) =
     [''index'', identity_display i, ''already'', ''records'', ''operation'', key_str k' @ '';'', ''nothing'', ''was'', ''written'']"
  "words (error_text D WriterHeld) =
     [''this'', ''thread'', ''already'', ''holds'', ''the'', ''backend'' @ [CHR 0x27] @ ''s'', ''lifecycle'', ''writer'', ''(a'', ''WriterGuard,'',
      ''or'', ''a'', ''Prepared'', ''or'', ''Staged'', ''operation,'', ''not'', ''yet'', ''dropped);'', ''nothing'', ''was'', ''written'']"
  "words (error_text D (VersionStored i v)) =
     [''index'', identity_display i, ''already'', ''stores'', ''a'', ''payload'', ''for'', ''version'', version_text v, ''that'', ''no'',
      ''staging'', ''marker'', ''names;'', ''nothing'', ''was'', ''written'']"
  by (simp_all add: words_end)

section \<open>Properties\<close>

text \<open>
  C39: The text of a lifecycle refusal says which refusal it is and of what: two of the refusals by
  the permission step, the replay check, the writer or a storage write have the same text only
  when they are the same, index, version, operation key and digests included.
\<close>
theorem refusal_texts_tell_apart:
  assumes "lifecycle_refusal e" "lifecycle_refusal e'"
  shows "error_text D e = error_text D e' \<longleftrightarrow> e = e'"
proof
  assume "error_text D e = error_text D e'"
  then have "words (error_text D e) = words (error_text D e')" by simp
  then show "e = e'" using assms(1,2)
    by (cases e; simp del: error_text.simps add: refusal_words; cases e';
      simp del: error_text.simps add: refusal_words transition_name_inj state_kind_debug_inj key_str_inject
        operation_conflict_detail.equality)
qed simp

theorem refusal_texts_tell_apart_witness:
  "\<forall>D. error_text D (VersionStored sample_index version_first) \<noteq> error_text D (StagedStateExists sample_index version_first)"
  by (simp del: error_text.simps add: refusal_texts_tell_apart)

end
