(* ===== verification/Spec2Isabelle.thy ===== *)
theory Spec2Isabelle
  imports Atmis Rrf Bm25 Hnsw_Query Lifecycle Writer Durable Readers Messages
begin

text \<open>
  A verification library for heurema: an embeddable search core with a vector index (HNSW) and a
  full-text index (BM25), whose named indexes change through lifecycle operations stored by an
  adapter, in memory (atmis) or on disk (thesauros). Paths below are relative to \<open>crates/\<close>.

  The program. An application builds a \<open>LifecycleOperation\<close> (create, insert, remove, rebuild,
  destroy) on an index it names. \<open>IndexLifecycle::prepare\<close> checks it without state, takes the
  writer of the backend, reads the index's head, replays a recorded receipt or builds the next
  version in memory and encodes what is to be written; \<open>Prepared::stage\<close> writes the version beside
  a staging marker; \<open>Staged::publish\<close> makes head, operation record and version visible in one
  atomic write. Readers take no writer: they read the head, then the immutable payload it names,
  and query the engine inside it.

  The theories, in the order of their imports, and the code they model.
    \<^item> \<open>Prelude\<close>: results \<open>error + 'a\<close> for Rust's \<open>Result\<close>, loops that stop at the first error, and
      the sorted maps and sets that stand for \<open>BTreeMap\<close> and \<open>BTreeSet\<close>, with their laws.
    \<^item> \<open>Identity\<close>, \<open>Errors\<close>, \<open>Vocabulary\<close>: \<open>heurema/src/lifecycle/identity.rs\<close>, \<open>error.rs\<close>, and
      the data of \<open>operation.rs\<close>, \<open>member.rs\<close>, \<open>record.rs\<close>, \<open>hnsw.rs\<close>, \<open>fts.rs\<close>. Identifiers are
      typedefs of the values their constructors accept, a \<open>str\<close> is the list of its UTF-8 bytes, an
      error is a value, and a call that can panic returns a \<open>failure\<close>, an error or \<open>Panic\<close>.
    \<^item> \<open>Storage_Key\<close>, \<open>Backend\<close>: \<open>lifecycle/backend.rs\<close>. The storage keys and their parsers; the
      trait \<open>LifecycleBackend\<close> as a record of its methods over a state, the abstract store, what
      each write promises of it (\<open>spec_stage\<close>, \<open>spec_publish\<close>, \<open>spec_destroy\<close>,
      \<open>spec_quarantine\<close>), and the locale \<open>lifecycle_store\<close> of the backends that keep the promises,
      storage failures included; \<open>reliable_store\<close> adds that storage does not fail.
    \<^item> \<open>Atmis\<close>: \<open>atmis/src/lib.rs\<close>, an interpretation of both locales.
    \<^item> \<open>Floats\<close>: the \<open>f32\<close> and \<open>f64\<close> arithmetic the engines use, on bit patterns.
    \<^item> \<open>Rrf\<close>: \<open>heurema/src/rrf.rs\<close>. \<open>Bm25\<close>: \<open>fts/bm25.rs\<close>.
    \<^item> \<open>Hnsw\<close>: \<open>hnsw/engine.rs\<close>, with its proofs in \<open>Hnsw_Links\<close> (links of a level), \<open>Hnsw_Backbone\<close>
      (the cycle through every node), \<open>Hnsw_Wf\<close> (the invariant), \<open>Hnsw_Ops\<close> (insertion and
      removal), \<open>Hnsw_Snapshot\<close> (decoding) and \<open>Hnsw_Query\<close>.
    \<^item> \<open>Encoder\<close>, \<open>Items\<close>, \<open>Digest\<close>: \<open>lifecycle/digest.rs\<close>. The serializer of canonical bytes, the
      grammar its documentation gives, and the canonical form of an operation.
    \<^item> \<open>Validate\<close>: \<open>lifecycle/validate.rs\<close>. \<open>Encoding\<close>: \<open>lifecycle/encoding.rs\<close>, the stored records
      and their decoders. \<open>Apply\<close>: \<open>lifecycle/apply.rs\<close>, with \<open>Engines\<close> (the locale \<open>engine\<close> and its
      interpretations for both engines) and \<open>Successors\<close> (what the built version holds).
    \<^item> \<open>Published\<close>: \<open>lifecycle/published.rs\<close>. \<open>Driver\<close>: \<open>lifecycle/driver.rs\<close>. \<open>Writer\<close>:
      \<open>lifecycle/writer.rs\<close>, its mutex and condition variable as a step relation over threads.
    \<^item> \<open>Persistence\<close>: \<open>persistence.rs\<close> and the snapshots of \<open>atmis\<close>. \<open>Thesauros\<close>:
      \<open>thesauros/src/lib.rs\<close>; \<open>Thesauros_Laws\<close> shows that it keeps the storage contract.
    \<^item> \<open>Catalogue\<close>, \<open>Driver_Laws\<close>: what a store's bytes stand for, the specification
      \<open>lifecycle_step\<close> of an operation on that catalogue, and the driver's refinement of it, proved
      once in the locale \<open>lifecycle_store\<close>. \<open>Lifecycle\<close> and \<open>Durable\<close> apply it to the two adapters.
    \<^item> \<open>Concurrent\<close>, \<open>Readers\<close>: several threads over one backend, interleaved at every backend call.
    \<^item> \<open>Messages\<close>: the text of every error.

  What the lemmas show.
    \<^item> Engines: \<open>Hnsw_Ops\<close> and \<open>Bm25\<close> show that every history of insertions and removals keeps the
      engine's invariant, acts as on a map, and never indexes out of bounds; their snapshot checks
      accept exactly the invariant (a snapshot that breaks it can make the HNSW decoder panic
      before it refuses); queries return at most the limit, once each, in
      order, and the exact nearest members when the beam covers the index. Fusion returns each
      identity once, in order, but can depend on the arrangement of three rankings.
    \<^item> Operations: the checks accept exactly the operations that can be stored and applied; canonical
      bytes are equal exactly for the same operation up to the order of its batch; building meets no
      engine refusal, holds what the operation asks for, and its audit record undoes it.
    \<^item> Storage: both adapters keep the contract, the durable one over any database that keeps fjall's
      promises; saved snapshots load as saved.
    \<^item> Lifecycle: applying an operation is one step of the specification, all or nothing whatever
      storage call fails; a receipt, once returned, is returned for ever; a staged version is
      invisible; reads return the catalogue.
    \<^item> Progress: an operation that the checks and the permission step accept, under a new key and with
      nothing staged, publishes while the version counter and the corpus counter have room.
    \<^item> Threads: the writer excludes, and once no thread asks for it anew each thread that waits gets it
      and releases it; interleaved operations return and leave what they
      do one after the other; a read amid other threads' operations returns the version
      published at its start, or that the index was destroyed since.
    \<^item> Errors: validation refuses under the category \<open>Refused\<close>, the permission step with the first
      condition the record fails, and the text of a lifecycle refusal
      determines the refusal.

  Parameters of the model, arguments of the definitions that use them.
    \<^item> \<open>serde_json\<close> and the \<open>Serialize\<close> code of the application's types: \<open>record_codec\<close>,
      \<open>snapshot_codec\<close>, \<open>consumer\<close>. \<open>codec_ok\<close> and \<open>serialises\<close> say that what is written reads back,
      for values whose parts read back one by one; for the vectors of an engine this assumes that
      \<open>serde_json\<close> reads back every \<open>f32\<close> it writes, though the workspace does not enable its
      \<open>float_roundtrip\<close> feature.
    \<^item> SHA-256 (\<open>op_codec\<close>), the natural logarithm of the BM25 weights, the Unicode tables of \<open>char\<close>
      (\<open>unicode\<close>), and what the standard library prints for floats and characters outside ASCII
      (\<open>std_display\<close>). The only law assumed of them is \<open>lowercase_nonempty\<close>.
    \<^item> fjall (the record \<open>fjall\<close>, with its documented promises \<open>fjall_ok\<close>: reads return what the last
      successful commit left or fail, a commit happens entirely or not at all). Its reads are
      functions of the database's state: whether one fails can differ between states, not between
      two reads of the same state.
  Every hypothesis has a concrete instance in a witness (\<open>sample_codec\<close>, \<open>sample_fjall\<close>,
  \<open>word_consumer\<close>, \<open>ascii_unicode\<close>).

  Bounds. \<open>usize\<close> and \<open>u64\<close> are 64 bits: arithmetic that wraps is on words, arithmetic that is
  checked or saturates says so. The greedy descent of the HNSW engine takes its budget, the number
  of nodes, from the code; the best-first search and the reachability check end by a measure, so
  no fuel is added anywhere. Panics the code can reach are values, and the lemmas on histories
  show which cannot be reached.

  Not modelled. Tests and continuous integration; the crate roots and module documentation, which
  re-export and hold no code; \<open>Debug\<close> implementations written by hand, accessors that
  return a field, and plain constructors of records; the source locations of errors and the chain
  of \<open>Error::source\<close>; the derived \<open>Serialize\<close> and \<open>Deserialize\<close> code and serde's visitor types,
  which are the parameters above; opening a database, its keyspaces and the lock of its
  directory; test-only instrumentation of the HNSW engine (the counters of distance evaluations).
  Poison of the writer's mutex is ignored by the code and so by the model; a thread is assumed to
  drop its guard rather than leak it.
\<close>

end
